(* ===== verification/Prelude.thy ===== *)
theory Prelude
  imports Main "HOL-Library.Word" "HOL-Library.List_Lexorder"
begin

text \<open>
  The shared vocabulary of the development: bytes and fixed-width integers, how a C++ call ends
  (\<open>outcome\<close>: it returns, or it throws / runs into undefined behaviour), error codes, the
  state-passing combinators the stateful components are written with, and the generic facts on
  little-endian byte strings and lists that several components use.
\<close>

unbundle bit_operations_syntax

section \<open>Collections of rewrite rules\<close>

named_theorems op_defs \<open>definitions of the state-passing combinators\<close>
named_theorems smap_simps \<open>facts on ordered maps and sets\<close>
named_theorems heap_simps \<open>facts on the heap of state deltas\<close>
named_theorems meter_simps \<open>facts on the resource meter\<close>
named_theorems upholds_rules \<open>operations that keep an invariant and respect a relation\<close>

section \<open>Machine types\<close>

type_synonym byte = "8 word"
type_synonym bytes = "byte list"
type_synonym u8 = "8 word"
type_synonym u32 = "32 word"
type_synonym u64 = "64 word"

text \<open>\<open>std::array< std::byte, 32 >\<close>; the length is an invariant of the values that occur.\<close>

type_synonym digest = bytes

definition zero_digest :: digest where
  "zero_digest = replicate 32 0"

lemma length_zero_digest [simp]: "length zero_digest = 32"
  by (simp add: zero_digest_def)

section \<open>How a call ends\<close>

text \<open>
  A C++ function returns, throws an exception, or has undefined behaviour.  Each way of not
  returning is a value: \<open>Runtime_error\<close> carries the text given to \<open>std::runtime_error\<close>,
  \<open>Null_dereference\<close> is a member access through an empty smart pointer, \<open>Invalid_iterator\<close> a use
  of an erased iterator, \<open>Out_of_range\<close> an access outside an array or a span, and
  \<open>Assertion_failed\<close> a failing \<open>assert\<close>, \<open>Unreachable\<close> a call of \<open>std::unreachable()\<close>.  \<open>Terminated\<close>
  is the call of \<open>std::terminate\<close> when an exception leaves a \<open>noexcept\<close> function.  \<open>Diverges\<close> stands
  for recursion that never ends.
\<close>

datatype exn =
    Runtime_error string
  | Null_dereference
  | Invalid_iterator
  | Out_of_range
  | Assertion_failed
  | Unreachable
  | Division_by_zero
  | Terminated
  | Diverges

datatype 'a outcome = Returned 'a | Threw exn

type_synonym ('s, 'a) op = "'s \<Rightarrow> 'a outcome \<times> 's"

definition returns :: "'a \<Rightarrow> ('s, 'a) op" where
  "returns x s = (Returned x, s)"

definition throws :: "exn \<Rightarrow> ('s, 'a) op" where
  "throws e s = (Threw e, s)"

text \<open>
  Sequencing.  An exception keeps the state reached so far: C++ does not roll a mutation back.
\<close>

definition andThen :: "('s, 'a) op \<Rightarrow> ('a \<Rightarrow> ('s, 'b) op) \<Rightarrow> ('s, 'b) op" where
  "andThen m f s = (case m s of (Returned x, s') \<Rightarrow> f x s' | (Threw e, s') \<Rightarrow> (Threw e, s'))"

definition reads :: "('s \<Rightarrow> 'a) \<Rightarrow> ('s, 'a) op" where
  "reads f s = (Returned (f s), s)"

definition readsE :: "('s \<Rightarrow> 'a outcome) \<Rightarrow> ('s, 'a) op" where
  "readsE f s = (f s, s)"

definition modifies :: "('s \<Rightarrow> 's) \<Rightarrow> ('s, unit) op" where
  "modifies g s = (Returned (), g s)"

declare returns_def [op_defs] throws_def [op_defs] andThen_def [op_defs]
  reads_def [op_defs] readsE_def [op_defs] modifies_def [op_defs]

text \<open>Sequencing of calls that only compute a value.\<close>

fun bindO :: "'a outcome \<Rightarrow> ('a \<Rightarrow> 'b outcome) \<Rightarrow> 'b outcome" where
  "bindO (Returned x) f = f x"
| "bindO (Threw e) f = Threw e"

lemma andThen_returns [simp]: "andThen (returns x) f = f x"
  by (simp add: op_defs fun_eq_iff)

lemma andThen_throws [simp]: "andThen (throws e) f = throws e"
  by (simp add: op_defs fun_eq_iff)

lemma andThen_returns_right [simp]: "andThen m returns = m"
  by (auto simp: op_defs fun_eq_iff split: prod.splits outcome.splits)

lemma andThen_assoc: "andThen (andThen m f) g = andThen m (\<lambda>x. andThen (f x) g)"
  by (auto simp: op_defs fun_eq_iff split: prod.splits outcome.splits)

lemma andThen_Returned_iff:
  "andThen m f s = (Returned y, s'') \<longleftrightarrow>
     (\<exists>x s'. m s = (Returned x, s') \<and> f x s' = (Returned y, s''))"
  by (auto simp: andThen_def split: prod.splits outcome.splits)

lemma andThen_ReturnedI:
  "m s = (Returned x, s') \<Longrightarrow> andThen m f s = f x s'"
  by (simp add: andThen_def)

lemma andThen_ThrewI: "m s = (Threw e, s') \<Longrightarrow> andThen m f s = (Threw e, s')"
  by (simp add: andThen_def)

lemma bindO_Returned_iff:
  "bindO m f = Returned y \<longleftrightarrow> (\<exists>x. m = Returned x \<and> f x = Returned y)"
  by (cases m) auto

text \<open>A \<open>noexcept\<close> function: an exception that would leave it ends the process instead.\<close>

fun noexcept_exn :: "exn \<Rightarrow> exn" where
  "noexcept_exn (Runtime_error msg) = Terminated"
| "noexcept_exn e = e"

definition noexcept :: "('s, 'a) op \<Rightarrow> ('s, 'a) op" where
  "noexcept m s = (case m s of (Returned x, s') \<Rightarrow> (Returned x, s') | (Threw e, s') \<Rightarrow> (Threw (noexcept_exn e), s'))"

lemma noexcept_Returned_iff [simp]: "noexcept m s = (Returned x, s') \<longleftrightarrow> m s = (Returned x, s')"
  by (auto simp: noexcept_def split: prod.splits outcome.splits)

lemma snd_noexcept [simp]: "snd (noexcept m s) = snd (m s)"
  by (auto simp: noexcept_def split: prod.splits outcome.splits)

text \<open>
  An operation respects a relation under an invariant: started in a state with the invariant it does not
  run forever, and when it returns the invariant holds again and the relation holds between the states.
\<close>

definition upholds :: "('s \<Rightarrow> bool) \<Rightarrow> ('s \<Rightarrow> 's \<Rightarrow> bool) \<Rightarrow> ('s, 'a) op \<Rightarrow> bool" where
  "upholds P Q m \<longleftrightarrow>
     (\<forall>s. P s \<longrightarrow> (case m s of (Returned x, s') \<Rightarrow> (P s' \<and> Q s s') | (Threw e, s') \<Rightarrow> e \<noteq> Diverges))"

definition preorder_rel :: "('s \<Rightarrow> 's \<Rightarrow> bool) \<Rightarrow> bool" where
  "preorder_rel Q \<longleftrightarrow> (\<forall>s. Q s s) \<and> (\<forall>s t u. Q s t \<longrightarrow> Q t u \<longrightarrow> Q s u)"

lemma preorder_relD: "preorder_rel Q \<Longrightarrow> Q s s" "preorder_rel Q \<Longrightarrow> Q s t \<Longrightarrow> Q t u \<Longrightarrow> Q s u"
  unfolding preorder_rel_def by blast+

lemma upholdsI:
  assumes "\<And>s x s'. P s \<Longrightarrow> m s = (Returned x, s') \<Longrightarrow> P s' \<and> Q s s'"
    and "\<And>s s'. P s \<Longrightarrow> m s \<noteq> (Threw Diverges, s')"
  shows "upholds P Q m"
  using assms by (auto simp: upholds_def split: prod.splits outcome.splits)

lemma upholdsD:
  "upholds P Q m \<Longrightarrow> P s \<Longrightarrow> m s = (Returned x, s') \<Longrightarrow> P s' \<and> Q s s'"
  "upholds P Q m \<Longrightarrow> P s \<Longrightarrow> m s \<noteq> (Threw Diverges, s')"
  by (auto simp: upholds_def split: prod.splits outcome.splits)

lemma upholds_simple [upholds_rules]:
  assumes "preorder_rel Q"
  shows "upholds P Q (returns x)" "upholds P Q (reads f)" "e \<noteq> Diverges \<Longrightarrow> upholds P Q (throws e)"
    "(\<And>s. P s \<Longrightarrow> g s \<noteq> Threw Diverges) \<Longrightarrow> upholds P Q (readsE g)"
  using assms by (auto simp: upholds_def op_defs preorder_rel_def split: outcome.splits)

lemma upholds_andThen [upholds_rules]:
  assumes "preorder_rel Q" and "upholds P Q m" and "\<And>x. upholds P Q (f x)"
  shows "upholds P Q (andThen m f)"
proof (rule upholdsI)
  fix s x s'
  assume P: "P s" and "andThen m f s = (Returned x, s')"
  then obtain y s1 where s1: "m s = (Returned y, s1)" "f y s1 = (Returned x, s')" by (auto simp: andThen_Returned_iff)
  then have "P s1 \<and> Q s s1" using upholdsD(1) [OF assms(2) P] by blast
  then show "P s' \<and> Q s s'"
    using upholdsD(1) [OF assms(3)] s1(2) preorder_relD(2) [OF assms(1)] by blast
next
  fix s s'
  assume P: "P s"
  show "andThen m f s \<noteq> (Threw Diverges, s')"
  proof (cases "m s")
    case (Pair r s1)
    then show ?thesis
      using P assms(2,3) upholdsD [OF assms(2) P] upholdsD(2) [OF assms(3)]
      by (cases r) (auto simp: andThen_def)
  qed
qed

text \<open>The rule with a fact on the result of the first operation.\<close>

lemma upholds_andThen_result:
  assumes "preorder_rel Q" and "upholds P Q m" and "\<And>s x s'. P s \<Longrightarrow> m s = (Returned x, s') \<Longrightarrow> C x"
    and "\<And>x. C x \<Longrightarrow> upholds P Q (f x)"
  shows "upholds P Q (andThen m f)"
proof (rule upholdsI)
  fix s x s'
  assume P: "P s" and "andThen m f s = (Returned x, s')"
  then obtain y s1 where s1: "m s = (Returned y, s1)" "f y s1 = (Returned x, s')" by (auto simp: andThen_Returned_iff)
  then have "P s1 \<and> Q s s1" using upholdsD(1) [OF assms(2) P] by blast
  then show "P s' \<and> Q s s'"
    using upholdsD(1) [OF assms(4) [OF assms(3) [OF P s1(1)]]] s1(2) preorder_relD(2) [OF assms(1)] by blast
next
  fix s s'
  assume P: "P s"
  show "andThen m f s \<noteq> (Threw Diverges, s')"
  proof (cases "m s")
    case (Pair r s1)
    then show ?thesis
      using P upholdsD [OF assms(2) P] assms(3) [OF P] upholdsD(2) [OF assms(4)]
      by (cases r) (auto simp: andThen_def)
  qed
qed

lemma upholds_cases [upholds_rules]:
  "(c \<Longrightarrow> upholds P Q m) \<Longrightarrow> (\<not> c \<Longrightarrow> upholds P Q n) \<Longrightarrow> upholds P Q (if c then m else n)"
  "(\<And>a b. upholds P Q (f a b)) \<Longrightarrow> upholds P Q (case x of (a, b) \<Rightarrow> f a b)"
  "(\<And>a. upholds P Q (g a)) \<Longrightarrow> (\<And>b. upholds P Q (h b)) \<Longrightarrow> upholds P Q (case y of Inl a \<Rightarrow> g a | Inr b \<Rightarrow> h b)"
  "upholds P Q k \<Longrightarrow> (\<And>a. upholds P Q (g a)) \<Longrightarrow> upholds P Q (case z of None \<Rightarrow> k | Some a \<Rightarrow> g a)"
  by (auto split: prod.split sum.split option.split)

lemma upholds_noexcept [upholds_rules]: "upholds P Q m \<Longrightarrow> upholds P Q (noexcept m)"
proof (rule upholdsI)
  fix s s'
  assume m: "upholds P Q m" and P: "P s"
  have "noexcept_exn e = Diverges \<longleftrightarrow> e = Diverges" for e by (cases e) auto
  then show "noexcept m s \<noteq> (Threw Diverges, s')"
    using upholdsD(2) [OF m P] by (auto simp: noexcept_def split: prod.splits outcome.splits)
next
  fix s x s'
  assume "upholds P Q m" and "P s" and "noexcept m s = (Returned x, s')"
  then show "P s' \<and> Q s s'" by (simp only: noexcept_Returned_iff) (rule upholdsD(1))
qed

section \<open>Little-endian byte strings\<close>

text \<open>
  \<open>memory::as_bytes\<close> of an integer that went through \<open>native_to_little\<close>, and
  \<open>memory::bit_cast\<close> followed by \<open>little_to_native\<close>.
\<close>

fun le_bytes :: "nat \<Rightarrow> nat \<Rightarrow> bytes" where
  "le_bytes 0 x = []"
| "le_bytes (Suc n) x = word_of_nat (x mod 256) # le_bytes n (x div 256)"

fun le_value :: "bytes \<Rightarrow> nat" where
  "le_value [] = 0"
| "le_value (b # bs) = unat b + 256 * le_value bs"

lemma unat_byte_less: "unat (b :: byte) < 256"
  using unsigned_less [of b, where ?'a = nat] by simp

lemma unat_u32_less: "unat (x :: u32) < 2 ^ 32"
  using unsigned_less [of x, where ?'a = nat] by simp

lemma unat_u64_less: "unat (x :: u64) < 2 ^ 64"
  using unsigned_less [of x, where ?'a = nat] by simp

lemma length_le_bytes [simp]: "length (le_bytes n x) = n"
  by (induction n arbitrary: x) auto

lemma le_value_le_bytes: "le_value (le_bytes n x) = x mod 256 ^ n"
proof (induction n arbitrary: x)
  case 0
  then show ?case by simp
next
  case (Suc n)
  have "unat (word_of_nat (x mod 256) :: byte) = x mod 256"
    by (simp add: unat_of_nat)
  with Suc show ?case
    by (simp add: mod_mult2_eq)
qed

lemma le_value_less: "le_value bs < 256 ^ length bs"
proof (induction bs)
  case Nil
  then show ?case by simp
next
  case (Cons b bs)
  have "unat b < 256"
    by (rule unat_byte_less)
  with Cons show ?case by simp
qed

lemma le_bytes_le_value: "le_bytes (length bs) (le_value bs) = bs"
proof (induction bs)
  case Nil
  then show ?case by simp
next
  case (Cons b bs)
  have b: "unat b < 256"
    by (rule unat_byte_less)
  have "word_of_nat ((unat b + 256 * le_value bs) mod 256) = b"
    using b by simp
  moreover have "(unat b + 256 * le_value bs) div 256 = le_value bs"
    using b by simp
  ultimately show ?case using Cons by simp
qed

definition u64_bytes :: "u64 \<Rightarrow> bytes" where
  "u64_bytes x = le_bytes 8 (unat x)"

definition u32_bytes :: "u32 \<Rightarrow> bytes" where
  "u32_bytes x = le_bytes 4 (unat x)"

definition u64_of_bytes :: "bytes \<Rightarrow> u64" where
  "u64_of_bytes bs = word_of_nat (le_value bs)"

definition u32_of_bytes :: "bytes \<Rightarrow> u32" where
  "u32_of_bytes bs = word_of_nat (le_value bs)"

text \<open>Code equations that read and write the bytes through words, not through unary numbers.\<close>

primrec word_bytes :: "nat \<Rightarrow> 'a::len word \<Rightarrow> bytes" where
  "word_bytes 0 x = []"
| "word_bytes (Suc n) x = ucast x # word_bytes n (drop_bit 8 x)"

primrec bytes_word :: "bytes \<Rightarrow> 'a::len word" where
  "bytes_word [] = 0"
| "bytes_word (b # bs) = ucast b + 256 * bytes_word bs"

lemma word_bytes_le: "word_bytes n x = le_bytes n (unat x)"
proof (induction n arbitrary: x)
  case (Suc n)
  have "(ucast x :: byte) = word_of_nat (unat x mod 256)"
    by (simp add: word_eq_iff_unsigned [where ?'a = nat] unsigned_ucast_eq unsigned_of_nat take_bit_eq_mod)
  moreover have "unat (drop_bit 8 x) = unat x div 256"
    by (simp only: unsigned_drop_bit_eq) (simp add: drop_bit_eq_div take_bit_nat_eq_self)
  ultimately show ?case using Suc by simp
qed simp

lemma bytes_word_le: "bytes_word bs = word_of_nat (le_value bs)"
proof (induction bs)
  case (Cons b bs)
  have "(ucast b :: 'a word) = word_of_nat (unat b)" by (rule of_nat_unat [symmetric])
  then show ?case using Cons by simp
qed simp

lemma bytes_code [code]:
  "u64_bytes x = word_bytes 8 x" "u32_bytes y = word_bytes 4 y" "u64_of_bytes bs = bytes_word bs" "u32_of_bytes bs = bytes_word bs"
  by (simp_all add: u64_bytes_def u32_bytes_def u64_of_bytes_def u32_of_bytes_def word_bytes_le bytes_word_le)

lemma length_u64_bytes [simp]: "length (u64_bytes x) = 8"
  by (simp add: u64_bytes_def)

lemma length_u32_bytes [simp]: "length (u32_bytes x) = 4"
  by (simp add: u32_bytes_def)

lemma u64_of_bytes_inverse [simp]: "u64_of_bytes (u64_bytes x) = x"
proof -
  have "unat x < 2 ^ 64"
    by (rule unat_u64_less)
  then show ?thesis
    by (simp add: u64_of_bytes_def u64_bytes_def le_value_le_bytes)
qed

lemma u32_of_bytes_inverse [simp]: "u32_of_bytes (u32_bytes x) = x"
proof -
  have "unat x < 2 ^ 32"
    by (rule unat_u32_less)
  then show ?thesis
    by (simp add: u32_of_bytes_def u32_bytes_def le_value_le_bytes)
qed

lemma u64_bytes_inject [simp]: "u64_bytes x = u64_bytes y \<longleftrightarrow> x = y"
  by (metis u64_of_bytes_inverse)

lemma u32_bytes_inject [simp]: "u32_bytes x = u32_bytes y \<longleftrightarrow> x = y"
  by (metis u32_of_bytes_inverse)

text \<open>\<open>memory::bit_cast< std::uint64_t >\<close> throws on a short span and ignores what follows.\<close>

definition bit_cast_u64 :: "bytes \<Rightarrow> u64 outcome" where
  "bit_cast_u64 bs =
     (if length bs < 8 then Threw (Runtime_error ''byte span is too small'')
      else Returned (u64_of_bytes (take 8 bs)))"

definition bit_cast_bool :: "bytes \<Rightarrow> bool outcome" where
  "bit_cast_bool bs =
     (if length bs < 1 then Threw (Runtime_error ''byte span is too small'')
      else Returned (hd bs \<noteq> 0))"

lemma bit_cast_u64_bytes [simp]: "bit_cast_u64 (u64_bytes x) = Returned x"
  by (simp add: bit_cast_u64_def)

section \<open>Unsigned arithmetic\<close>

lemma unat_sub_le: "b \<le> a \<Longrightarrow> unat (a - b) = unat a - unat (b :: 'a::len word)"
  by (rule unat_sub)

text \<open>\<open>std::numeric_limits< std::uint64_t >::max()\<close>.\<close>

definition u64_max :: u64 where
  "u64_max = 18446744073709551615"

lemma unat_u64_max [simp]: "unat u64_max = 2 ^ 64 - 1"
  by (simp add: u64_max_def)

lemma u64_le_max [simp]: "x \<le> u64_max"
  using unat_u64_less [of x] by (simp add: word_le_nat_alt)

text \<open>The overflow guard \<open>max / c < x\<close> of the code holds exactly when \<open>c * x\<close> does not fit.\<close>

lemma div_guard_iff:
  fixes c x :: u64
  assumes "c \<noteq> 0"
  shows "u64_max div c < x \<longleftrightarrow> 2 ^ 64 \<le> unat x * unat c"
proof -
  have c: "0 < unat c"
    using assms by (simp add: unat_gt_0)
  have "u64_max div c < x \<longleftrightarrow> (2 ^ 64 - 1) div unat c < unat x"
    by (simp add: word_less_nat_alt unat_div)
  also have "\<dots> \<longleftrightarrow> 2 ^ 64 - 1 < unat x * unat c"
    using c by (simp only: div_less_iff_less_mult)
  also have "\<dots> \<longleftrightarrow> 2 ^ 64 \<le> unat x * unat c"
    by auto
  finally show ?thesis .
qed

lemma unat_mult_no_overflow:
  "unat x * unat y < 2 ^ 64 \<Longrightarrow> unat (x * y :: u64) = unat x * unat y"
  by (simp add: unat_word_ariths)

end
