(* ===== verification/Ordered_Map.thy ===== *)
theory Ordered_Map
  imports Prelude
begin

text \<open>
  The ordered containers of the C++ standard library the program uses, as sorted lists:
  \<open>std::map\<close> is an association list with strictly increasing keys, \<open>std::set\<close> a strictly
  increasing list.  Iterating from \<open>begin()\<close> to \<open>end()\<close> is walking the list.  The locale
  \<open>ordered_map\<close> states the container's contract; it is interpreted on the list operations, and
  the components reach the operations through its facts only.
\<close>

type_synonym ('k, 'v) smap = "('k \<times> 'v) list"

section \<open>Operations\<close>

text \<open>\<open>lower_bound\<close>: the part of the sequence that starts at the first key not below \<open>k\<close>.\<close>

fun map_lower_bound :: "('k::linorder, 'v) smap \<Rightarrow> 'k \<Rightarrow> ('k, 'v) smap" where
  "map_lower_bound [] k = []"
| "map_lower_bound ((a, b) # m) k = (if a < k then map_lower_bound m k else (a, b) # m)"

fun map_find :: "('k::linorder, 'v) smap \<Rightarrow> 'k \<Rightarrow> 'v option" where
  "map_find [] k = None"
| "map_find ((a, b) # m) k = (if a < k then map_find m k else if a = k then Some b else None)"

fun map_insert_or_assign :: "('k::linorder, 'v) smap \<Rightarrow> 'k \<Rightarrow> 'v \<Rightarrow> ('k, 'v) smap" where
  "map_insert_or_assign [] k v = [(k, v)]"
| "map_insert_or_assign ((a, b) # m) k v =
     (if a < k then (a, b) # map_insert_or_assign m k v
      else if a = k then (k, v) # m
      else (k, v) # (a, b) # m)"

fun map_erase :: "('k::linorder, 'v) smap \<Rightarrow> 'k \<Rightarrow> ('k, 'v) smap" where
  "map_erase [] k = []"
| "map_erase ((a, b) # m) k = (if a < k then (a, b) # map_erase m k else if a = k then m else (a, b) # m)"

fun set_insert :: "'k::linorder list \<Rightarrow> 'k \<Rightarrow> 'k list" where
  "set_insert [] k = [k]"
| "set_insert (a # s) k = (if a < k then a # set_insert s k else if a = k then a # s else k # a # s)"

fun set_erase :: "'k::linorder list \<Rightarrow> 'k \<Rightarrow> 'k list" where
  "set_erase [] k = []"
| "set_erase (a # s) k = (if a < k then a # set_erase s k else if a = k then s else a # s)"

fun set_contains :: "'k::linorder list \<Rightarrow> 'k \<Rightarrow> bool" where
  "set_contains [] k = False"
| "set_contains (a # s) k = (if a < k then set_contains s k else a = k)"

definition sorted_map :: "('k::linorder, 'v) smap \<Rightarrow> bool" where
  "sorted_map m \<longleftrightarrow> sorted_wrt (<) (map fst m)"

definition sorted_set :: "'k::linorder list \<Rightarrow> bool" where
  "sorted_set s \<longleftrightarrow> sorted_wrt (<) s"

section \<open>Sortedness\<close>

definition map_keys :: "('k, 'v) smap \<Rightarrow> 'k set" where
  "map_keys m = fst ` set m"

lemma map_keys_simps [simp]:
  "map_keys [] = {}"
  "map_keys ((a, b) # m) = insert a (map_keys m)"
  by (simp_all add: map_keys_def)

lemma map_keys_dom: "map_keys m = dom (map_of m)"
  by (simp add: map_keys_def dom_map_of_conv_image_fst)

lemma finite_map_keys [simp]: "finite (map_keys m)"
  by (simp add: map_keys_def)

lemma sorted_map_Nil [simp]: "sorted_map []"
  by (simp add: sorted_map_def)

lemma sorted_map_Cons [simp]:
  "sorted_map ((a, b) # m) \<longleftrightarrow> (\<forall>x \<in> map_keys m. a < x) \<and> sorted_map m"
  by (auto simp: sorted_map_def map_keys_def)

lemma sorted_set_Nil [simp]: "sorted_set []"
  by (simp add: sorted_set_def)

lemma sorted_set_Cons [simp]: "sorted_set (a # s) \<longleftrightarrow> (\<forall>x \<in> set s. a < x) \<and> sorted_set s"
  by (auto simp: sorted_set_def)

lemma map_keys_insert_or_assign [simp]:
  "map_keys (map_insert_or_assign m k v) = insert k (map_keys m)"
  by (induction m k v rule: map_insert_or_assign.induct) auto

lemma map_keys_erase_subset: "x \<in> map_keys (map_erase m k) \<Longrightarrow> x \<in> map_keys m"
  by (induction m k rule: map_erase.induct) (auto split: if_splits)

lemma sorted_map_insert_or_assign [smap_simps]:
  "sorted_map m \<Longrightarrow> sorted_map (map_insert_or_assign m k v)"
proof (induction m k v rule: map_insert_or_assign.induct)
  case (1 k v)
  then show ?case by simp
next
  case (2 a b m k v)
  consider "a < k" | "a = k" | "k < a" by (rule linorder_cases)
  then show ?case
  proof cases
    case 3
    then have "\<forall>x \<in> map_keys m. k < x"
      using "2.prems" by (meson less_trans sorted_map_Cons)
    with 3 "2.prems" show ?thesis
      using less_not_sym [OF 3] by simp
  qed (use 2 in simp_all)
qed

lemma sorted_map_erase [smap_simps]: "sorted_map m \<Longrightarrow> sorted_map (map_erase m k)"
  by (induction m k rule: map_erase.induct) (auto dest: map_keys_erase_subset)

lemma sorted_map_keys_distinct: "sorted_map m \<Longrightarrow> distinct (map fst m)"
  by (simp add: sorted_map_def strict_sorted_iff)

lemma set_set_insert [simp]: "set (set_insert s k) = insert k (set s)"
  by (induction s k rule: set_insert.induct) auto

lemma sorted_set_insert [smap_simps]: "sorted_set s \<Longrightarrow> sorted_set (set_insert s k)"
proof (induction s k rule: set_insert.induct)
  case (1 k)
  then show ?case by simp
next
  case (2 a s k)
  consider "a < k" | "a = k" | "k < a" by (rule linorder_cases)
  then show ?case
  proof cases
    case 3
    then have "\<forall>x \<in> set s. k < x"
      using "2.prems" by (meson less_trans sorted_set_Cons)
    with 3 "2.prems" show ?thesis
      using less_not_sym [OF 3] by simp
  qed (use 2 in simp_all)
qed

lemma set_set_erase [smap_simps]: "sorted_set s \<Longrightarrow> set (set_erase s k) = set s - {k}"
  by (induction s k rule: set_erase.induct) auto

lemma sorted_set_erase [smap_simps]: "sorted_set s \<Longrightarrow> sorted_set (set_erase s k)"
  by (induction s k rule: set_erase.induct) (auto simp: set_set_erase)

lemma set_contains_iff [smap_simps]: "sorted_set s \<Longrightarrow> set_contains s k \<longleftrightarrow> k \<in> set s"
  by (induction s k rule: set_contains.induct) (auto dest: less_asym)

section \<open>Lookup\<close>

lemma map_of_None_less:
  fixes a :: "'k::linorder"
  shows "\<forall>x \<in> map_keys m. a < x \<Longrightarrow> k \<le> a \<Longrightarrow> map_of m k = None"
proof -
  assume "\<forall>x \<in> map_keys m. a < x" and "k \<le> a"
  then have "k \<notin> map_keys m" by (meson leD)
  then show "map_of m k = None" by (simp add: map_keys_dom domIff)
qed

lemma map_find_map_of: "sorted_map m \<Longrightarrow> map_find m k = map_of m k"
  by (induction m k rule: map_find.induct) (auto simp: map_of_None_less not_less)

lemma map_of_insert_or_assign:
  "sorted_map m \<Longrightarrow> map_of (map_insert_or_assign m k v) = (map_of m)(k \<mapsto> v)"
  by (induction m) (auto simp: fun_eq_iff)

lemma map_of_erase: "sorted_map m \<Longrightarrow> map_of (map_erase m k) = (map_of m)(k := None)"
proof (induction m)
  case Nil
  then show ?case by (simp add: fun_eq_iff)
next
  case (Cons p m)
  obtain a b where p: "p = (a, b)" by (cases p)
  have sm: "sorted_map m" and lt: "\<forall>x \<in> map_keys m. a < x"
    using Cons.prems by (auto simp: p)
  show ?case
  proof (cases "a < k")
    case True
    then show ?thesis using Cons.IH [OF sm] by (auto simp: p fun_eq_iff)
  next
    case False
    then have "map_of m k = None"
      using lt by (intro map_of_None_less [where a = a]) (auto simp: not_less)
    then show ?thesis using False by (auto simp: p fun_eq_iff not_less)
  qed
qed

lemma map_lower_bound_hit:
  assumes "sorted_map m"
  shows "(case map_lower_bound m k of [] \<Rightarrow> None | (a, b) # _ \<Rightarrow> if k = a then Some b else None)
           = map_of m k"
  using assms
proof (induction m)
  case Nil
  then show ?case by simp
next
  case (Cons p m)
  then show ?case
    by (cases p) (auto simp: map_of_None_less not_less)
qed

text \<open>A sorted association list is determined by its lookups: the representation is canonical.\<close>

lemma sorted_map_eqI:
  assumes "sorted_map m" and "sorted_map m'" and "map_of m = map_of m'"
  shows "m = m'"
proof (rule map_sorted_distinct_set_unique [where f = fst])
  have d: "distinct (map fst m)" "distinct (map fst m')"
    using assms(1,2) by (simp_all add: sorted_map_keys_distinct)
  show eq: "set m = set m'"
  proof (rule set_eqI)
    fix p
    show "p \<in> set m \<longleftrightarrow> p \<in> set m'"
      using d assms(3) by (metis map_of_eq_Some_iff prod.collapse)
  qed
  have "inj_on fst (set m)"
    using d(1) by (simp add: distinct_map)
  then show "inj_on fst (set m \<union> set m')"
    by (simp add: eq)
  show "sorted (map fst m)" "distinct (map fst m)" "sorted (map fst m')" "distinct (map fst m')"
    using assms(1,2) by (simp_all add: sorted_map_def strict_sorted_iff)
qed

text \<open>Writes to different keys commute, as lists.\<close>

lemma map_insert_or_assign_commute:
  assumes "sorted_map m" and "k \<noteq> k'"
  shows "map_insert_or_assign (map_insert_or_assign m k v) k' v'
           = map_insert_or_assign (map_insert_or_assign m k' v') k v"
  using assms
  by (intro sorted_map_eqI)
     (simp_all add: smap_simps map_of_insert_or_assign fun_upd_twist)

section \<open>The contract of an ordered map\<close>

locale ordered_map =
  fixes lookup :: "'m \<Rightarrow> 'k::linorder \<Rightarrow> 'v option"
    and insert_or_assign :: "'m \<Rightarrow> 'k \<Rightarrow> 'v \<Rightarrow> 'm"
    and erase :: "'m \<Rightarrow> 'k \<Rightarrow> 'm"
    and elements :: "'m \<Rightarrow> ('k \<times> 'v) list"
    and invar :: "'m \<Rightarrow> bool"
  assumes lookup_insert: "invar m \<Longrightarrow> lookup (insert_or_assign m k v) = (lookup m)(k \<mapsto> v)"
    and lookup_erase: "invar m \<Longrightarrow> lookup (erase m k) = (lookup m)(k := None)"
    and lookup_elements: "invar m \<Longrightarrow> lookup m = map_of (elements m)"
    and elements_sorted: "invar m \<Longrightarrow> sorted_map (elements m)"
    and invar_insert: "invar m \<Longrightarrow> invar (insert_or_assign m k v)"
    and invar_erase: "invar m \<Longrightarrow> invar (erase m k)"
begin

text \<open>Erasing every key of a list, then writing every entry of a list of entries.\<close>

lemma invar_fold_erase: "invar m \<Longrightarrow> invar (foldl erase m ks)"
  by (induction ks arbitrary: m) (auto simp: invar_erase)

lemma lookup_fold_erase:
  "invar m \<Longrightarrow> lookup (foldl erase m ks) = (lookup m) |` (- set ks)"
proof (induction ks arbitrary: m)
  case Nil
  then show ?case by simp
next
  case (Cons k ks)
  have "lookup (foldl erase (erase m k) ks) = (lookup (erase m k)) |` (- set ks)"
    using Cons by (simp add: invar_erase)
  also have "\<dots> = (lookup m) |` (- set (k # ks))"
    using Cons.prems by (auto simp: lookup_erase restrict_map_def fun_eq_iff)
  finally show ?case by simp
qed

lemma invar_fold_insert: "invar m \<Longrightarrow> invar (foldl (\<lambda>m (k, v). insert_or_assign m k v) m es)"
  by (induction es arbitrary: m) (auto simp: invar_insert)

lemma lookup_fold_insert:
  "invar m \<Longrightarrow> distinct (map fst es) \<Longrightarrow>
     lookup (foldl (\<lambda>m (k, v). insert_or_assign m k v) m es) = lookup m ++ map_of es"
proof (induction es arbitrary: m)
  case Nil
  then show ?case by simp
next
  case (Cons p es)
  obtain k v where p: "p = (k, v)" by (cases p)
  have "map_of es k = None"
    using Cons.prems by (simp add: p map_of_eq_None_iff)
  with Cons show ?case
    by (auto simp: p invar_insert lookup_insert map_add_def fun_eq_iff split: option.splits)
qed

end

lemma map_find_insert_or_assign:
  "sorted_map m \<Longrightarrow> map_find (map_insert_or_assign m k v) = (map_find m)(k \<mapsto> v)"
  by (simp add: fun_eq_iff map_find_map_of map_of_insert_or_assign smap_simps)

lemma map_find_erase: "sorted_map m \<Longrightarrow> map_find (map_erase m k) = (map_find m)(k := None)"
  by (simp add: fun_eq_iff map_find_map_of map_of_erase smap_simps)

lemma map_find_eq_map_of: "sorted_map m \<Longrightarrow> map_find m = map_of m"
  by (simp add: fun_eq_iff map_find_map_of)

interpretation sorted_list: ordered_map map_find map_insert_or_assign map_erase "\<lambda>m. m" sorted_map
  by unfold_locales
     (simp_all only: map_find_eq_map_of map_of_insert_or_assign map_of_erase smap_simps)

end
