(* ===== verification/Module_Cache.thy ===== *)
theory Module_Cache
  imports Ordered_Map
begin

text \<open>
  The cache of parsed modules of the virtual machine (\<open>vm/module_cache.hpp\<close>, \<open>module_cache.cpp\<close>): a list of
  ids in order of use and a map from ids to modules and list positions.  A list iterator is the
  stamp of its node, which splicing and erasing other nodes leaves valid.  The theorems show that
  the cache is a bounded least-recently-used map; the locale \<open>lru_cache\<close> states that contract.
\<close>

section \<open>State and operations\<close>

record 'm module_cache =
  mc_lru_list :: "(nat \<times> bytes) list"
  mc_module_map :: "(bytes, 'm \<times> nat) smap"
  mc_fresh :: nat
  mc_cache_size :: nat

definition default_module_cache_size :: nat where
  "default_module_cache_size = 32"

definition module_cache_new :: "nat \<Rightarrow> 'm module_cache" where
  "module_cache_new n = \<lparr>mc_lru_list = [], mc_module_map = [], mc_fresh = 0, mc_cache_size = n\<rparr>"

text \<open>\<open>list::splice\<close> of one node to the front.\<close>

definition splice_front :: "nat \<Rightarrow> (nat \<times> bytes) list \<Rightarrow> (nat \<times> bytes) list" where
  "splice_front it l = filter (\<lambda>n. fst n = it) l @ filter (\<lambda>n. fst n \<noteq> it) l"

definition get_module :: "bytes \<Rightarrow> ('m module_cache, 'm option) op" where
  "get_module i c =
     (case map_find (mc_module_map c) i of
        None \<Rightarrow> (Returned None, c)
      | Some (m, it) \<Rightarrow>
          if mc_lru_list c = [] then (Threw Invalid_iterator, c)
          else if it \<noteq> fst (hd (mc_lru_list c))
          then (Returned (Some m), c\<lparr>mc_lru_list := splice_front it (mc_lru_list c)\<rparr>)
          else (Returned (Some m), c))"

definition evict_module :: "('m module_cache, unit) op" where
  "evict_module c =
     (if mc_lru_list c = [] then (Threw Out_of_range, c)
      else (Returned (),
            c\<lparr>mc_module_map := map_erase (mc_module_map c) (snd (last (mc_lru_list c))),
              mc_lru_list := butlast (mc_lru_list c)\<rparr>))"

definition put_module :: "bytes \<Rightarrow> 'm \<Rightarrow> ('m module_cache, unit) op" where
  "put_module i m =
     andThen (reads (\<lambda>c. mc_cache_size c \<le> length (mc_lru_list c))) (\<lambda>full.
     andThen (if full then evict_module else returns ()) (\<lambda>_.
     modifies (\<lambda>c.
       c\<lparr>mc_lru_list := (mc_fresh c, i) # mc_lru_list c,
         mc_module_map := map_insert_or_assign (mc_module_map c) i (m, mc_fresh c),
         mc_fresh := Suc (mc_fresh c)\<rparr>)))"

section \<open>Invariant\<close>

definition cache_ok :: "'m module_cache \<Rightarrow> bool" where
  "cache_ok c \<longleftrightarrow>
     sorted_map (mc_module_map c) \<and> 0 < mc_cache_size c \<and> length (mc_lru_list c) \<le> mc_cache_size c
     \<and> distinct (map fst (mc_lru_list c)) \<and> distinct (map snd (mc_lru_list c))
     \<and> (\<forall>n \<in> set (mc_lru_list c). fst n < mc_fresh c)
     \<and> (\<forall>i it. (it, i) \<in> set (mc_lru_list c) \<longleftrightarrow> (\<exists>m. map_of (mc_module_map c) i = Some (m, it)))"

text \<open>What the cache holds, and in which order it was used, most recent first.\<close>

definition cached :: "'m module_cache \<Rightarrow> bytes \<Rightarrow> 'm option" where
  "cached c i = map_option fst (map_of (mc_module_map c) i)"

definition use_order :: "'m module_cache \<Rightarrow> bytes list" where
  "use_order c = map snd (mc_lru_list c)"

lemma cache_ok_new: "0 < n \<Longrightarrow> cache_ok (module_cache_new n)"
  by (simp add: cache_ok_def module_cache_new_def)

lemma set_splice_front [simp]: "set (splice_front it l) = set l"
  by (auto simp: splice_front_def)

lemma length_splice_front [simp]: "length (splice_front it l) = length l"
  by (simp add: splice_front_def sum_length_filter_compl)

lemma distinct_splice_front:
  "distinct (map f l) \<Longrightarrow> distinct (map f (splice_front it l))"
  by (auto simp: splice_front_def distinct_map inj_on_def)

lemma filter_fst_node:
  "distinct (map fst l) \<Longrightarrow> (it, i) \<in> set l \<Longrightarrow> filter (\<lambda>n. fst n = it) l = [(it, i)]"
  by (induction l) (force simp: filter_empty_conv)+

lemma splice_front_node:
  assumes "distinct (map fst l)" and "distinct (map snd l)" and "(it, i) \<in> set l"
  shows "map snd (splice_front it l) = i # filter (\<lambda>j. j \<noteq> i) (map snd l)"
proof -
  have "fst n \<noteq> it \<longleftrightarrow> snd n \<noteq> i" if "n \<in> set l" for n
    using assms that by (cases n) (fastforce simp: distinct_map inj_on_def)
  then have "filter (\<lambda>n. fst n \<noteq> it) l = filter (\<lambda>n. snd n \<noteq> i) l" by (simp cong: filter_cong)
  then show ?thesis
    using filter_fst_node [OF assms(1,3)] by (simp add: splice_front_def filter_map comp_def)
qed

lemma get_module_run:
  assumes "cache_ok c"
  shows "\<exists>c'. get_module i c = (Returned (cached c i), c') \<and> cache_ok c' \<and> cached c' = cached c
       \<and> mc_cache_size c' = mc_cache_size c
       \<and> use_order c' = (if cached c i = None then use_order c else i # filter (\<lambda>j. j \<noteq> i) (use_order c))"
proof (cases "map_of (mc_module_map c) i")
  case None
  then show ?thesis
    using assms by (simp add: get_module_def map_find_map_of cache_ok_def cached_def)
next
  case (Some e)
  obtain m it where e: "e = (m, it)" by (cases e)
  let ?l = "mc_lru_list c"
  have ok: "sorted_map (mc_module_map c)" "distinct (map fst ?l)" "distinct (map snd ?l)" "(it, i) \<in> set ?l"
    using assms Some e by (auto simp: cache_ok_def)
  then have ne: "?l \<noteq> []" by auto
  have find: "map_find (mc_module_map c) i = Some (m, it)" using Some e ok(1) by (simp add: map_find_map_of)
  have order: "map snd (splice_front it ?l) = i # filter (\<lambda>j. j \<noteq> i) (map snd ?l)"
    by (rule splice_front_node [OF ok(2-4)])
  show ?thesis
  proof (cases "it = fst (hd ?l)")
    case True
    then have "hd ?l = (it, i)"
      using ok(2,4) ne by (metis eq_key_imp_eq_value list.set_sel(1) prod.collapse)
    then have "use_order c = i # filter (\<lambda>j. j \<noteq> i) (use_order c)"
      using ok(3) ne by (cases ?l) (auto simp: use_order_def intro!: filter_True [symmetric])
    then show ?thesis
      using True assms find Some e ne by (simp add: get_module_def cached_def)
  next
    case False
    have "cache_ok (c\<lparr>mc_lru_list := splice_front it ?l\<rparr>)"
      using assms by (simp add: cache_ok_def distinct_splice_front)
    then show ?thesis
      using False find Some e ne order by (simp add: get_module_def cached_def use_order_def fun_eq_iff)
  qed
qed

lemma evict_module_run:
  assumes "cache_ok c" and "mc_lru_list c \<noteq> []"
  shows "\<exists>c'. evict_module c = (Returned (), c') \<and> cache_ok c' \<and> cached c' = (cached c)(last (use_order c) := None)
       \<and> mc_cache_size c' = mc_cache_size c \<and> use_order c' = butlast (use_order c)"
proof -
  let ?l = "mc_lru_list c" and ?i = "snd (last (mc_lru_list c))"
  let ?c = "c\<lparr>mc_module_map := map_erase (mc_module_map c) ?i, mc_lru_list := butlast ?l\<rparr>"
  obtain l it j where l: "?l = l @ [(it, j)]" using assms(2) by (metis append_butlast_last_id prod.collapse)
  have i: "?i = last (use_order c)" using assms(2) by (simp add: use_order_def last_map)
  have j: "?i = j" using l by simp
  have other: "\<forall>n \<in> set l. snd n \<noteq> j" using assms(1) l by (auto simp: cache_ok_def)
  have "(t, k) \<in> set l \<longleftrightarrow> (\<exists>m. ((map_of (mc_module_map c))(j := None)) k = Some (m, t))" for t k
  proof (cases "k = j")
    case True
    then show ?thesis using other by auto
  next
    case False
    then have "(t, k) \<in> set l \<longleftrightarrow> (t, k) \<in> set ?l" using l by simp
    then show ?thesis using False assms(1) by (simp add: cache_ok_def)
  qed
  then have "cache_ok ?c"
    using assms(1) l j by (simp add: cache_ok_def map_of_erase smap_simps)
  moreover have "cached ?c = (cached c)(?i := None)"
    using assms(1) by (auto simp: cached_def cache_ok_def map_of_erase fun_eq_iff)
  ultimately show ?thesis
    using assms(2) i by (simp add: evict_module_def use_order_def map_butlast)
qed

lemma put_module_run:
  assumes "cache_ok c" and "cached c i = None"
  shows "\<exists>c'. put_module i m c = (Returned (), c') \<and> cache_ok c' \<and> mc_cache_size c' = mc_cache_size c
       \<and> (if length (use_order c) < mc_cache_size c
          then use_order c' = i # use_order c \<and> cached c' = (cached c)(i \<mapsto> m)
          else use_order c' = i # butlast (use_order c)
             \<and> cached c' = ((cached c)(last (use_order c) := None))(i \<mapsto> m))"
proof -
  let ?ins = "\<lambda>c. c\<lparr>mc_lru_list := (mc_fresh c, i) # mc_lru_list c,
      mc_module_map := map_insert_or_assign (mc_module_map c) i (m, mc_fresh c), mc_fresh := Suc (mc_fresh c)\<rparr>"
  have ins: "cache_ok (?ins d) \<and> cached (?ins d) = (cached d)(i \<mapsto> m) \<and> use_order (?ins d) = i # use_order d"
    if d: "cache_ok d" "cached d i = None" "length (mc_lru_list d) < mc_cache_size d" for d
  proof -
    have "i \<notin> snd ` set (mc_lru_list d)" "mc_fresh d \<notin> fst ` set (mc_lru_list d)"
      using d by (force simp: cache_ok_def cached_def)+
    then show ?thesis
      using d by (auto simp: cache_ok_def cached_def use_order_def smap_simps map_of_insert_or_assign less_Suc_eq fun_eq_iff)
  qed
  show ?thesis
  proof (cases "length (mc_lru_list c) < mc_cache_size c")
    case True
    then show ?thesis using ins [OF assms True] by (simp add: put_module_def op_defs use_order_def)
  next
    case False
    then have full: "length (mc_lru_list c) = mc_cache_size c" "mc_lru_list c \<noteq> []"
      using assms(1) by (auto simp: cache_ok_def)
    obtain d where d: "evict_module c = (Returned (), d)" "cache_ok d" "cached d = (cached c)(last (use_order c) := None)"
        "mc_cache_size d = mc_cache_size c" "use_order d = butlast (use_order c)"
      using evict_module_run [OF assms(1) full(2)] by blast
    have "length (mc_lru_list d) = length (mc_lru_list c) - 1"
      using arg_cong [OF d(5), of length] by (simp add: use_order_def)
    then have "length (mc_lru_list d) < mc_cache_size d" using d(4) full by (cases "mc_lru_list c") auto
    moreover have "cached d i = None" using d(3) assms(2) by simp
    ultimately show ?thesis
      using ins [OF d(2)] d full by (simp add: put_module_def op_defs use_order_def)
  qed
qed

section \<open>The cache as a partial map\<close>

text \<open>
  What a user of the cache relies on: a hit is the module stored under that id, a module just stored
  is found, and storing one may forget others but never changes them.
\<close>

locale lru_cache =
  fixes get :: "bytes \<Rightarrow> ('c, 'm option) op" and put :: "bytes \<Rightarrow> 'm \<Rightarrow> ('c, unit) op"
    and inv :: "'c \<Rightarrow> bool" and held :: "'c \<Rightarrow> bytes \<Rightarrow> 'm option"
  assumes get_ok: "inv c \<Longrightarrow> \<exists>c'. get i c = (Returned (held c i), c') \<and> inv c' \<and> held c' = held c"
    and put_ok: "inv c \<Longrightarrow> held c i = None \<Longrightarrow>
      \<exists>c'. put i m c = (Returned (), c') \<and> inv c' \<and> held c' i = Some m \<and> (\<forall>j. j \<noteq> i \<longrightarrow> held c' j \<in> {held c j, None})"
begin

text \<open>Looking an id up and storing what is missing keeps every property of the stored modules.\<close>

lemma memo_sound:
  assumes "inv c" and "\<forall>j n. held c j = Some n \<longrightarrow> P j n" and "P i m"
  shows "\<exists>r c'. andThen (get i) (\<lambda>h. case h of Some n \<Rightarrow> returns n | None \<Rightarrow> andThen (put i m) (\<lambda>_. returns m)) c
           = (Returned r, c') \<and> P i r \<and> inv c' \<and> held c' i = Some r \<and> (\<forall>j n. held c' j = Some n \<longrightarrow> P j n)"
proof -
  obtain c' where c: "get i c = (Returned (held c i), c')" "inv c'" "held c' = held c" using get_ok [OF assms(1)] by blast
  show ?thesis
  proof (cases "held c i")
    case None
    then obtain d where d: "put i m c' = (Returned (), d)" "inv d" "held d i = Some m"
        "\<forall>j. j \<noteq> i \<longrightarrow> held d j \<in> {held c' j, None}"
      using put_ok [OF c(2), of i m] c(3) by auto
    have "\<forall>j n. held d j = Some n \<longrightarrow> P j n"
      using d(3,4) c(3) assms(2,3) by (metis insertE option.distinct(1) option.inject singletonD)
    then show ?thesis using None c d assms(3) by (simp add: op_defs)
  next
    case (Some n)
    then show ?thesis using c assms(2) by (simp add: op_defs)
  qed
qed

end

interpretation modules: lru_cache get_module put_module cache_ok cached
proof unfold_locales
  show "\<exists>c'. get_module i c = (Returned (cached c i), c') \<and> cache_ok c' \<and> cached c' = cached c"
    if "cache_ok c" for c :: "'a module_cache" and i
    using get_module_run [OF that] by blast
  show "\<exists>c'. put_module i m c = (Returned (), c') \<and> cache_ok c' \<and> cached c' i = Some m
      \<and> (\<forall>j. j \<noteq> i \<longrightarrow> cached c' j \<in> {cached c j, None})"
    if "cache_ok c" "cached c i = None" for c :: "'a module_cache" and i m
    using put_module_run [OF that, of m] by (auto split: if_splits)
qed

text \<open>
  C33: The module cache is a bounded least-recently-used map: a lookup returns what was stored and moves the
  id to the front of the use order; storing a missing id makes it the most recent one and, when the
  cache is full, forgets exactly the id that was not used for the longest time; the number of
  modules never exceeds the cache size.
\<close>

theorem module_cache_lru:
  assumes "cache_ok c"
  shows "(\<exists>c'. get_module i c = (Returned (cached c i), c') \<and> cache_ok c' \<and> cached c' = cached c
          \<and> use_order c' = (if cached c i = None then use_order c else i # filter (\<lambda>j. j \<noteq> i) (use_order c)))
       \<and> (cached c i = None \<longrightarrow>
          (\<exists>c'. put_module i m c = (Returned (), c') \<and> cache_ok c' \<and> length (use_order c') \<le> mc_cache_size c
             \<and> (if length (use_order c) < mc_cache_size c
                then use_order c' = i # use_order c \<and> cached c' = (cached c)(i \<mapsto> m)
                else use_order c' = i # butlast (use_order c)
                   \<and> cached c' = ((cached c)(last (use_order c) := None))(i \<mapsto> m))))"
proof -
  have "length (use_order c') \<le> mc_cache_size c'" if "cache_ok c'" for c' :: "'a module_cache"
    using that by (simp add: cache_ok_def use_order_def)
  then show ?thesis
    using get_module_run [OF assms, of i] put_module_run [OF assms, of i m] by metis
qed

definition sample_cache :: "nat module_cache" where
  "sample_cache = snd (put_module [2] 20 (snd (put_module [1] 10 (module_cache_new 2))))"

lemma sample_cache_eq:
  "sample_cache = \<lparr>mc_lru_list = [(1, [2]), (0, [1])], mc_module_map = [([1], 10, 0), ([2], 20, 1)], mc_fresh = 2, mc_cache_size = 2\<rparr>"
  by (simp add: sample_cache_def put_module_def op_defs module_cache_new_def)

theorem module_cache_lru_witness:
  "\<exists>c'. put_module [3] 30 sample_cache = (Returned (), c') \<and> use_order c' = [[3], [2]] \<and> cached c' [1] = None"
proof -
  have ok: "cache_ok sample_cache" "cached sample_cache [3] = None" "use_order sample_cache = [[2], [1]]"
    by (auto simp: sample_cache_eq cache_ok_def cached_def use_order_def)
  have "mc_cache_size sample_cache = 2" by (simp add: sample_cache_eq)
  then show ?thesis
    using module_cache_lru [OF ok(1), of "[3]" 30] ok(2,3) by (fastforce simp: fun_upd_apply)
qed

end
