(* ===== verification/Errors.thy ===== *)
theory Errors
  imports Prelude
begin

text \<open>
  Error codes: the enumerations of the controller, the native programs, the virtual machine, WASI and
  the encoders (\<open>error.hpp\<close> and \<open>error.cpp\<close> of each), their integer values and messages, and
  \<open>std::error_code\<close> as a value paired with its category.  A result (\<open>std::expected\<close>) is a sum type
  with the error on the left.
\<close>

section \<open>Enumerations\<close>

datatype (plugins only: code size) controller_errc =
    Controller_ok | Controller_authorization_failure | Controller_invalid_nonce
  | Controller_invalid_signature | Controller_malformed_block
  | Controller_malformed_transaction | Controller_insufficient_resources
  | Controller_unknown_previous_block | Controller_unexpected_height
  | Controller_block_state_error | Controller_state_merkle_mismatch
  | Controller_network_id_mismatch | Controller_timestamp_out_of_bounds
  | Controller_network_bandwidth_limit_exceeded | Controller_compute_bandwidth_limit_exceeded
  | Controller_disk_storage_limit_exceeded | Controller_pre_irreversibility_block
  | Controller_invalid_program | Controller_invalid_event_name | Controller_invalid_account
  | Controller_insufficient_privileges | Controller_unknown_operation
  | Controller_read_only_context | Controller_stack_overflow | Controller_bad_file_descriptor
  | Controller_unexpected_object | Controller_insufficient_space

primrec controller_errc_value :: "controller_errc \<Rightarrow> int" where
  "controller_errc_value Controller_ok = 0"
| "controller_errc_value Controller_authorization_failure = 1"
| "controller_errc_value Controller_invalid_nonce = 2"
| "controller_errc_value Controller_invalid_signature = 3"
| "controller_errc_value Controller_malformed_block = 4"
| "controller_errc_value Controller_malformed_transaction = 5"
| "controller_errc_value Controller_insufficient_resources = 6"
| "controller_errc_value Controller_unknown_previous_block = 7"
| "controller_errc_value Controller_unexpected_height = 8"
| "controller_errc_value Controller_block_state_error = 9"
| "controller_errc_value Controller_state_merkle_mismatch = 10"
| "controller_errc_value Controller_network_id_mismatch = 11"
| "controller_errc_value Controller_timestamp_out_of_bounds = 12"
| "controller_errc_value Controller_network_bandwidth_limit_exceeded = 13"
| "controller_errc_value Controller_compute_bandwidth_limit_exceeded = 14"
| "controller_errc_value Controller_disk_storage_limit_exceeded = 15"
| "controller_errc_value Controller_pre_irreversibility_block = 16"
| "controller_errc_value Controller_invalid_program = 17"
| "controller_errc_value Controller_invalid_event_name = 18"
| "controller_errc_value Controller_invalid_account = 19"
| "controller_errc_value Controller_insufficient_privileges = 20"
| "controller_errc_value Controller_unknown_operation = 21"
| "controller_errc_value Controller_read_only_context = 22"
| "controller_errc_value Controller_stack_overflow = 23"
| "controller_errc_value Controller_bad_file_descriptor = 24"
| "controller_errc_value Controller_unexpected_object = 25"
| "controller_errc_value Controller_insufficient_space = 26"

primrec controller_errc_text :: "controller_errc \<Rightarrow> string" where
  "controller_errc_text Controller_ok = ''ok''"
| "controller_errc_text Controller_authorization_failure = ''authorization failure''"
| "controller_errc_text Controller_invalid_nonce = ''invalid nonce''"
| "controller_errc_text Controller_invalid_signature = ''invalid signature''"
| "controller_errc_text Controller_malformed_block = ''malformed block''"
| "controller_errc_text Controller_malformed_transaction = ''malformed transaction''"
| "controller_errc_text Controller_insufficient_resources = ''insufficient resources''"
| "controller_errc_text Controller_unknown_previous_block = ''unknown previous block''"
| "controller_errc_text Controller_unexpected_height = ''unexpected height''"
| "controller_errc_text Controller_block_state_error = ''block state error''"
| "controller_errc_text Controller_state_merkle_mismatch = ''state merkle mismatch''"
| "controller_errc_text Controller_network_id_mismatch = ''network id mismatch''"
| "controller_errc_text Controller_timestamp_out_of_bounds = ''timestamp out of bounds''"
| "controller_errc_text Controller_network_bandwidth_limit_exceeded = ''network bandwidth limit exceeded''"
| "controller_errc_text Controller_compute_bandwidth_limit_exceeded = ''compute bandwidth limit exceeded''"
| "controller_errc_text Controller_disk_storage_limit_exceeded = ''disk storage limit exceeded''"
| "controller_errc_text Controller_pre_irreversibility_block = ''pre-irreversibility block''"
| "controller_errc_text Controller_invalid_program = ''invalid program''"
| "controller_errc_text Controller_invalid_event_name = ''invalid event name''"
| "controller_errc_text Controller_invalid_account = ''invalid account''"
| "controller_errc_text Controller_insufficient_privileges = ''insufficient privileges''"
| "controller_errc_text Controller_unknown_operation = ''unknown operation''"
| "controller_errc_text Controller_read_only_context = ''read only context''"
| "controller_errc_text Controller_stack_overflow = ''stack overflow''"
| "controller_errc_text Controller_bad_file_descriptor = ''bad file descriptor''"
| "controller_errc_text Controller_unexpected_object = ''unexpected object''"
| "controller_errc_text Controller_insufficient_space = ''insufficient space''"

definition controller_errc_all :: "controller_errc list" where
  "controller_errc_all =
     [Controller_ok, Controller_authorization_failure, Controller_invalid_nonce,
      Controller_invalid_signature, Controller_malformed_block, Controller_malformed_transaction,
      Controller_insufficient_resources, Controller_unknown_previous_block,
      Controller_unexpected_height, Controller_block_state_error, Controller_state_merkle_mismatch,
      Controller_network_id_mismatch, Controller_timestamp_out_of_bounds,
      Controller_network_bandwidth_limit_exceeded, Controller_compute_bandwidth_limit_exceeded,
      Controller_disk_storage_limit_exceeded, Controller_pre_irreversibility_block,
      Controller_invalid_program, Controller_invalid_event_name, Controller_invalid_account,
      Controller_insufficient_privileges, Controller_unknown_operation,
      Controller_read_only_context, Controller_stack_overflow, Controller_bad_file_descriptor,
      Controller_unexpected_object, Controller_insufficient_space]"

datatype program_errc =
    Program_ok | Program_unauthorized | Program_invalid_instruction
  | Program_insufficient_balance | Program_insufficient_supply | Program_invalid_argument
  | Program_unexpected_object | Program_overflow

primrec program_errc_value :: "program_errc \<Rightarrow> int" where
  "program_errc_value Program_ok = 0"
| "program_errc_value Program_unauthorized = 1"
| "program_errc_value Program_invalid_instruction = 2"
| "program_errc_value Program_insufficient_balance = 3"
| "program_errc_value Program_insufficient_supply = 4"
| "program_errc_value Program_invalid_argument = 5"
| "program_errc_value Program_unexpected_object = 6"
| "program_errc_value Program_overflow = 7"

primrec program_errc_text :: "program_errc \<Rightarrow> string" where
  "program_errc_text Program_ok = ''ok''"
| "program_errc_text Program_unauthorized = ''unauthorized''"
| "program_errc_text Program_invalid_instruction = ''invalid instruction''"
| "program_errc_text Program_insufficient_balance = ''insufficient balance''"
| "program_errc_text Program_insufficient_supply = ''insufficient supply''"
| "program_errc_text Program_invalid_argument = ''invalid_argument''"
| "program_errc_text Program_unexpected_object = ''unexpected object''"
| "program_errc_text Program_overflow = ''overflow''"

definition program_errc_all :: "program_errc list" where
  "program_errc_all =
     [Program_ok, Program_unauthorized, Program_invalid_instruction, Program_insufficient_balance,
      Program_insufficient_supply, Program_invalid_argument, Program_unexpected_object,
      Program_overflow]"

datatype virtual_machine_errc =
    Vm_ok | Vm_trapped | Vm_invalid_arguments | Vm_execution_environment_failure
  | Vm_function_lookup_failure | Vm_load_failure | Vm_instantiate_failure | Vm_invalid_pointer
  | Vm_invalid_module | Vm_invalid_context | Vm_entry_point_not_found

primrec virtual_machine_errc_value :: "virtual_machine_errc \<Rightarrow> int" where
  "virtual_machine_errc_value Vm_ok = 0"
| "virtual_machine_errc_value Vm_trapped = 1"
| "virtual_machine_errc_value Vm_invalid_arguments = 2"
| "virtual_machine_errc_value Vm_execution_environment_failure = 3"
| "virtual_machine_errc_value Vm_function_lookup_failure = 4"
| "virtual_machine_errc_value Vm_load_failure = 5"
| "virtual_machine_errc_value Vm_instantiate_failure = 6"
| "virtual_machine_errc_value Vm_invalid_pointer = 7"
| "virtual_machine_errc_value Vm_invalid_module = 8"
| "virtual_machine_errc_value Vm_invalid_context = 9"
| "virtual_machine_errc_value Vm_entry_point_not_found = 10"

primrec virtual_machine_errc_text :: "virtual_machine_errc \<Rightarrow> string" where
  "virtual_machine_errc_text Vm_ok = ''ok''"
| "virtual_machine_errc_text Vm_trapped = ''trapped''"
| "virtual_machine_errc_text Vm_invalid_arguments = ''invalid arguments''"
| "virtual_machine_errc_text Vm_execution_environment_failure = ''execution environment failure''"
| "virtual_machine_errc_text Vm_function_lookup_failure = ''function lookup failure''"
| "virtual_machine_errc_text Vm_load_failure = ''load failure''"
| "virtual_machine_errc_text Vm_instantiate_failure = ''instantiate failure''"
| "virtual_machine_errc_text Vm_invalid_pointer = ''invalid pointer''"
| "virtual_machine_errc_text Vm_invalid_module = ''invalid module''"
| "virtual_machine_errc_text Vm_invalid_context = ''invalid context''"
| "virtual_machine_errc_text Vm_entry_point_not_found = ''entry point not found''"

definition virtual_machine_errc_all :: "virtual_machine_errc list" where
  "virtual_machine_errc_all =
     [Vm_ok, Vm_trapped, Vm_invalid_arguments, Vm_execution_environment_failure,
      Vm_function_lookup_failure, Vm_load_failure, Vm_instantiate_failure, Vm_invalid_pointer,
      Vm_invalid_module, Vm_invalid_context, Vm_entry_point_not_found]"

datatype (plugins only: code size) wasi_errc =
    Wasi_success | Wasi_e2big | Wasi_acces | Wasi_addrinuse | Wasi_addrnotavail
  | Wasi_afnosupport | Wasi_again | Wasi_already | Wasi_badf | Wasi_badmsg | Wasi_busy
  | Wasi_canceled | Wasi_child | Wasi_connaborted | Wasi_connrefused | Wasi_connreset
  | Wasi_deadlk | Wasi_destaddrreq | Wasi_dom | Wasi_dquot | Wasi_exist | Wasi_fault
  | Wasi_fbig | Wasi_hostunreach | Wasi_idrm | Wasi_ilseq | Wasi_inprogress | Wasi_intr
  | Wasi_inval | Wasi_io | Wasi_isconn | Wasi_isdir | Wasi_loop | Wasi_mfile | Wasi_mlink
  | Wasi_msgsize | Wasi_multihop | Wasi_nametoolong | Wasi_netdown | Wasi_netreset
  | Wasi_netunreach | Wasi_nfile | Wasi_nobufs | Wasi_nodev | Wasi_noent | Wasi_noexec
  | Wasi_nolck | Wasi_nolink | Wasi_nomem | Wasi_nomsg | Wasi_noprotoopt | Wasi_nospc
  | Wasi_nosys | Wasi_notconn | Wasi_notdir | Wasi_notempty | Wasi_notrecoverable
  | Wasi_notsock | Wasi_notsup | Wasi_notty | Wasi_nxio | Wasi_overflow | Wasi_ownerdead
  | Wasi_perm | Wasi_pipe | Wasi_proto | Wasi_protonosupport | Wasi_prototype | Wasi_range
  | Wasi_rofs | Wasi_spipe | Wasi_srch | Wasi_stale | Wasi_timedout | Wasi_txtbsy | Wasi_xdev
  | Wasi_notcapable

primrec wasi_errc_value :: "wasi_errc \<Rightarrow> int" where
  "wasi_errc_value Wasi_success = 0"
| "wasi_errc_value Wasi_e2big = 1"
| "wasi_errc_value Wasi_acces = 2"
| "wasi_errc_value Wasi_addrinuse = 3"
| "wasi_errc_value Wasi_addrnotavail = 4"
| "wasi_errc_value Wasi_afnosupport = 5"
| "wasi_errc_value Wasi_again = 6"
| "wasi_errc_value Wasi_already = 7"
| "wasi_errc_value Wasi_badf = 8"
| "wasi_errc_value Wasi_badmsg = 9"
| "wasi_errc_value Wasi_busy = 10"
| "wasi_errc_value Wasi_canceled = 11"
| "wasi_errc_value Wasi_child = 12"
| "wasi_errc_value Wasi_connaborted = 13"
| "wasi_errc_value Wasi_connrefused = 14"
| "wasi_errc_value Wasi_connreset = 15"
| "wasi_errc_value Wasi_deadlk = 16"
| "wasi_errc_value Wasi_destaddrreq = 17"
| "wasi_errc_value Wasi_dom = 18"
| "wasi_errc_value Wasi_dquot = 19"
| "wasi_errc_value Wasi_exist = 20"
| "wasi_errc_value Wasi_fault = 21"
| "wasi_errc_value Wasi_fbig = 22"
| "wasi_errc_value Wasi_hostunreach = 23"
| "wasi_errc_value Wasi_idrm = 24"
| "wasi_errc_value Wasi_ilseq = 25"
| "wasi_errc_value Wasi_inprogress = 26"
| "wasi_errc_value Wasi_intr = 27"
| "wasi_errc_value Wasi_inval = 28"
| "wasi_errc_value Wasi_io = 29"
| "wasi_errc_value Wasi_isconn = 30"
| "wasi_errc_value Wasi_isdir = 31"
| "wasi_errc_value Wasi_loop = 32"
| "wasi_errc_value Wasi_mfile = 33"
| "wasi_errc_value Wasi_mlink = 34"
| "wasi_errc_value Wasi_msgsize = 35"
| "wasi_errc_value Wasi_multihop = 36"
| "wasi_errc_value Wasi_nametoolong = 37"
| "wasi_errc_value Wasi_netdown = 38"
| "wasi_errc_value Wasi_netreset = 39"
| "wasi_errc_value Wasi_netunreach = 40"
| "wasi_errc_value Wasi_nfile = 41"
| "wasi_errc_value Wasi_nobufs = 42"
| "wasi_errc_value Wasi_nodev = 43"
| "wasi_errc_value Wasi_noent = 44"
| "wasi_errc_value Wasi_noexec = 45"
| "wasi_errc_value Wasi_nolck = 46"
| "wasi_errc_value Wasi_nolink = 47"
| "wasi_errc_value Wasi_nomem = 48"
| "wasi_errc_value Wasi_nomsg = 49"
| "wasi_errc_value Wasi_noprotoopt = 50"
| "wasi_errc_value Wasi_nospc = 51"
| "wasi_errc_value Wasi_nosys = 52"
| "wasi_errc_value Wasi_notconn = 53"
| "wasi_errc_value Wasi_notdir = 54"
| "wasi_errc_value Wasi_notempty = 55"
| "wasi_errc_value Wasi_notrecoverable = 56"
| "wasi_errc_value Wasi_notsock = 57"
| "wasi_errc_value Wasi_notsup = 58"
| "wasi_errc_value Wasi_notty = 59"
| "wasi_errc_value Wasi_nxio = 60"
| "wasi_errc_value Wasi_overflow = 61"
| "wasi_errc_value Wasi_ownerdead = 62"
| "wasi_errc_value Wasi_perm = 63"
| "wasi_errc_value Wasi_pipe = 64"
| "wasi_errc_value Wasi_proto = 65"
| "wasi_errc_value Wasi_protonosupport = 66"
| "wasi_errc_value Wasi_prototype = 67"
| "wasi_errc_value Wasi_range = 68"
| "wasi_errc_value Wasi_rofs = 69"
| "wasi_errc_value Wasi_spipe = 70"
| "wasi_errc_value Wasi_srch = 71"
| "wasi_errc_value Wasi_stale = 72"
| "wasi_errc_value Wasi_timedout = 73"
| "wasi_errc_value Wasi_txtbsy = 74"
| "wasi_errc_value Wasi_xdev = 75"
| "wasi_errc_value Wasi_notcapable = 76"

primrec wasi_errc_text :: "wasi_errc \<Rightarrow> string" where
  "wasi_errc_text Wasi_success = ''success''"
| "wasi_errc_text Wasi_e2big = ''e2big''"
| "wasi_errc_text Wasi_acces = ''acces''"
| "wasi_errc_text Wasi_addrinuse = ''addrinuse''"
| "wasi_errc_text Wasi_addrnotavail = ''addrnotavail''"
| "wasi_errc_text Wasi_afnosupport = ''afnosupport''"
| "wasi_errc_text Wasi_again = ''again''"
| "wasi_errc_text Wasi_already = ''already''"
| "wasi_errc_text Wasi_badf = ''badf''"
| "wasi_errc_text Wasi_badmsg = ''badmsg''"
| "wasi_errc_text Wasi_busy = ''busy''"
| "wasi_errc_text Wasi_canceled = ''canceled''"
| "wasi_errc_text Wasi_child = ''child''"
| "wasi_errc_text Wasi_connaborted = ''connaborted''"
| "wasi_errc_text Wasi_connrefused = ''connrefused''"
| "wasi_errc_text Wasi_connreset = ''connreset''"
| "wasi_errc_text Wasi_deadlk = ''deadlk''"
| "wasi_errc_text Wasi_destaddrreq = ''destaddrreq''"
| "wasi_errc_text Wasi_dom = ''dom''"
| "wasi_errc_text Wasi_dquot = ''dquot''"
| "wasi_errc_text Wasi_exist = ''exist''"
| "wasi_errc_text Wasi_fault = ''fault''"
| "wasi_errc_text Wasi_fbig = ''fbig''"
| "wasi_errc_text Wasi_hostunreach = ''hostunreach''"
| "wasi_errc_text Wasi_idrm = ''idrm''"
| "wasi_errc_text Wasi_ilseq = ''ilseq''"
| "wasi_errc_text Wasi_inprogress = ''inprogress''"
| "wasi_errc_text Wasi_intr = ''intr''"
| "wasi_errc_text Wasi_inval = ''inval''"
| "wasi_errc_text Wasi_io = ''io''"
| "wasi_errc_text Wasi_isconn = ''isconn''"
| "wasi_errc_text Wasi_isdir = ''isdir''"
| "wasi_errc_text Wasi_loop = ''loop''"
| "wasi_errc_text Wasi_mfile = ''mfile''"
| "wasi_errc_text Wasi_mlink = ''mlink''"
| "wasi_errc_text Wasi_msgsize = ''msgsize''"
| "wasi_errc_text Wasi_multihop = ''multihop''"
| "wasi_errc_text Wasi_nametoolong = ''nametoolong''"
| "wasi_errc_text Wasi_netdown = ''netdown''"
| "wasi_errc_text Wasi_netreset = ''netreset''"
| "wasi_errc_text Wasi_netunreach = ''netunreach''"
| "wasi_errc_text Wasi_nfile = ''nfile''"
| "wasi_errc_text Wasi_nobufs = ''nobufs''"
| "wasi_errc_text Wasi_nodev = ''nodev''"
| "wasi_errc_text Wasi_noent = ''noent''"
| "wasi_errc_text Wasi_noexec = ''noexec''"
| "wasi_errc_text Wasi_nolck = ''nolck''"
| "wasi_errc_text Wasi_nolink = ''nolink''"
| "wasi_errc_text Wasi_nomem = ''nomem''"
| "wasi_errc_text Wasi_nomsg = ''nomsg''"
| "wasi_errc_text Wasi_noprotoopt = ''noprotoopt''"
| "wasi_errc_text Wasi_nospc = ''nospc''"
| "wasi_errc_text Wasi_nosys = ''nosys''"
| "wasi_errc_text Wasi_notconn = ''notconn''"
| "wasi_errc_text Wasi_notdir = ''notdir''"
| "wasi_errc_text Wasi_notempty = ''notempty''"
| "wasi_errc_text Wasi_notrecoverable = ''notrecoverable''"
| "wasi_errc_text Wasi_notsock = ''notsock''"
| "wasi_errc_text Wasi_notsup = ''notsup''"
| "wasi_errc_text Wasi_notty = ''notty''"
| "wasi_errc_text Wasi_nxio = ''nxio''"
| "wasi_errc_text Wasi_overflow = ''overflow''"
| "wasi_errc_text Wasi_ownerdead = ''ownerdead''"
| "wasi_errc_text Wasi_perm = ''perm''"
| "wasi_errc_text Wasi_pipe = ''pipe''"
| "wasi_errc_text Wasi_proto = ''proto''"
| "wasi_errc_text Wasi_protonosupport = ''protonosupport''"
| "wasi_errc_text Wasi_prototype = ''prototype''"
| "wasi_errc_text Wasi_range = ''range''"
| "wasi_errc_text Wasi_rofs = ''rofs''"
| "wasi_errc_text Wasi_spipe = ''spipe''"
| "wasi_errc_text Wasi_srch = ''srch''"
| "wasi_errc_text Wasi_stale = ''stale''"
| "wasi_errc_text Wasi_timedout = ''timedout''"
| "wasi_errc_text Wasi_txtbsy = ''txtbsy''"
| "wasi_errc_text Wasi_xdev = ''xdev''"
| "wasi_errc_text Wasi_notcapable = ''notcapable''"

definition wasi_errc_all :: "wasi_errc list" where
  "wasi_errc_all =
     [Wasi_success, Wasi_e2big, Wasi_acces, Wasi_addrinuse, Wasi_addrnotavail, Wasi_afnosupport,
      Wasi_again, Wasi_already, Wasi_badf, Wasi_badmsg, Wasi_busy, Wasi_canceled, Wasi_child,
      Wasi_connaborted, Wasi_connrefused, Wasi_connreset, Wasi_deadlk, Wasi_destaddrreq, Wasi_dom,
      Wasi_dquot, Wasi_exist, Wasi_fault, Wasi_fbig, Wasi_hostunreach, Wasi_idrm, Wasi_ilseq,
      Wasi_inprogress, Wasi_intr, Wasi_inval, Wasi_io, Wasi_isconn, Wasi_isdir, Wasi_loop,
      Wasi_mfile, Wasi_mlink, Wasi_msgsize, Wasi_multihop, Wasi_nametoolong, Wasi_netdown,
      Wasi_netreset, Wasi_netunreach, Wasi_nfile, Wasi_nobufs, Wasi_nodev, Wasi_noent, Wasi_noexec,
      Wasi_nolck, Wasi_nolink, Wasi_nomem, Wasi_nomsg, Wasi_noprotoopt, Wasi_nospc, Wasi_nosys,
      Wasi_notconn, Wasi_notdir, Wasi_notempty, Wasi_notrecoverable, Wasi_notsock, Wasi_notsup,
      Wasi_notty, Wasi_nxio, Wasi_overflow, Wasi_ownerdead, Wasi_perm, Wasi_pipe, Wasi_proto,
      Wasi_protonosupport, Wasi_prototype, Wasi_range, Wasi_rofs, Wasi_spipe, Wasi_srch,
      Wasi_stale, Wasi_timedout, Wasi_txtbsy, Wasi_xdev, Wasi_notcapable]"

datatype encode_errc =
    Encode_ok | Encode_invalid_character | Encode_invalid_length

primrec encode_errc_value :: "encode_errc \<Rightarrow> int" where
  "encode_errc_value Encode_ok = 0"
| "encode_errc_value Encode_invalid_character = 1"
| "encode_errc_value Encode_invalid_length = 2"

primrec encode_errc_text :: "encode_errc \<Rightarrow> string" where
  "encode_errc_text Encode_ok = ''ok''"
| "encode_errc_text Encode_invalid_character = ''invalid character''"
| "encode_errc_text Encode_invalid_length = ''invalid length''"

definition encode_errc_all :: "encode_errc list" where
  "encode_errc_all =
     [Encode_ok, Encode_invalid_character, Encode_invalid_length]"

section \<open>Categories and error codes\<close>

datatype error_category =
    Controller_category | Program_category | Virtual_machine_category | Vm_program_category
  | Wasi_category | Encode_category

fun category_name :: "error_category \<Rightarrow> string" where
  "category_name Controller_category = ''controller''"
| "category_name Program_category = ''program''"
| "category_name Virtual_machine_category = ''virtual machine''"
| "category_name Vm_program_category = ''virtual machine program''"
| "category_name Wasi_category = ''wasi''"
| "category_name Encode_category = ''encode''"

record error_code =
  ec_value :: int
  ec_category :: error_category

text \<open>\<open>explicit operator bool\<close>: an error code is an error when its value is not zero.\<close>

definition is_error :: "error_code \<Rightarrow> bool" where
  "is_error e \<longleftrightarrow> ec_value e \<noteq> 0"

type_synonym 'a result = "error_code + 'a"

definition controller_error :: "controller_errc \<Rightarrow> error_code" where
  "controller_error e = \<lparr>ec_value = controller_errc_value e, ec_category = Controller_category\<rparr>"

definition program_error :: "program_errc \<Rightarrow> error_code" where
  "program_error e = \<lparr>ec_value = program_errc_value e, ec_category = Program_category\<rparr>"

definition vm_error :: "virtual_machine_errc \<Rightarrow> error_code" where
  "vm_error e = \<lparr>ec_value = virtual_machine_errc_value e, ec_category = Virtual_machine_category\<rparr>"

definition vm_program_error :: "int \<Rightarrow> error_code" where
  "vm_program_error code = \<lparr>ec_value = code, ec_category = Vm_program_category\<rparr>"

definition wasi_error :: "wasi_errc \<Rightarrow> error_code" where
  "wasi_error e = \<lparr>ec_value = wasi_errc_value e, ec_category = Wasi_category\<rparr>"

definition encode_error :: "encode_errc \<Rightarrow> error_code" where
  "encode_error e = \<lparr>ec_value = encode_errc_value e, ec_category = Encode_category\<rparr>"

section \<open>Messages\<close>

text \<open>
  The \<open>switch\<close> over the condition: the text of the enumerator with that value; any other value falls
  out of the switch into \<open>std::unreachable()\<close>.
\<close>

definition switch_message :: "('e \<Rightarrow> int) \<Rightarrow> ('e \<Rightarrow> string) \<Rightarrow> 'e list \<Rightarrow> int \<Rightarrow> string outcome" where
  "switch_message val txt es condition =
     (case find (\<lambda>e. val e = condition) es of Some e \<Rightarrow> Returned (txt e) | None \<Rightarrow> Threw Unreachable)"

text \<open>\<open>std::to_string\<close> on an \<open>int\<close>.\<close>

fun digits :: "nat \<Rightarrow> string" where
  "digits n = (if n < 10 then [char_of (48 + n)] else digits (n div 10) @ [char_of (48 + n mod 10)])"

declare digits.simps [simp del]

definition to_string :: "int \<Rightarrow> string" where
  "to_string i = (if i < 0 then CHR ''-'' # digits (nat (- i)) else digits (nat i))"

fun message :: "error_code \<Rightarrow> string outcome" where
  "message e =
     (case ec_category e of
        Controller_category \<Rightarrow> switch_message controller_errc_value controller_errc_text controller_errc_all (ec_value e)
      | Program_category \<Rightarrow> switch_message program_errc_value program_errc_text program_errc_all (ec_value e)
      | Virtual_machine_category \<Rightarrow>
          switch_message virtual_machine_errc_value virtual_machine_errc_text virtual_machine_errc_all (ec_value e)
      | Vm_program_category \<Rightarrow> Returned (''program exited with code '' @ to_string (ec_value e))
      | Wasi_category \<Rightarrow> switch_message wasi_errc_value wasi_errc_text wasi_errc_all (ec_value e)
      | Encode_category \<Rightarrow> switch_message encode_errc_value encode_errc_text encode_errc_all (ec_value e))"

lemma switch_message_value:
  assumes "map val es = map int [0..<n]" and "e \<in> set es"
  shows "switch_message val txt es (val e) = Returned (txt e)"
proof -
  have "distinct (map val es)" by (simp add: assms(1) distinct_map)
  then have inj: "inj_on val (set es)" by (simp add: distinct_map)
  have "find (\<lambda>x. val x = val e) es = Some e"
  proof (cases "find (\<lambda>x. val x = val e) es")
    case None
    then show ?thesis using assms(2) by (auto simp: find_None_iff)
  next
    case (Some x)
    then have "x \<in> set es" "val x = val e" by (auto simp: find_Some_iff)
    then show ?thesis using Some inj assms(2) by (auto dest: inj_onD)
  qed
  then show ?thesis by (simp add: switch_message_def)
qed

lemma switch_message_unreachable:
  assumes "map val es = map int [0..<n]"
  shows "switch_message val txt es v = Threw Unreachable \<longleftrightarrow> v < 0 \<or> int n \<le> v"
proof -
  have "set (map val es) = {0..<int n}"
    unfolding assms by (simp add: image_int_atLeastLessThan)
  then have "(\<exists>e \<in> set es. val e = v) \<longleftrightarrow> 0 \<le> v \<and> v < int n"
    unfolding set_map by (metis (no_types, lifting) atLeastLessThan_iff image_iff)
  then have "find (\<lambda>e. val e = v) es = None \<longleftrightarrow> v < 0 \<or> int n \<le> v"
    by (auto simp: find_None_iff)
  then show ?thesis
    by (cases "find (\<lambda>e. val e = v) es") (auto simp: switch_message_def)
qed

lemma errc_values:
  "map controller_errc_value controller_errc_all = map int [0..<27]"
  "map program_errc_value program_errc_all = map int [0..<8]"
  "map virtual_machine_errc_value virtual_machine_errc_all = map int [0..<11]"
  "map wasi_errc_value wasi_errc_all = map int [0..<77]"
  "map encode_errc_value encode_errc_all = map int [0..<3]"
  by (simp_all add: controller_errc_all_def program_errc_all_def virtual_machine_errc_all_def wasi_errc_all_def
      encode_errc_all_def upt_rec)

lemma errc_all:
  "c \<in> set controller_errc_all" "p \<in> set program_errc_all" "m \<in> set virtual_machine_errc_all"
  "w \<in> set wasi_errc_all" "n \<in> set encode_errc_all"
proof -
  show "c \<in> set controller_errc_all" by (cases c) (simp_all add: controller_errc_all_def)
  show "p \<in> set program_errc_all" by (cases p) (simp_all add: program_errc_all_def)
  show "m \<in> set virtual_machine_errc_all" by (cases m) (simp_all add: virtual_machine_errc_all_def)
  show "w \<in> set wasi_errc_all" by (cases w) (simp_all add: wasi_errc_all_def)
  show "n \<in> set encode_errc_all" by (cases n) (simp_all add: encode_errc_all_def)
qed

text \<open>
  Every error code made from an enumerator has a message, the text of that enumerator, in all five
  categories, and only the success enumerators test as \<open>false\<close>; the message of a code whose value is
  no enumerator of its category runs into \<open>std::unreachable()\<close>.
\<close>

theorem error_messages:
  "message (controller_error c) = Returned (controller_errc_text c)
   \<and> message (program_error p) = Returned (program_errc_text p)
   \<and> message (vm_error m) = Returned (virtual_machine_errc_text m)
   \<and> message (wasi_error w) = Returned (wasi_errc_text w)
   \<and> message (encode_error n) = Returned (encode_errc_text n)
   \<and> (is_error (controller_error c) \<longleftrightarrow> c \<noteq> Controller_ok)
   \<and> (is_error (wasi_error w) \<longleftrightarrow> w \<noteq> Wasi_success)
   \<and> (message \<lparr>ec_value = v, ec_category = Controller_category\<rparr> = Threw Unreachable \<longleftrightarrow> v < 0 \<or> 27 \<le> v)
   \<and> (message \<lparr>ec_value = v, ec_category = Wasi_category\<rparr> = Threw Unreachable \<longleftrightarrow> v < 0 \<or> 77 \<le> v)"
proof -
  have "is_error (controller_error c) \<longleftrightarrow> c \<noteq> Controller_ok"
    by (cases c) (simp_all add: is_error_def controller_error_def)
  moreover have "is_error (wasi_error w) \<longleftrightarrow> w \<noteq> Wasi_success"
    by (cases w) (simp_all add: is_error_def wasi_error_def)
  ultimately show ?thesis
    by (simp add: controller_error_def program_error_def vm_error_def wasi_error_def encode_error_def errc_all
        switch_message_value [OF errc_values(1)] switch_message_value [OF errc_values(2)]
        switch_message_value [OF errc_values(3)] switch_message_value [OF errc_values(4)]
        switch_message_value [OF errc_values(5)] switch_message_unreachable [OF errc_values(1)]
        switch_message_unreachable [OF errc_values(4)])
qed

end
