(* ===== verification/Virtual_Machine.thy ===== *)
theory Virtual_Machine
  imports Module_Cache Errors
begin

text \<open>
  The virtual machine (\<open>vm/host_api.hpp\<close>, \<open>vm/program_context.cpp\<close>, \<open>vm/virtual_machine.cpp\<close>): the handlers
  through which a WebAssembly program calls the node, the metering around them, and the run of a
  program.  The WebAssembly interpreter (fizzy) is a parameter, a machine that runs until it finishes or
  calls an imported function and that is resumed with the answer; the node behind the handlers is
  the parameter \<open>host_api\<close>.  The theorems show that metered execution ends and that whatever
  relation all host calls respect is respected by a whole run.
\<close>

section \<open>Linear memory\<close>

text \<open>
  Accesses of native code to the memory of a program, at an offset.  Outside of it they are undefined.
\<close>

definition load_bytes :: "nat \<Rightarrow> nat \<Rightarrow> bytes \<Rightarrow> bytes outcome" where
  "load_bytes a n mem = (if a + n \<le> length mem then Returned (take n (drop a mem)) else Threw Out_of_range)"

definition store_bytes :: "nat \<Rightarrow> bytes \<Rightarrow> bytes \<Rightarrow> bytes outcome" where
  "store_bytes a bs mem =
     (if a + length bs \<le> length mem then Returned (take a mem @ bs @ drop (a + length bs) mem)
      else Threw Out_of_range)"

definition load_u32 :: "nat \<Rightarrow> bytes \<Rightarrow> u32 outcome" where
  "load_u32 a mem = bindO (load_bytes a 4 mem) (\<lambda>bs. Returned (u32_of_bytes bs))"

lemma load_store:
  "store_bytes a bs mem = Returned mem' \<Longrightarrow>
     load_bytes a (length bs) mem' = Returned bs \<and> length mem' = length mem"
  by (auto simp: store_bytes_def load_bytes_def split: if_splits)

section \<open>Host interface\<close>

text \<open>
  The virtual functions of \<open>vm::host_api\<close> a program can reach, with their arguments; pointers are offsets
  into the memory of the program, an \<open>io_vector\<close> is an offset and a length.
\<close>

datatype host_call =
    Host_args_get nat nat
  | Host_args_sizes_get nat nat
  | Host_fd_seek u32 u64 nat nat
  | Host_fd_write u32 "(nat \<times> nat) list" nat
  | Host_fd_read u32 "(nat \<times> nat) list" nat
  | Host_fd_close u32
  | Host_fd_fdstat_get u32 nat
  | Host_proc_exit int
  | Host_get_caller nat nat
  | Host_get_object u32 nat u32 nat nat
  | Host_put_object u32 nat u32 nat u32
  | Host_check_authority nat u32 nat

text \<open>
  The interface: a call works on the memory of the program and the state of the node and returns its error
  code, together with the number stored through \<open>argc\<close> for \<open>wasi_args_get\<close>.
\<close>

record 's host_api =
  ha_call :: "host_call \<Rightarrow> (bytes \<times> 's, error_code \<times> u32) op"
  ha_get_meter_ticks :: "'s \<Rightarrow> u64 outcome"
  ha_use_meter_ticks :: "u64 \<Rightarrow> ('s, error_code) op"
  ha_halts :: "error_code \<Rightarrow> bool"

section \<open>The interpreter\<close>

text \<open>The imports of \<open>instantiate_module\<close>, in its order.\<close>

datatype host_function =
    Fn_args_get | Fn_args_sizes_get | Fn_fd_seek | Fn_fd_write | Fn_fd_read | Fn_fd_close | Fn_fd_fdstat_get
  | Fn_proc_exit | Fn_get_caller | Fn_get_object | Fn_put_object | Fn_check_authority

datatype fizzy_result = Fizzy_trapped | Fizzy_value u32 | Fizzy_void

text \<open>
  An execution finishes, trapped or not, with the ticks it has left, or calls an imported function with
  arguments, the memory (\<open>None\<close> for a module without one), the ticks left, and the suspended machine.
  Instantiating a module may fail, and runs its start section, which may call an import first.
\<close>

datatype 'k fizzy_event =
    Fizzy_finished bool u64
  | Fizzy_calls host_function "u64 list" "bytes option" u64 'k

datatype 'k fizzy_instance = Instantiate_failed | Instantiated 'k | Start_calls host_function | Start_diverges

record ('m, 'k) fizzy =
  fizzy_parse :: "bytes \<Rightarrow> 'm option"
  fizzy_resolve_instantiate :: "'m \<Rightarrow> 'k fizzy_instance"
  fizzy_find_exported_function_index :: "'m \<Rightarrow> string \<Rightarrow> u32 option"
  fizzy_execute :: "'k \<Rightarrow> u32 \<Rightarrow> nat \<Rightarrow> u64 \<Rightarrow> 'k fizzy_event"
  fizzy_resume :: "'k \<Rightarrow> bytes option \<Rightarrow> fizzy_result \<Rightarrow> u64 \<Rightarrow> 'k fizzy_event"

section \<open>Program context\<close>

text \<open>
  \<open>pc_context_ticks\<close> is the counter inside the execution context of the interpreter.  A default-constructed
  error code is \<open>virtual_machine_errc::ok\<close>: both are only tested for their value 0.
\<close>

record 's program_context =
  pc_memory :: "bytes option"
  pc_host :: 's
  pc_ticks :: u64
  pc_context_ticks :: u64
  pc_error_code :: error_code

definition max_call_depth :: nat where
  "max_call_depth = 1024"

definition program_context_new :: "'s \<Rightarrow> 's program_context" where
  "program_context_new s =
     \<lparr>pc_memory = None, pc_host = s, pc_ticks = 0, pc_context_ticks = 0, pc_error_code = vm_error Vm_ok\<rparr>"

definition native_pointer :: "u32 \<Rightarrow> u32 \<Rightarrow> 's program_context \<Rightarrow> nat option" where
  "native_pointer ptr sz c =
     (case pc_memory c of
        None \<Rightarrow> None
      | Some mem \<Rightarrow> if length mem < unat ptr + unat sz then None else Some (unat ptr))"

text \<open>\<open>sizeof( std::uint32_t ) * 2 * iovs_len\<close> is converted to 32 bits by the call.\<close>

fun iovs_loop :: "nat \<Rightarrow> nat \<Rightarrow> nat \<Rightarrow> 's program_context \<Rightarrow> (nat \<times> nat) list result outcome" where
  "iovs_loop base i 0 c = Returned (Inr [])"
| "iovs_loop base i (Suc n) c =
     bindO (load_u32 (base + 8 * i) (case pc_memory c of None \<Rightarrow> [] | Some mem \<Rightarrow> mem)) (\<lambda>iov_buf.
     bindO (load_u32 (base + 8 * i + 4) (case pc_memory c of None \<Rightarrow> [] | Some mem \<Rightarrow> mem)) (\<lambda>iov_len.
     case native_pointer iov_buf iov_len c of
       None \<Rightarrow> Returned (Inl (vm_error Vm_invalid_pointer))
     | Some a \<Rightarrow>
         bindO (iovs_loop base (Suc i) n c) (\<lambda>r.
         case r of Inl e \<Rightarrow> Returned (Inl e) | Inr iovs \<Rightarrow> Returned (Inr ((a, unat iov_len) # iovs)))))"

definition make_iovs :: "u32 \<Rightarrow> u32 \<Rightarrow> 's program_context \<Rightarrow> (nat \<times> nat) list result outcome" where
  "make_iovs iovs iovs_len c =
     (case native_pointer iovs (8 * iovs_len) c of
        None \<Rightarrow> Returned (Inl (vm_error Vm_invalid_pointer))
      | Some base \<Rightarrow> iovs_loop base 0 (unat iovs_len) c)"

definition on_host :: "('s, 'a) op \<Rightarrow> ('s program_context, 'a) op" where
  "on_host m c = (case m (pc_host c) of (r, s) \<Rightarrow> (r, c\<lparr>pc_host := s\<rparr>))"

definition on_guest :: "(bytes \<times> 's, 'a) op \<Rightarrow> ('s program_context, 'a) op" where
  "on_guest m c =
     (case m (case pc_memory c of None \<Rightarrow> [] | Some mem \<Rightarrow> mem, pc_host c) of
        (r, mem, s) \<Rightarrow> (r, c\<lparr>pc_memory := map_option (\<lambda>_. mem) (pc_memory c), pc_host := s\<rparr>))"

definition with_meter_ticks ::
  "'s host_api \<Rightarrow> ('s program_context, error_code \<times> u32) op \<Rightarrow> ('s program_context, error_code \<times> u32) op" where
  "with_meter_ticks api body =
     andThen (reads (\<lambda>c. pc_ticks c - pc_context_ticks c)) (\<lambda>used.
     andThen (on_host (ha_use_meter_ticks api used)) (\<lambda>error.
     if is_error error then returns (error, 0)
     else
       andThen body (\<lambda>code.
       andThen (readsE (\<lambda>c. ha_get_meter_ticks api (pc_host c))) (\<lambda>ticks.
       andThen (modifies (\<lambda>c. c\<lparr>pc_ticks := ticks, pc_context_ticks := ticks\<rparr>)) (\<lambda>_.
       returns code)))))"

text \<open>The end of every handler: a halting error traps, any other code is the value of the call.\<close>

definition finish_call :: "'s host_api \<Rightarrow> error_code \<Rightarrow> ('s program_context, fizzy_result) op" where
  "finish_call api code =
     (if ha_halts api code
      then andThen (modifies (\<lambda>c. c\<lparr>pc_error_code := code\<rparr>)) (\<lambda>_. returns Fizzy_trapped)
      else returns (Fizzy_value (word_of_int (ec_value code))))"

definition metered_call :: "'s host_api \<Rightarrow> host_call \<Rightarrow> ('s program_context, error_code \<times> u32) op" where
  "metered_call api call = with_meter_ticks api (on_guest (ha_call api call))"

text \<open>A checked pointer argument; a null pointer returns the initial, trapped result.\<close>

definition with_pointer ::
  "u32 \<Rightarrow> u32 \<Rightarrow> (nat \<Rightarrow> ('s program_context, fizzy_result) op) \<Rightarrow> ('s program_context, fizzy_result) op" where
  "with_pointer ptr sz body =
     andThen (reads (native_pointer ptr sz)) (\<lambda>a. case a of None \<Rightarrow> returns Fizzy_trapped | Some p \<Rightarrow> body p)"

definition arg_i32 :: "u64 list \<Rightarrow> nat \<Rightarrow> u32" where
  "arg_i32 args i = ucast (args ! i)"

definition load_pointer_u32 :: "nat \<Rightarrow> 's program_context \<Rightarrow> u32 outcome" where
  "load_pointer_u32 a c = load_u32 a (case pc_memory c of None \<Rightarrow> [] | Some mem \<Rightarrow> mem)"

fun relocate_args :: "nat \<Rightarrow> u32 \<Rightarrow> nat list \<Rightarrow> bytes \<Rightarrow> bytes outcome" where
  "relocate_args argv argv_offset [] mem = Returned mem"
| "relocate_args argv argv_offset (i # is) mem =
     bindO (load_u32 (argv + 4 * i) mem) (\<lambda>x.
     bindO (store_bytes (argv + 4 * i) (u32_bytes (x + argv_offset)) mem) (relocate_args argv argv_offset is))"

definition wasi_args_get :: "'s host_api \<Rightarrow> u64 list \<Rightarrow> ('s program_context, fizzy_result) op" where
  "wasi_args_get api args =
     with_pointer (arg_i32 args 0) 4 (\<lambda>argv.
     with_pointer (arg_i32 args 1) 1 (\<lambda>argv_buf.
     andThen (metered_call api (Host_args_get argv argv_buf)) (\<lambda>(code, argc).
     if ha_halts api code then finish_call api code
     else
       andThen (on_guest (\<lambda>(mem, s).
         case relocate_args argv (arg_i32 args 1) [0..<unat argc] mem of
           Returned mem' \<Rightarrow> (Returned (), mem', s) | Threw e \<Rightarrow> (Threw e, mem, s))) (\<lambda>_.
       finish_call api code))))"

definition wasi_args_sizes_get :: "'s host_api \<Rightarrow> u64 list \<Rightarrow> ('s program_context, fizzy_result) op" where
  "wasi_args_sizes_get api args =
     with_pointer (arg_i32 args 0) 4 (\<lambda>argc.
     with_pointer (arg_i32 args 1) 4 (\<lambda>argv_buf_size.
     andThen (metered_call api (Host_args_sizes_get argc argv_buf_size)) (\<lambda>(code, _). finish_call api code)))"

definition wasi_fd_seek :: "'s host_api \<Rightarrow> u64 list \<Rightarrow> ('s program_context, fizzy_result) op" where
  "wasi_fd_seek api args =
     with_pointer (arg_i32 args 2) 1 (\<lambda>whence.
     with_pointer (arg_i32 args 3) 1 (\<lambda>new_offset.
     andThen (metered_call api (Host_fd_seek (arg_i32 args 0) (args ! 1) whence new_offset)) (\<lambda>(code, _).
     finish_call api code)))"

definition wasi_fd_write :: "'s host_api \<Rightarrow> u64 list \<Rightarrow> ('s program_context, fizzy_result) op" where
  "wasi_fd_write api args =
     andThen (readsE (make_iovs (arg_i32 args 1) (arg_i32 args 2))) (\<lambda>r.
     case r of
       Inl e \<Rightarrow> returns Fizzy_trapped
     | Inr iovs \<Rightarrow>
         with_pointer (arg_i32 args 3) 4 (\<lambda>nwritten.
         andThen (metered_call api (Host_fd_write (arg_i32 args 0) iovs nwritten)) (\<lambda>(code, _).
         finish_call api code)))"

definition wasi_fd_read :: "'s host_api \<Rightarrow> u64 list \<Rightarrow> ('s program_context, fizzy_result) op" where
  "wasi_fd_read api args =
     andThen (readsE (make_iovs (arg_i32 args 1) (arg_i32 args 2))) (\<lambda>r.
     case r of
       Inl e \<Rightarrow> returns Fizzy_trapped
     | Inr iovs \<Rightarrow>
         with_pointer (arg_i32 args 3) 4 (\<lambda>nwritten.
         andThen (metered_call api (Host_fd_read (arg_i32 args 0) iovs nwritten)) (\<lambda>(code, _).
         finish_call api code)))"

definition wasi_fd_close :: "'s host_api \<Rightarrow> u64 list \<Rightarrow> ('s program_context, fizzy_result) op" where
  "wasi_fd_close api args =
     andThen (metered_call api (Host_fd_close (arg_i32 args 0))) (\<lambda>(code, _). finish_call api code)"

definition wasi_fd_fdstat_get :: "'s host_api \<Rightarrow> u64 list \<Rightarrow> ('s program_context, fizzy_result) op" where
  "wasi_fd_fdstat_get api args =
     with_pointer (arg_i32 args 1) 4 (\<lambda>buf_ptr.
     andThen (metered_call api (Host_fd_fdstat_get (arg_i32 args 0) buf_ptr)) (\<lambda>(code, _).
     finish_call api code))"

text \<open>
  \<open>with_meter_ticks\<close> of a \<open>void\<close> lambda returns \<open>virtual_machine_errc::ok\<close>; the host call has no code of its own.
\<close>

definition wasi_proc_exit :: "'s host_api \<Rightarrow> u64 list \<Rightarrow> ('s program_context, fizzy_result) op" where
  "wasi_proc_exit api args =
     andThen (with_meter_ticks api
       (andThen (on_guest (ha_call api (Host_proc_exit (sint (arg_i32 args 0))))) (\<lambda>_. returns (vm_error Vm_ok, 0)))) (\<lambda>(code, _).
     if ha_halts api code then finish_call api code
     else
       andThen (modifies (\<lambda>c. c\<lparr>pc_error_code := vm_program_error (sint (arg_i32 args 0))\<rparr>)) (\<lambda>_.
       returns Fizzy_void))"

definition respublica_get_caller :: "'s host_api \<Rightarrow> u64 list \<Rightarrow> ('s program_context, fizzy_result) op" where
  "respublica_get_caller api args =
     with_pointer (arg_i32 args 1) 4 (\<lambda>ret_len.
     andThen (readsE (load_pointer_u32 ret_len)) (\<lambda>len.
     with_pointer (arg_i32 args 0) len (\<lambda>ret_ptr.
     andThen (metered_call api (Host_get_caller ret_ptr ret_len)) (\<lambda>(code, _). finish_call api code))))"

definition respublica_get_object :: "'s host_api \<Rightarrow> u64 list \<Rightarrow> ('s program_context, fizzy_result) op" where
  "respublica_get_object api args =
     with_pointer (arg_i32 args 1) (arg_i32 args 2) (\<lambda>key_ptr.
     with_pointer (arg_i32 args 4) 4 (\<lambda>value_len.
     andThen (readsE (load_pointer_u32 value_len)) (\<lambda>len.
     with_pointer (arg_i32 args 3) len (\<lambda>value_ptr.
     andThen (metered_call api (Host_get_object (arg_i32 args 0) key_ptr (arg_i32 args 2) value_ptr value_len)) (\<lambda>(code, _).
     finish_call api code)))))"

definition respublica_put_object :: "'s host_api \<Rightarrow> u64 list \<Rightarrow> ('s program_context, fizzy_result) op" where
  "respublica_put_object api args =
     with_pointer (arg_i32 args 1) (arg_i32 args 2) (\<lambda>key_ptr.
     with_pointer (arg_i32 args 3) (arg_i32 args 4) (\<lambda>value_ptr.
     andThen (metered_call api (Host_put_object (arg_i32 args 0) key_ptr (arg_i32 args 2) value_ptr (arg_i32 args 4))) (\<lambda>(code, _).
     finish_call api code)))"

definition respublica_check_authority :: "'s host_api \<Rightarrow> u64 list \<Rightarrow> ('s program_context, fizzy_result) op" where
  "respublica_check_authority api args =
     with_pointer (arg_i32 args 0) (arg_i32 args 1) (\<lambda>account_ptr.
     with_pointer (arg_i32 args 2) 1 (\<lambda>val.
     andThen (metered_call api (Host_check_authority account_ptr (arg_i32 args 1) val)) (\<lambda>(code, _).
     finish_call api code)))"

section \<open>Running a program\<close>

text \<open>The table \<open>host_funcs\<close> of \<open>instantiate_module\<close>; the C callbacks are \<open>noexcept\<close>.\<close>

fun host_funcs :: "'s host_api \<Rightarrow> host_function \<Rightarrow> u64 list \<Rightarrow> ('s program_context, fizzy_result) op" where
  "host_funcs api Fn_args_get args = wasi_args_get api args"
| "host_funcs api Fn_args_sizes_get args = wasi_args_sizes_get api args"
| "host_funcs api Fn_fd_seek args = wasi_fd_seek api args"
| "host_funcs api Fn_fd_write args = wasi_fd_write api args"
| "host_funcs api Fn_fd_read args = wasi_fd_read api args"
| "host_funcs api Fn_fd_close args = wasi_fd_close api args"
| "host_funcs api Fn_fd_fdstat_get args = wasi_fd_fdstat_get api args"
| "host_funcs api Fn_proc_exit args = wasi_proc_exit api args"
| "host_funcs api Fn_get_caller args = respublica_get_caller api args"
| "host_funcs api Fn_get_object args = respublica_get_object api args"
| "host_funcs api Fn_put_object args = respublica_put_object api args"
| "host_funcs api Fn_check_authority args = respublica_check_authority api args"

text \<open>
  \<open>fizzy_execute\<close> with the callbacks in place: the machine runs, calls, and is resumed with the memory and the
  ticks the callback left.  The fuel bounds the number of calls.
\<close>

fun fizzy_loop :: "('m, 'k) fizzy \<Rightarrow> 's host_api \<Rightarrow> nat \<Rightarrow> 'k fizzy_event \<Rightarrow> ('s program_context, bool) op" where
  "fizzy_loop fz api fuel (Fizzy_finished trapped ticks) =
     andThen (modifies (\<lambda>c. c\<lparr>pc_context_ticks := ticks\<rparr>)) (\<lambda>_. returns trapped)"
| "fizzy_loop fz api 0 (Fizzy_calls f args mem ticks k) = throws Diverges"
| "fizzy_loop fz api (Suc fuel) (Fizzy_calls f args mem ticks k) =
     andThen (modifies (\<lambda>c. c\<lparr>pc_memory := mem, pc_context_ticks := ticks\<rparr>)) (\<lambda>_.
     andThen (host_funcs api f args) (\<lambda>r.
     andThen (reads (\<lambda>c. fizzy_resume fz k (pc_memory c) r (pc_context_ticks c))) (fizzy_loop fz api fuel)))"

text \<open>
  A start section runs inside \<open>fizzy_resolve_instantiate\<close>, when neither \<open>_instance\<close> nor \<open>_context\<close> is set: a callback
  with pointer arguments finds no memory and traps, the two without dereference the null context.
\<close>

definition instantiate_module :: "('m, 'k) fizzy \<Rightarrow> 'm \<Rightarrow> 'k result outcome" where
  "instantiate_module fz m =
     (case fizzy_resolve_instantiate fz m of
        Instantiate_failed \<Rightarrow> Returned (Inl (vm_error Vm_instantiate_failure))
      | Instantiated k \<Rightarrow> Returned (Inr k)
      | Start_calls f \<Rightarrow>
          if f = Fn_fd_close \<or> f = Fn_proc_exit then Threw Null_dereference
          else Returned (Inl (vm_error Vm_instantiate_failure))
      | Start_diverges \<Rightarrow> Threw Diverges)"

definition execute_start :: "('m, 'k) fizzy \<Rightarrow> 's host_api \<Rightarrow> 'k \<Rightarrow> u32 \<Rightarrow> u64 \<Rightarrow> ('s program_context, error_code) op" where
  "execute_start fz api k start_func_idx ticks =
     andThen (fizzy_loop fz api (unat ticks) (fizzy_execute fz k start_func_idx max_call_depth ticks)) (\<lambda>trapped.
     andThen (reads (\<lambda>c. pc_ticks c - pc_context_ticks c)) (\<lambda>used.
     andThen (on_host (ha_use_meter_ticks api used)) (\<lambda>error.
     if is_error error then returns error
     else
       andThen (reads pc_error_code) (\<lambda>code.
       if trapped \<and> \<not> is_error code then returns (vm_error Vm_trapped) else returns code))))"

definition program_context_start :: "('m, 'k) fizzy \<Rightarrow> 's host_api \<Rightarrow> 'm \<Rightarrow> ('s program_context, error_code) op" where
  "program_context_start fz api m =
     andThen (readsE (\<lambda>_. instantiate_module fz m)) (\<lambda>r.
     case r of
       Inl e \<Rightarrow> returns e
     | Inr k \<Rightarrow>
         andThen (readsE (\<lambda>c. ha_get_meter_ticks api (pc_host c))) (\<lambda>ticks.
         andThen (modifies (\<lambda>c. c\<lparr>pc_ticks := ticks, pc_context_ticks := ticks\<rparr>)) (\<lambda>_.
         case fizzy_find_exported_function_index fz m ''_start'' of
           None \<Rightarrow> returns (vm_error Vm_entry_point_not_found)
         | Some start_func_idx \<Rightarrow> execute_start fz api k start_func_idx ticks)))"

definition parse_bytecode :: "('m, 'k) fizzy \<Rightarrow> bytes \<Rightarrow> 'm result" where
  "parse_bytecode fz bytecode =
     (if length bytecode = 0 then Inl (vm_error Vm_invalid_module)
      else case fizzy_parse fz bytecode of None \<Rightarrow> Inl (vm_error Vm_invalid_module) | Some m \<Rightarrow> Inr m)"

definition make_module :: "('m, 'k) fizzy \<Rightarrow> bytes \<Rightarrow> bytes \<Rightarrow> ('m module_cache, 'm result) op" where
  "make_module fz bytecode i =
     (if i = [] then throws Assertion_failed
      else
        andThen (get_module i) (\<lambda>h.
        case h of
          Some m \<Rightarrow> returns (Inr m)
        | None \<Rightarrow>
            (case parse_bytecode fz bytecode of
               Inl e \<Rightarrow> returns (Inl e)
             | Inr m \<Rightarrow> andThen (put_module i m) (\<lambda>_. returns (Inr m)))))"

text \<open>
  The machine is shared by all contexts; \<open>getc\<close> and \<open>setc\<close> reach its cache inside the state of the node.
\<close>

definition on_cache ::
  "('s \<Rightarrow> 'm module_cache) \<Rightarrow> ('m module_cache \<Rightarrow> 's \<Rightarrow> 's) \<Rightarrow> ('m module_cache, 'a) op \<Rightarrow> ('s, 'a) op" where
  "on_cache getc setc m s = (case m (getc s) of (r, c) \<Rightarrow> (r, setc c s))"

definition run_context :: "('s program_context, 'a) op \<Rightarrow> ('s, 'a) op" where
  "run_context m s = (case m (program_context_new s) of (r, c) \<Rightarrow> (r, pc_host c))"

definition virtual_machine_run ::
  "('m, 'k) fizzy \<Rightarrow> ('s \<Rightarrow> 'm module_cache) \<Rightarrow> ('m module_cache \<Rightarrow> 's \<Rightarrow> 's) \<Rightarrow> 's host_api \<Rightarrow> bytes \<Rightarrow> bytes
    \<Rightarrow> ('s, error_code) op" where
  "virtual_machine_run fz getc setc api bytecode i =
     noexcept
       (andThen (on_cache getc setc (make_module fz bytecode i)) (\<lambda>r.
        case r of Inl e \<Rightarrow> returns e | Inr m \<Rightarrow> run_context (program_context_start fz api m)))"

text \<open>
  The signatures under which the functions are imported: module and function name, the types of the arguments
  and of the result.
\<close>

datatype fizzy_value_type = Fizzy_i32 | Fizzy_i64 | Fizzy_no_value

fun host_imports :: "host_function \<Rightarrow> string \<times> string \<times> fizzy_value_type list \<times> fizzy_value_type" where
  "host_imports Fn_args_get = (''wasi_snapshot_preview1'', ''args_get'', [Fizzy_i32, Fizzy_i32], Fizzy_i32)"
| "host_imports Fn_args_sizes_get = (''wasi_snapshot_preview1'', ''args_sizes_get'', [Fizzy_i32, Fizzy_i32], Fizzy_i32)"
| "host_imports Fn_fd_seek =
     (''wasi_snapshot_preview1'', ''fd_seek'', [Fizzy_i32, Fizzy_i64, Fizzy_i32, Fizzy_i32], Fizzy_i32)"
| "host_imports Fn_fd_write =
     (''wasi_snapshot_preview1'', ''fd_write'', [Fizzy_i32, Fizzy_i32, Fizzy_i32, Fizzy_i32], Fizzy_i32)"
| "host_imports Fn_fd_read =
     (''wasi_snapshot_preview1'', ''fd_read'', [Fizzy_i32, Fizzy_i32, Fizzy_i32, Fizzy_i32], Fizzy_i32)"
| "host_imports Fn_fd_close = (''wasi_snapshot_preview1'', ''fd_close'', [Fizzy_i32], Fizzy_i32)"
| "host_imports Fn_fd_fdstat_get = (''wasi_snapshot_preview1'', ''fd_fdstat_get'', [Fizzy_i32, Fizzy_i32], Fizzy_i32)"
| "host_imports Fn_proc_exit = (''wasi_snapshot_preview1'', ''proc_exit'', [Fizzy_i32], Fizzy_no_value)"
| "host_imports Fn_get_caller = (''env'', ''respublica_get_caller'', [Fizzy_i32, Fizzy_i32], Fizzy_i32)"
| "host_imports Fn_get_object =
     (''env'', ''respublica_get_object'', [Fizzy_i32, Fizzy_i32, Fizzy_i32, Fizzy_i32, Fizzy_i32], Fizzy_i32)"
| "host_imports Fn_put_object =
     (''env'', ''respublica_put_object'', [Fizzy_i32, Fizzy_i32, Fizzy_i32, Fizzy_i32, Fizzy_i32], Fizzy_i32)"
| "host_imports Fn_check_authority = (''env'', ''respublica_check_authority'', [Fizzy_i32, Fizzy_i32, Fizzy_i32], Fizzy_i32)"

section \<open>What a run keeps\<close>

text \<open>
  Documented behaviour of the interpreter.  A metered execution pays for every instruction, the call of an import
  included, and traps when it cannot: at a call the ticks left are not negative and less than those it was
  started or resumed with.
\<close>

definition fizzy_metered :: "('m, 'k) fizzy \<Rightarrow> bool" where
  "fizzy_metered fz \<longleftrightarrow>
     (\<forall>k i n t f args mem t' k'. fizzy_execute fz k i n t = Fizzy_calls f args mem t' k' \<longrightarrow> 0 \<le> sint t' \<and> sint t' < sint t)
     \<and> (\<forall>k mem0 r t f args mem t' k'. fizzy_resume fz k mem0 r t = Fizzy_calls f args mem t' k' \<longrightarrow> 0 \<le> sint t' \<and> sint t' < sint t)"

text \<open>No module has a start section that runs forever.\<close>

definition fizzy_starts :: "('m, 'k) fizzy \<Rightarrow> bool" where
  "fizzy_starts fz \<longleftrightarrow> (\<forall>m. fizzy_resolve_instantiate fz m \<noteq> Start_diverges)"

lemma uint_eq_sint:
  fixes t :: u64
  assumes "0 \<le> sint t"
  shows "uint t = sint t"
proof -
  have "sint t < 2 ^ 63" using signed_take_bit_int_less_exp [of 63 "uint t"] by (simp add: sint_uint)
  then have "sint t < 2 ^ 64" by simp
  then show ?thesis using assms by (simp add: uint_sint take_bit_int_eq_self)
qed

lemma sint_less_unat: "0 \<le> sint t' \<Longrightarrow> sint t' < sint t \<Longrightarrow> t' < (t :: u64)"
  using uint_eq_sint [of t] uint_eq_sint [of t'] by (simp add: word_less_def)

text \<open>
  What the machine relies on in the node behind it: the ticks left are known, charging them takes them or is
  refused, no call gives ticks back or runs forever, and all of them keep the invariant and the
  relation.
\<close>

locale metered_host =
  fixes api :: "'s host_api" and P :: "'s \<Rightarrow> bool" and R :: "'s \<Rightarrow> 's \<Rightarrow> bool" and ticks :: "'s \<Rightarrow> u64"
  assumes R_preorder: "preorder_rel R"
    and R_ticks: "P s \<Longrightarrow> R s s' \<Longrightarrow> ticks s' \<le> ticks s"
    and get_ticks: "P s \<Longrightarrow> ha_get_meter_ticks api s = Returned (ticks s)"
    and use_upholds: "upholds P R (ha_use_meter_ticks api n)"
    and use_ticks: "P s \<Longrightarrow> ha_use_meter_ticks api n s = (Returned e, s') \<Longrightarrow> \<not> is_error e \<Longrightarrow>
        n \<le> ticks s \<and> ticks s' \<le> ticks s - n"
    and call_upholds: "upholds (\<lambda>(mem, s). P s) (\<lambda>(mem, s) (mem', s'). R s s') (ha_call api call)"
begin

text \<open>
  The invariant of a running program: the node has at most the ticks the program context recorded, and the
  interpreter has at most as many.
\<close>

definition ctx_inv :: "'s program_context \<Rightarrow> bool" where
  "ctx_inv c \<longleftrightarrow> P (pc_host c) \<and> ticks (pc_host c) \<le> pc_ticks c \<and> pc_context_ticks c \<le> pc_ticks c"

definition ctx_rel :: "'s program_context \<Rightarrow> 's program_context \<Rightarrow> bool" where
  "ctx_rel c c' \<longleftrightarrow> R (pc_host c) (pc_host c') \<and> pc_context_ticks c' \<le> pc_context_ticks c"

lemma ctx_rel_preorder: "preorder_rel ctx_rel"
  using R_preorder unfolding preorder_rel_def ctx_rel_def by (blast intro: order_trans)

lemmas ctx_simple = upholds_simple [OF ctx_rel_preorder, where P = ctx_inv]
lemmas ctx_andThen = upholds_andThen [OF ctx_rel_preorder, where P = ctx_inv]

lemma ctx_guest:
  assumes "upholds (\<lambda>(mem, s). P s) (\<lambda>(mem, s) (mem', s'). R s s') m"
  shows "upholds ctx_inv ctx_rel (on_guest m)"
proof (rule upholdsI)
  fix c x c'
  assume c: "ctx_inv c" and run: "on_guest m c = (Returned x, c')"
  let ?mem = "case pc_memory c of None \<Rightarrow> [] | Some mem \<Rightarrow> mem"
  obtain mem s where ms: "m (?mem, pc_host c) = (Returned x, mem, s)"
    and c': "c' = c\<lparr>pc_memory := map_option (\<lambda>_. mem) (pc_memory c), pc_host := s\<rparr>"
    using run by (auto simp: on_guest_def split: prod.splits)
  have "P s \<and> R (pc_host c) s"
    using upholdsD(1) [OF assms, of "(?mem, pc_host c)"] ms c by (simp add: ctx_inv_def)
  then show "ctx_inv c' \<and> ctx_rel c c'"
    using c c' R_ticks by (auto simp: ctx_inv_def ctx_rel_def intro: order_trans)
next
  fix c c'
  assume "ctx_inv c"
  then show "on_guest m c \<noteq> (Threw Diverges, c')"
    using upholdsD(2) [OF assms, of "(case pc_memory c of None \<Rightarrow> [] | Some mem \<Rightarrow> mem, pc_host c)"]
    by (auto simp: on_guest_def ctx_inv_def split: prod.splits)
qed

lemma ctx_host:
  assumes "upholds P R m"
  shows "upholds ctx_inv ctx_rel (on_host m)"
proof (rule upholdsI)
  fix c x c'
  assume c: "ctx_inv c" and run: "on_host m c = (Returned x, c')"
  then obtain s where "m (pc_host c) = (Returned x, s)" "c' = c\<lparr>pc_host := s\<rparr>"
    by (auto simp: on_host_def split: prod.splits)
  then show "ctx_inv c' \<and> ctx_rel c c'"
    using upholdsD(1) [OF assms, of "pc_host c"] c R_ticks by (auto simp: ctx_inv_def ctx_rel_def intro: order_trans)
next
  fix c c'
  assume "ctx_inv c"
  then show "on_host m c \<noteq> (Threw Diverges, c')"
    using upholdsD(2) [OF assms, of "pc_host c"] by (auto simp: on_host_def ctx_inv_def split: prod.splits)
qed

text \<open>Charging what the program used leaves the node at most the ticks the interpreter has left.\<close>

lemma ctx_charge:
  assumes "ctx_inv c" and "on_host (ha_use_meter_ticks api (pc_ticks c - pc_context_ticks c)) c = (Returned e, c')"
    and "\<not> is_error e"
  shows "ticks (pc_host c') \<le> pc_context_ticks c"
proof -
  let ?n = "pc_ticks c - pc_context_ticks c"
  obtain s where s: "ha_use_meter_ticks api ?n (pc_host c) = (Returned e, s)" "c' = c\<lparr>pc_host := s\<rparr>"
    using assms(2) by (auto simp: on_host_def split: prod.splits)
  have inv: "P (pc_host c)" "ticks (pc_host c) \<le> pc_ticks c" "pc_context_ticks c \<le> pc_ticks c"
    using assms(1) by (simp_all add: ctx_inv_def)
  have "?n \<le> ticks (pc_host c)" "ticks s \<le> ticks (pc_host c) - ?n"
    using use_ticks [OF inv(1) s(1) assms(3)] by simp_all
  then have "unat (ticks s) \<le> unat (ticks (pc_host c)) - unat ?n"
    by (simp add: word_le_nat_alt unat_sub)
  moreover have "unat ?n = unat (pc_ticks c) - unat (pc_context_ticks c)"
    using inv(3) by (rule unat_sub)
  ultimately show ?thesis
    using inv(2,3) s(2) by (simp add: word_le_nat_alt)
qed

lemma ctx_with_meter_ticks:
  assumes body: "upholds ctx_inv ctx_rel body"
  shows "upholds ctx_inv ctx_rel (with_meter_ticks api body)"
proof (rule upholdsI)
  fix c x c'
  assume c: "ctx_inv c" and run: "with_meter_ticks api body c = (Returned x, c')"
  let ?use = "on_host (ha_use_meter_ticks api (pc_ticks c - pc_context_ticks c))"
  obtain e c1 where c1: "?use c = (Returned e, c1)"
    using run by (cases "?use c") (auto simp: with_meter_ticks_def op_defs split: outcome.splits)
  note use = upholdsD(1) [OF ctx_host [OF use_upholds] c c1]
  show "ctx_inv c' \<and> ctx_rel c c'"
  proof (cases "is_error e")
    case True
    then show ?thesis using run c1 use by (simp add: with_meter_ticks_def op_defs)
  next
    case False
    then obtain c2 where c2: "body c1 = (Returned x, c2)"
      and c': "ha_get_meter_ticks api (pc_host c2) = Returned (ticks (pc_host c2)) \<Longrightarrow>
        c' = c2\<lparr>pc_ticks := ticks (pc_host c2), pc_context_ticks := ticks (pc_host c2)\<rparr>"
      using run c1 by (cases "body c1") (auto simp: with_meter_ticks_def op_defs split: outcome.splits)
    note c2' = upholdsD(1) [OF body _ c2]
    have "ticks (pc_host c2) \<le> pc_context_ticks c"
      using ctx_charge [OF c c1 False] c2' use R_ticks by (auto simp: ctx_rel_def ctx_inv_def intro: order_trans)
    moreover have "ctx_rel c c2" using c2' use preorder_relD(2) [OF ctx_rel_preorder] by blast
    then have "R (pc_host c) (pc_host c2)" "P (pc_host c2)"
      using c2' use by (simp_all add: ctx_inv_def ctx_rel_def)
    ultimately show ?thesis
      using c' get_ticks by (simp add: ctx_inv_def ctx_rel_def)
  qed
next
  fix c c'
  assume c: "ctx_inv c"
  have use: "upholds ctx_inv ctx_rel (on_host (ha_use_meter_ticks api n))" for n by (rule ctx_host [OF use_upholds])
  show "with_meter_ticks api body c \<noteq> (Threw Diverges, c')"
  proof
    assume run: "with_meter_ticks api body c = (Threw Diverges, c')"
    let ?n = "pc_ticks c - pc_context_ticks c"
    obtain e c1 where c1: "on_host (ha_use_meter_ticks api ?n) c = (Returned e, c1)" "\<not> is_error e"
      using run upholdsD(2) [OF use c] by (cases "on_host (ha_use_meter_ticks api ?n) c")
        (auto simp: with_meter_ticks_def op_defs split: outcome.splits if_splits)
    have inv1: "ctx_inv c1" using upholdsD(1) [OF use c c1(1)] by simp
    obtain x c2 where c2: "body c1 = (Returned x, c2)"
      using run c1 upholdsD(2) [OF body inv1] by (cases "body c1")
        (auto simp: with_meter_ticks_def op_defs split: outcome.splits)
    have "P (pc_host c2)" using upholdsD(1) [OF body inv1 c2] by (simp add: ctx_inv_def)
    then show False
      using run c1 c2 get_ticks by (simp add: with_meter_ticks_def op_defs)
  qed
qed

end

text \<open>Memory accesses never run forever.\<close>

lemma load_terminates [simp]: "load_bytes a n mem \<noteq> Threw Diverges" "load_u32 a mem \<noteq> Threw Diverges"
    "store_bytes a bs mem \<noteq> Threw Diverges"
  by (auto simp: load_bytes_def load_u32_def store_bytes_def)

lemma bindO_Threw_iff:
  "bindO m f = Threw e \<longleftrightarrow> m = Threw e \<or> (\<exists>x. m = Returned x \<and> f x = Threw e)"
  by (cases m) auto

lemma iovs_loop_terminates: "iovs_loop base i n c \<noteq> Threw Diverges"
  by (induction base i n c rule: iovs_loop.induct) (auto simp: bindO_Threw_iff split: option.splits sum.splits)

lemma make_iovs_terminates [simp]: "make_iovs iovs iovs_len c \<noteq> Threw Diverges"
  using iovs_loop_terminates by (auto simp: make_iovs_def split: option.split)

lemma relocate_args_terminates: "relocate_args argv off is mem \<noteq> Threw Diverges"
  by (induction argv off "is" mem rule: relocate_args.induct) (auto simp: bindO_Threw_iff)

context metered_host
begin

lemma ctx_finish_call: "upholds ctx_inv ctx_rel (finish_call api code)"
  by (rule upholdsI)
    (auto simp: finish_call_def op_defs ctx_inv_def ctx_rel_def preorder_relD(1) [OF R_preorder] split: if_splits)

lemma ctx_metered_call: "upholds ctx_inv ctx_rel (metered_call api call)"
  unfolding metered_call_def by (rule ctx_with_meter_ticks [OF ctx_guest [OF call_upholds]])

lemma ctx_with_pointer:
  "(\<And>p. upholds ctx_inv ctx_rel (body p)) \<Longrightarrow> upholds ctx_inv ctx_rel (with_pointer ptr sz body)"
  unfolding with_pointer_def by (rule ctx_andThen) (auto intro: ctx_simple split: option.split)

lemma ctx_call_finish:
  "upholds ctx_inv ctx_rel (andThen (metered_call api call) (\<lambda>(code, _). finish_call api code))"
  by (rule ctx_andThen [OF ctx_metered_call]) (simp add: ctx_finish_call split: prod.split)

lemma ctx_load_pointer:
  "(\<And>n. upholds ctx_inv ctx_rel (body n)) \<Longrightarrow> upholds ctx_inv ctx_rel (andThen (readsE (load_pointer_u32 a)) body)"
  by (rule ctx_andThen) (auto intro!: ctx_simple simp: load_pointer_u32_def)

lemma ctx_with_iovs:
  "(\<And>iovs. upholds ctx_inv ctx_rel (body iovs)) \<Longrightarrow>
     upholds ctx_inv ctx_rel (andThen (readsE (make_iovs p n)) (\<lambda>r. case r of Inl e \<Rightarrow> returns Fizzy_trapped | Inr iovs \<Rightarrow> body iovs))"
  by (rule ctx_andThen) (auto intro: ctx_simple split: sum.split)

lemma ctx_relocate:
  "upholds ctx_inv ctx_rel (on_guest (\<lambda>(mem, s).
     case relocate_args argv off is mem of Returned mem' \<Rightarrow> (Returned (), mem', s) | Threw e \<Rightarrow> (Threw e, mem, s)))"
proof (rule ctx_guest, rule upholdsI)
  fix ms :: "bytes \<times> 's" and x ms'
  assume "(\<lambda>(mem, s). P s) ms"
    and "(\<lambda>(mem, s). case relocate_args argv off is mem of Returned mem' \<Rightarrow> (Returned (), mem', s) | Threw e \<Rightarrow> (Threw e, mem, s)) ms
      = (Returned x, ms')"
  then show "(\<lambda>(mem, s). P s) ms' \<and> (\<lambda>(mem, s) (mem', s'). R s s') ms ms'"
    by (auto simp: preorder_relD(1) [OF R_preorder] split: outcome.splits)
next
  fix ms :: "bytes \<times> 's" and ms'
  show "(\<lambda>(mem, s). case relocate_args argv off is mem of Returned mem' \<Rightarrow> (Returned (), mem', s) | Threw e \<Rightarrow> (Threw e, mem, s)) ms
      \<noteq> (Threw Diverges, ms')"
    using relocate_args_terminates by (cases ms) (auto split: outcome.splits)
qed

lemma ctx_args_get: "upholds ctx_inv ctx_rel (wasi_args_get api args)"
  unfolding wasi_args_get_def
  by (intro ctx_with_pointer ctx_andThen ctx_metered_call)
    (auto split: prod.split intro!: ctx_finish_call ctx_andThen [OF ctx_relocate])

lemma ctx_proc_exit: "upholds ctx_inv ctx_rel (wasi_proc_exit api args)"
proof -
  have "upholds ctx_inv ctx_rel (modifies (\<lambda>c. c\<lparr>pc_error_code := e\<rparr>))" for e
    by (rule upholdsI) (auto simp: op_defs ctx_inv_def ctx_rel_def preorder_relD(1) [OF R_preorder])
  then show ?thesis
    unfolding wasi_proc_exit_def
    by (intro ctx_andThen ctx_with_meter_ticks ctx_guest [OF call_upholds] ctx_simple)
      (auto split: prod.split intro!: ctx_finish_call ctx_andThen ctx_simple)
qed

lemma ctx_host_funcs: "upholds ctx_inv ctx_rel (host_funcs api f args)"
proof (cases f)
  case Fn_args_get
  then show ?thesis using ctx_args_get by simp
next
  case Fn_proc_exit
  then show ?thesis using ctx_proc_exit by simp
qed (simp_all add: wasi_args_sizes_get_def wasi_fd_seek_def wasi_fd_write_def wasi_fd_read_def wasi_fd_close_def
    wasi_fd_fdstat_get_def respublica_get_caller_def respublica_get_object_def respublica_put_object_def
    respublica_check_authority_def ctx_with_pointer ctx_call_finish ctx_load_pointer ctx_with_iovs)

text \<open>The fuel of the loop is the number of ticks: every call costs one.\<close>

lemma ctx_fizzy_loop:
  assumes "fizzy_metered fz" and "ctx_inv c"
    and "\<And>f args mem t k. e = Fizzy_calls f args mem t k \<Longrightarrow> unat t < fuel \<and> t \<le> pc_ticks c"
  shows "case fizzy_loop fz api fuel e c of
      (Returned x, c') \<Rightarrow> (P (pc_host c') \<and> R (pc_host c) (pc_host c'))
    | (Threw x, c') \<Rightarrow> x \<noteq> Diverges"
  using assms(2,3)
proof (induction fuel arbitrary: e c)
  case 0
  then show ?case by (cases e) (auto simp: op_defs ctx_inv_def preorder_relD(1) [OF R_preorder])
next
  case (Suc fuel)
  show ?case
  proof (cases e)
    case (Fizzy_finished trapped t)
    then show ?thesis using Suc.prems(1) by (simp add: op_defs ctx_inv_def preorder_relD(1) [OF R_preorder])
  next
    case (Fizzy_calls f args mem t k)
    let ?c = "c\<lparr>pc_memory := mem, pc_context_ticks := t\<rparr>"
    have t: "unat t < Suc fuel" "t \<le> pc_ticks c" using Suc.prems(2) [OF Fizzy_calls] by simp_all
    then have inv: "ctx_inv ?c" using Suc.prems(1) by (simp add: ctx_inv_def)
    show ?thesis
    proof (cases "host_funcs api f args ?c")
      case (Pair r c1)
      show ?thesis
      proof (cases r)
        case (Threw x)
        then show ?thesis
          using Pair upholdsD(2) [OF ctx_host_funcs inv] Fizzy_calls by (auto simp: op_defs)
      next
        case (Returned x)
        let ?e = "fizzy_resume fz k (pc_memory c1) x (pc_context_ticks c1)"
        have c1: "ctx_inv c1" "R (pc_host c) (pc_host c1)" "pc_context_ticks c1 \<le> t"
          using upholdsD(1) [OF ctx_host_funcs inv] Pair Returned by (auto simp: ctx_rel_def)
        have next_call: "unat t' < fuel \<and> t' \<le> pc_ticks c1" if "?e = Fizzy_calls f' args' mem' t' k'" for f' args' mem' t' k'
        proof -
          have "t' < pc_context_ticks c1" using that assms(1) sint_less_unat unfolding fizzy_metered_def by blast
          then show ?thesis
            using c1(1,3) t(1) by (auto simp: ctx_inv_def word_less_nat_alt word_le_nat_alt)
        qed
        have "fizzy_loop fz api (Suc fuel) e c = fizzy_loop fz api fuel ?e c1"
          using Fizzy_calls Pair Returned by (simp add: op_defs)
        moreover have "case fizzy_loop fz api fuel ?e c1 of
            (Returned x, c') \<Rightarrow> (P (pc_host c') \<and> R (pc_host c1) (pc_host c')) | (Threw x, c') \<Rightarrow> x \<noteq> Diverges"
          by (rule Suc.IH [OF c1(1)]) (rule next_call)
        ultimately show ?thesis
          using preorder_relD(2) [OF R_preorder c1(2)] by (auto split: prod.splits outcome.splits)
      qed
    qed
  qed
qed

lemma ctx_execute_start:
  assumes "fizzy_metered fz" and "ctx_inv c" and "pc_ticks c = ticks (pc_host c)"
  shows "case execute_start fz api k idx (ticks (pc_host c)) c of
      (Returned x, c') \<Rightarrow> (P (pc_host c') \<and> R (pc_host c) (pc_host c')) | (Threw x, c') \<Rightarrow> x \<noteq> Diverges"
proof -
  let ?t = "ticks (pc_host c)"
  let ?e = "fizzy_execute fz k idx max_call_depth ?t"
  have call: "unat t < unat ?t \<and> t \<le> pc_ticks c" if "?e = Fizzy_calls f args mem t k'" for f args mem t k'
  proof -
    have "t < ?t" using that assms(1) sint_less_unat unfolding fizzy_metered_def by blast
    then show ?thesis using assms(3) by (simp add: word_less_nat_alt word_le_nat_alt)
  qed
  have loop: "case fizzy_loop fz api (unat ?t) ?e c of
      (Returned x, c') \<Rightarrow> (P (pc_host c') \<and> R (pc_host c) (pc_host c')) | (Threw x, c') \<Rightarrow> x \<noteq> Diverges"
    by (rule ctx_fizzy_loop [OF assms(1,2)]) (rule call)
  show ?thesis
  proof (cases "fizzy_loop fz api (unat ?t) ?e c")
    case (Pair r c1)
    show ?thesis
    proof (cases r)
      case (Threw x)
      then show ?thesis using Pair loop by (simp add: execute_start_def andThen_def)
    next
      case (Returned trapped)
      then have c1: "P (pc_host c1)" "R (pc_host c) (pc_host c1)" using loop Pair by simp_all
      obtain q s2 where "ha_use_meter_ticks api (pc_ticks c1 - pc_context_ticks c1) (pc_host c1) = (q, s2)"
        by fastforce
      then show ?thesis
        using upholdsD [OF use_upholds c1(1)] Pair Returned preorder_relD(2) [OF R_preorder c1(2)]
        by (cases q) (auto simp: execute_start_def op_defs on_host_def)
    qed
  qed
qed

lemma start_upholds:
  assumes "fizzy_metered fz" and "fizzy_starts fz"
  shows "upholds P R (run_context (program_context_start fz api m))"
  unfolding upholds_def
proof (intro allI impI)
  fix s
  assume s: "P s"
  let ?c = "(program_context_new s)\<lparr>pc_ticks := ticks s, pc_context_ticks := ticks s\<rparr>"
  have inst: "instantiate_module fz m \<noteq> Threw Diverges"
    using assms(2) by (auto simp: instantiate_module_def fizzy_starts_def split: fizzy_instance.splits)
  have inv: "ctx_inv ?c" "pc_ticks ?c = ticks (pc_host ?c)" "pc_host ?c = s"
    using s by (simp_all add: ctx_inv_def program_context_new_def)
  have exec: "case execute_start fz api k idx (ticks s) ?c of
      (Returned x, c') \<Rightarrow> (P (pc_host c') \<and> R s (pc_host c')) | (Threw x, c') \<Rightarrow> x \<noteq> Diverges" for k idx
    using ctx_execute_start [OF assms(1) inv(1,2), of k idx] unfolding inv(3) .
  have new: "pc_host (program_context_new s) = s" by (simp add: program_context_new_def)
  note simps = run_context_def program_context_start_def op_defs get_ticks new preorder_relD(1) [OF R_preorder] s
  show "case run_context (program_context_start fz api m) s of
      (Returned x, s') \<Rightarrow> (P s' \<and> R s s') | (Threw x, s') \<Rightarrow> x \<noteq> Diverges"
  proof (cases "instantiate_module fz m")
    case (Threw x)
    then show ?thesis using inst by (simp add: simps)
  next
    case (Returned r)
    then show ?thesis
    proof (cases r)
      case (Inl e)
      then show ?thesis using Returned by (simp add: simps)
    next
      case (Inr k)
      then show ?thesis
        using Returned exec [of k] by (cases "fizzy_find_exported_function_index fz m ''_start''")
          (force simp: simps split: prod.splits outcome.splits)+
    qed
  qed
qed

end

text \<open>
  A cache is sound for a hash of the bytecode when every module in it was parsed from bytecode with that hash.
\<close>

definition cache_sound :: "(bytes \<Rightarrow> bytes) \<Rightarrow> ('m, 'k) fizzy \<Rightarrow> 'm module_cache \<Rightarrow> bool" where
  "cache_sound H fz c \<longleftrightarrow>
     cache_ok c \<and> (\<forall>i m. cached c i = Some m \<longrightarrow> (\<exists>bc. H bc = i \<and> parse_bytecode fz bc = Inr m))"

lemma make_module_run:
  assumes "cache_sound H fz c" and "H bc \<noteq> []"
  shows "\<exists>r c'. make_module fz bc (H bc) c = (Returned r, c') \<and> cache_sound H fz c'
       \<and> (case r of
            Inl e \<Rightarrow> parse_bytecode fz bc = Inl e
          | Inr m \<Rightarrow> \<exists>bc'. H bc' = H bc \<and> parse_bytecode fz bc' = Inr m)"
proof (cases "parse_bytecode fz bc")
  case (Inl e)
  obtain c' where c': "get_module (H bc) c = (Returned (cached c (H bc)), c')" "cache_ok c'" "cached c' = cached c"
    using modules.get_ok assms(1) unfolding cache_sound_def by blast
  then show ?thesis
    using Inl assms by (cases "cached c (H bc)") (auto simp: make_module_def op_defs cache_sound_def)
next
  case (Inr m)
  let ?Q = "\<lambda>i n. \<exists>bc. H bc = i \<and> parse_bytecode fz bc = Inr n"
  have "\<exists>r c'. andThen (get_module (H bc)) (\<lambda>h. case h of Some n \<Rightarrow> returns n
      | None \<Rightarrow> andThen (put_module (H bc) m) (\<lambda>_. returns m)) c = (Returned r, c')
      \<and> ?Q (H bc) r \<and> cache_ok c' \<and> cached c' (H bc) = Some r \<and> (\<forall>j n. cached c' j = Some n \<longrightarrow> ?Q j n)"
    by (rule modules.memo_sound) (use assms Inr in \<open>auto simp: cache_sound_def\<close>)
  then show ?thesis
    using Inr assms(2)
    by (fastforce simp: make_module_def op_defs cache_sound_def split: outcome.splits option.splits prod.splits)
qed

lemma make_module_ok:
  assumes "cache_ok c"
  shows "case make_module fz bc i c of (Returned r, c') \<Rightarrow> cache_ok c' | (Threw e, c') \<Rightarrow> e \<noteq> Diverges"
proof (cases "i = []")
  case True
  then show ?thesis by (simp add: make_module_def op_defs)
next
  case False
  obtain c' where c': "get_module i c = (Returned (cached c i), c')" "cache_ok c'" "cached c' = cached c"
    using modules.get_ok [OF assms] by blast
  show ?thesis
  proof (cases "cached c i")
    case (Some n)
    then show ?thesis using False c' by (simp add: make_module_def op_defs)
  next
    case None
    then show ?thesis
    proof (cases "parse_bytecode fz bc")
      case (Inl e)
      then show ?thesis using False None c' by (simp add: make_module_def op_defs)
    next
      case (Inr m)
      then show ?thesis
        using False None c' modules.put_ok [OF c'(2), of i m] by (auto simp: make_module_def op_defs)
    qed
  qed
qed

text \<open>The whole machine, with its cache inside the state of the node.\<close>

locale metered_machine = metered_host +
  fixes getc :: "'a \<Rightarrow> 'm module_cache" and setc :: "'m module_cache \<Rightarrow> 'a \<Rightarrow> 'a"
  assumes cache_inv: "P s \<Longrightarrow> cache_ok (getc s)"
    and set_cache: "P s \<Longrightarrow> cache_ok c \<Longrightarrow> P (setc c s) \<and> R s (setc c s)"
begin

lemma run_upholds:
  assumes "fizzy_metered fz" and "fizzy_starts fz"
  shows "upholds P R (virtual_machine_run fz getc setc api bytecode i)"
proof -
  have "upholds P R (on_cache getc setc (make_module fz bytecode i))"
  proof (rule upholdsI)
    fix s x s'
    assume s: "P s" and "on_cache getc setc (make_module fz bytecode i) s = (Returned x, s')"
    then obtain c where "make_module fz bytecode i (getc s) = (Returned x, c)" "s' = setc c s"
      by (auto simp: on_cache_def split: prod.splits)
    then show "P s' \<and> R s s'"
      using make_module_ok [OF cache_inv [OF s], of fz bytecode i] set_cache [OF s] by auto
  next
    fix s s'
    assume "P s"
    then show "on_cache getc setc (make_module fz bytecode i) s \<noteq> (Threw Diverges, s')"
      using make_module_ok [OF cache_inv, of s fz bytecode i] by (auto simp: on_cache_def split: prod.splits)
  qed
  then show ?thesis
    unfolding virtual_machine_run_def
    by (intro upholds_noexcept upholds_andThen [OF R_preorder])
      (auto intro: start_upholds [OF assms] upholds_simple [OF R_preorder] split: sum.split)
qed

end


definition sample_fizzy :: "(bytes, unit) fizzy" where
  "sample_fizzy =
     \<lparr>fizzy_parse = (\<lambda>bc. if hd bc = 0 then Some bc else None), fizzy_resolve_instantiate = (\<lambda>_. Instantiated ()),
      fizzy_find_exported_function_index = (\<lambda>_ name. if name = ''_start'' then Some 0 else None),
      fizzy_execute = (\<lambda>_ _ _ t. if 0 < sint t then Fizzy_calls Fn_fd_close [1] None (word_of_int (sint t - 1)) () else Fizzy_finished True t),
      fizzy_resume = (\<lambda>_ _ r t. Fizzy_finished (r = Fizzy_trapped) t)\<rparr>"


end
