(* ===== verification/Crypto.thy ===== *)
theory Crypto
  imports Prelude
begin

text \<open>
  Hashing, merkle roots and keys (\<open>crypto/hash.cpp\<close>, \<open>crypto/merkle_tree.hpp\<close>,
  \<open>crypto/public_key.cpp\<close>, \<open>crypto/secret_key.cpp\<close>).  The BLAKE3 compression and the FourQ
  signature scheme are vendored libraries: they are parameters, \<open>H\<close> for the digest of a byte
  string and the functions of the record \<open>signature_scheme\<close>.
\<close>

section \<open>The incremental hasher\<close>

text \<open>
  The thread-local BLAKE3 state is the input absorbed since the last reset; \<open>hasher_update\<close>
  appends to it and \<open>hasher_finalize\<close> is its digest.
\<close>

type_synonym hasher = bytes

definition hasher_reset :: hasher where
  "hasher_reset = []"

definition hasher_update :: "hasher \<Rightarrow> bytes \<Rightarrow> hasher" where
  "hasher_update h bs = h @ bs"

definition hasher_update_u64 :: "hasher \<Rightarrow> u64 \<Rightarrow> hasher" where
  "hasher_update_u64 h x = hasher_update h (u64_bytes x)"

definition hasher_update_range :: "hasher \<Rightarrow> bytes list \<Rightarrow> hasher" where
  "hasher_update_range h vs = foldl hasher_update h vs"

definition hasher_finalize :: "(bytes \<Rightarrow> digest) \<Rightarrow> hasher \<Rightarrow> digest" where
  "hasher_finalize H h = H h"

definition hash :: "(bytes \<Rightarrow> digest) \<Rightarrow> bytes \<Rightarrow> digest" where
  "hash H bs = hasher_finalize H (hasher_update hasher_reset bs)"

definition hash_range :: "(bytes \<Rightarrow> digest) \<Rightarrow> bytes list \<Rightarrow> digest" where
  "hash_range H vs = hasher_finalize H (hasher_update_range hasher_reset vs)"

definition hash_integral :: "(bytes \<Rightarrow> digest) \<Rightarrow> u64 \<Rightarrow> digest" where
  "hash_integral H x = hash H (u64_bytes x)"

text \<open>\<open>const char*\<close> overloads hash up to the terminating zero byte.\<close>

definition c_string :: "string \<Rightarrow> bytes" where
  "c_string s = takeWhile (\<lambda>b. b \<noteq> 0) (map (\<lambda>c. word_of_nat (of_char c)) s)"

definition hash_c_string :: "(bytes \<Rightarrow> digest) \<Rightarrow> string \<Rightarrow> digest" where
  "hash_c_string H s = hash H (c_string s)"

lemma hash_eq [simp]: "hash H = H"
  by (simp add: fun_eq_iff hash_def hasher_finalize_def hasher_update_def hasher_reset_def)

lemma hasher_update_range_concat: "hasher_update_range h vs = h @ concat vs"
  unfolding hasher_update_range_def
  by (induction vs arbitrary: h) (simp_all add: hasher_update_def)

lemma hash_range_concat: "hash_range H vs = H (concat vs)"
  by (simp add: hash_range_def hasher_update_range_concat hasher_finalize_def hasher_reset_def)

section \<open>The in-place merkle root\<close>

text \<open>
  \<open>merkle_root\<close> overwrites the vector of digests level by level: the inner loop combines
  neighbours from \<open>index\<close> on and stores the results from \<open>next_index\<close> on.
\<close>

definition hash_pair :: "(bytes \<Rightarrow> digest) \<Rightarrow> digest \<Rightarrow> digest \<Rightarrow> digest" where
  "hash_pair H l r = hasher_finalize H (hasher_update (hasher_update hasher_reset l) r)"

function merkle_pass ::
    "(bytes \<Rightarrow> digest) \<Rightarrow> nat \<Rightarrow> nat \<Rightarrow> nat \<Rightarrow> digest list \<Rightarrow> nat \<times> digest list" where
  "merkle_pass H cnt index next_index nodes =
     (if index < cnt then
        if index + 1 < cnt
        then merkle_pass H cnt (index + 2) (next_index + 1)
               (nodes[next_index := hash_pair H (nodes ! index) (nodes ! (index + 1))])
        else merkle_pass H cnt (index + 1) (next_index + 1) (nodes[next_index := nodes ! index])
      else (next_index, nodes))"
  by pat_completeness auto
termination
  by (relation "measure (\<lambda>(H, cnt, index, next_index, nodes). cnt - index)") auto

declare merkle_pass.simps [simp del]

lemma merkle_pass_done [simp]:
  "cnt \<le> index \<Longrightarrow> merkle_pass H cnt index next_index nodes = (next_index, nodes)"
  by (simp add: merkle_pass.simps)

lemma fst_merkle_pass:
  "fst (merkle_pass H cnt index next_index nodes) = next_index + (cnt - index + 1) div 2"
proof (induction H cnt index next_index nodes rule: merkle_pass.induct)
  case (1 H cnt index next_index nodes)
  then show ?case
    by (subst merkle_pass.simps) auto
qed

function merkle_loop :: "(bytes \<Rightarrow> digest) \<Rightarrow> nat \<Rightarrow> digest list \<Rightarrow> digest list" where
  "merkle_loop H cnt nodes =
     (if 1 < cnt then merkle_loop H (fst (merkle_pass H cnt 0 0 nodes)) (snd (merkle_pass H cnt 0 0 nodes))
      else nodes)"
  by pat_completeness auto
termination
  by (relation "measure (\<lambda>(H, cnt, nodes). cnt)") (auto simp: fst_merkle_pass)

declare merkle_loop.simps [simp del]

definition merkle_root :: "(bytes \<Rightarrow> digest) \<Rightarrow> bytes list \<Rightarrow> digest" where
  "merkle_root H vs =
     (if vs = [] then zero_digest
      else let nodes = map (hash H) vs in hd (merkle_loop H (length nodes) nodes))"

text \<open>\<open>merkle_root< true >\<close>: the values are digests already.\<close>

definition merkle_root_hashed :: "(bytes \<Rightarrow> digest) \<Rightarrow> digest list \<Rightarrow> digest" where
  "merkle_root_hashed H vs =
     (if vs = [] then zero_digest else hd (merkle_loop H (length vs) vs))"

section \<open>Merkle trees\<close>

datatype merkle_node =
  Merkle_node (node_left: "merkle_node option") (node_right: "merkle_node option") (node_hash: digest)

definition merkle_node_empty :: merkle_node where
  "merkle_node_empty = Merkle_node None None zero_digest"

definition merkle_leaf :: "(bytes \<Rightarrow> digest) \<Rightarrow> bytes \<Rightarrow> merkle_node" where
  "merkle_leaf H v = Merkle_node None None (hash H v)"

definition merkle_branch ::
    "(bytes \<Rightarrow> digest) \<Rightarrow> merkle_node option \<Rightarrow> merkle_node option \<Rightarrow> merkle_node outcome" where
  "merkle_branch H l r =
     (case (l, r) of
        (Some l', Some r') \<Rightarrow>
          Returned (Merkle_node l r
            (hasher_finalize H (hasher_update (hasher_update hasher_reset (node_hash l')) (node_hash r'))))
      | _ \<Rightarrow> Threw Null_dereference)"

text \<open>The vector of \<open>unique_ptr\<close>: a moved-from slot is empty.\<close>

function merkle_tree_pass ::
    "(bytes \<Rightarrow> digest) \<Rightarrow> nat \<Rightarrow> nat \<Rightarrow> nat \<Rightarrow> merkle_node option list
       \<Rightarrow> (nat \<times> merkle_node option list) outcome" where
  "merkle_tree_pass H cnt index next_index nodes =
     (if index < cnt then
        if index + 1 < cnt
        then (case merkle_branch H (nodes ! index) (nodes ! (index + 1)) of
                Threw e \<Rightarrow> Threw e
              | Returned n \<Rightarrow>
                  merkle_tree_pass H cnt (index + 2) (next_index + 1)
                    (nodes[index := None, index + 1 := None, next_index := Some n]))
        else merkle_tree_pass H cnt (index + 1) (next_index + 1)
               (nodes[index := None, next_index := nodes ! index])
      else Returned (next_index, nodes))"
  by pat_completeness auto
termination
  by (relation "measure (\<lambda>(H, cnt, index, next_index, nodes). cnt - index)") auto

declare merkle_tree_pass.simps [simp del]

lemma fst_merkle_tree_pass:
  "merkle_tree_pass H cnt index next_index nodes = Returned (n, nodes') \<Longrightarrow>
     n = next_index + (cnt - index + 1) div 2"
proof (induction H cnt index next_index nodes rule: merkle_tree_pass.induct)
  case (1 H cnt index next_index nodes)
  have "index + 1 < cnt \<Longrightarrow> next_index + 1 + (cnt - (index + 2) + 1) div 2 = next_index + (cnt - index + 1) div 2"
    by arith
  note ar = this
  show ?case
    using "1.prems" "1.IH" ar
    by (subst (asm) merkle_tree_pass.simps) (auto split: if_splits outcome.splits)
qed

function merkle_tree_loop ::
    "(bytes \<Rightarrow> digest) \<Rightarrow> nat \<Rightarrow> merkle_node option list \<Rightarrow> merkle_node option list outcome" where
  "merkle_tree_loop H cnt nodes =
     (if 1 < cnt then
        (case merkle_tree_pass H cnt 0 0 nodes of
           Threw e \<Rightarrow> Threw e
         | Returned (cnt', nodes') \<Rightarrow> merkle_tree_loop H cnt' nodes')
      else Returned nodes)"
  by pat_completeness auto
termination
  by (relation "measure (\<lambda>(H, cnt, nodes). cnt)") (auto dest: fst_merkle_tree_pass)

declare merkle_tree_loop.simps [simp del]

definition merkle_tree_create :: "(bytes \<Rightarrow> digest) \<Rightarrow> bytes list \<Rightarrow> merkle_node outcome" where
  "merkle_tree_create H vs =
     (if vs = [] then Returned merkle_node_empty
      else let nodes = map (\<lambda>v. Some (merkle_leaf H v)) vs in
           (case merkle_tree_loop H (length nodes) nodes of
              Threw e \<Rightarrow> Threw e
            | Returned nodes' \<Rightarrow> (case hd nodes' of None \<Rightarrow> Threw Null_dereference | Some n \<Rightarrow> Returned n)))"

section \<open>Keys\<close>

text \<open>The FourQ (SchnorrQ) functions the keys call, with the buffers they fill as results.\<close>

record signature_scheme =
  full_key_generation :: "bytes \<times> bytes"
  key_generation :: "bytes \<Rightarrow> bytes"
  schnorrq_sign :: "bytes \<Rightarrow> bytes \<Rightarrow> bytes \<Rightarrow> bytes"
  schnorrq_verify :: "bytes \<Rightarrow> bytes \<Rightarrow> bytes \<Rightarrow> u32"

type_synonym public_key = bytes
type_synonym signature = bytes

record secret_key =
  public_bytes :: bytes
  secret_bytes :: bytes

definition public_key_eq :: "public_key \<Rightarrow> public_key \<Rightarrow> bool" where
  "public_key_eq a b \<longleftrightarrow> a = b"

definition public_key_verify :: "signature_scheme \<Rightarrow> public_key \<Rightarrow> signature \<Rightarrow> digest \<Rightarrow> bool" where
  "public_key_verify S pk sig dig \<longleftrightarrow> schnorrq_verify S pk dig sig = 1"

definition secret_key_eq :: "secret_key \<Rightarrow> secret_key \<Rightarrow> bool" where
  "secret_key_eq a b \<longleftrightarrow> secret_bytes a = secret_bytes b \<and> public_bytes a = public_bytes b"

definition secret_key_create :: "signature_scheme \<Rightarrow> secret_key" where
  "secret_key_create S =
     \<lparr>public_bytes = snd (full_key_generation S), secret_bytes = fst (full_key_generation S)\<rparr>"

definition secret_key_create_seed :: "signature_scheme \<Rightarrow> digest \<Rightarrow> secret_key" where
  "secret_key_create_seed S seed = \<lparr>public_bytes = key_generation S seed, secret_bytes = seed\<rparr>"

definition secret_key_sign :: "signature_scheme \<Rightarrow> secret_key \<Rightarrow> digest \<Rightarrow> signature" where
  "secret_key_sign S k d = schnorrq_sign S (secret_bytes k) (public_bytes k) d"

definition secret_key_public_key :: "secret_key \<Rightarrow> public_key" where
  "secret_key_public_key k = public_bytes k"

section \<open>One level of the tree\<close>

text \<open>What one pass computes, as a function on lists.\<close>

fun merkle_level :: "(bytes \<Rightarrow> digest) \<Rightarrow> digest list \<Rightarrow> digest list" where
  "merkle_level H (a # b # ds) = H (a @ b) # merkle_level H ds"
| "merkle_level H ds = ds"

lemma length_merkle_level: "length (merkle_level H ds) = (length ds + 1) div 2"
  by (induction H ds rule: merkle_level.induct) auto

lemma hash_pair_eq [simp]: "hash_pair H l r = H (l @ r)"
  by (simp add: hash_pair_def hasher_finalize_def hasher_update_def hasher_reset_def)

function merkle_levels :: "(bytes \<Rightarrow> digest) \<Rightarrow> digest list \<Rightarrow> digest list" where
  "merkle_levels H ds = (if 1 < length ds then merkle_levels H (merkle_level H ds) else ds)"
  by pat_completeness auto
termination
  by (relation "measure (\<lambda>(H, ds). length ds)") (auto simp: length_merkle_level)

declare merkle_levels.simps [simp del]

lemma merkle_level_short: "length ds < 2 \<Longrightarrow> merkle_level H ds = ds"
  by (induction H ds rule: merkle_level.induct) auto

lemma drop_take_Cons: "i < n \<Longrightarrow> n \<le> length xs \<Longrightarrow> drop i (take n xs) = xs ! i # drop (Suc i) (take n xs)"
  by (simp add: Cons_nth_drop_Suc [symmetric])

lemma merkle_pass_level:
  assumes "index \<le> cnt" and "cnt \<le> length nodes" and "next_index \<le> index"
  shows "take (fst (merkle_pass H cnt index next_index nodes)) (snd (merkle_pass H cnt index next_index nodes))
           = take next_index nodes @ merkle_level H (drop index (take cnt nodes))
       \<and> length (snd (merkle_pass H cnt index next_index nodes)) = length nodes"
  using assms
proof (induction H cnt index next_index nodes rule: merkle_pass.induct)
  case (1 H cnt index next_index nodes)
  consider "cnt \<le> index" | "Suc index = cnt" | "Suc index < cnt" by linarith
  then show ?case
  proof cases
    case 1
    with "1.prems" show ?thesis by simp
  next
    case 2
    let ?n = "nodes[next_index := nodes ! index]"
    have d: "drop index (take cnt nodes) = [nodes ! index]"
      using 2 "1.prems" by (simp add: drop_take_Cons)
    have "take (Suc next_index) ?n = take next_index nodes @ [nodes ! index]"
      using 2 "1.prems" by (simp add: take_Suc_conv_app_nth)
    then show ?thesis
      using 2 "1.prems" d
      by (simp add: merkle_pass.simps [of H cnt index])
  next
    case 3
    let ?n = "nodes[next_index := hash_pair H (nodes ! index) (nodes ! (index + 1))]"
    have d: "drop index (take cnt nodes) = nodes ! index # nodes ! Suc index # drop (index + 2) (take cnt nodes)"
      using 3 "1.prems" by (simp add: drop_take_Cons)
    have same: "drop (index + 2) (take cnt ?n) = drop (index + 2) (take cnt nodes)"
      using "1.prems" by (simp add: drop_take)
    have pre: "take (Suc next_index) ?n = take next_index nodes @ [H (nodes ! index @ nodes ! Suc index)]"
      using 3 "1.prems" by (simp add: take_Suc_conv_app_nth)
    have "merkle_pass H cnt index next_index nodes = merkle_pass H cnt (index + 2) (next_index + 1) ?n"
      using 3 by (simp add: merkle_pass.simps [of H cnt index])
    then show ?thesis
      using "1.IH"(1) 3 "1.prems" d same pre by simp
  qed
qed

lemma merkle_loop_levels:
  assumes "cnt \<le> length nodes"
  shows "take (min 1 cnt) (merkle_loop H cnt nodes) = merkle_levels H (take cnt nodes)"
  using assms
proof (induction H cnt nodes rule: merkle_loop.induct)
  case (1 H cnt nodes)
  show ?case
  proof (cases "1 < cnt")
    case True
    let ?r = "merkle_pass H cnt 0 0 nodes"
    have p: "take (fst ?r) (snd ?r) = merkle_level H (take cnt nodes)" "length (snd ?r) = length nodes"
      using merkle_pass_level [of 0 cnt nodes 0 H] "1.prems" by simp_all
    have f: "fst ?r = (cnt + 1) div 2"
      by (simp add: fst_merkle_pass)
    have "take (min 1 (fst ?r)) (merkle_loop H (fst ?r) (snd ?r)) = merkle_levels H (take (fst ?r) (snd ?r))"
      using "1.IH" True f p(2) "1.prems" by simp
    moreover have "min 1 (fst ?r) = min 1 cnt"
      using True f by simp
    ultimately show ?thesis
      using True p(1) "1.prems"
      by (simp add: merkle_loop.simps [of H cnt] merkle_levels.simps [of H "take cnt nodes"])
  next
    case False
    then have "min 1 cnt = cnt" by simp
    with False show ?thesis
      by (simp add: merkle_loop.simps [of H cnt] merkle_levels.simps [of H "take cnt nodes"])
  qed
qed

lemma length_merkle_levels: "length (merkle_levels H ds) = min 1 (length ds)"
proof (induction H ds rule: merkle_levels.induct)
  case (1 H ds)
  then show ?case
    by (subst merkle_levels.simps) (auto simp: length_merkle_level)
qed

lemma merkle_root_levels: "vs \<noteq> [] \<Longrightarrow> merkle_levels H (map H vs) = [merkle_root H vs]"
proof -
  assume vs: "vs \<noteq> []"
  then have m: "min 1 (length vs) = 1" by (cases vs) auto
  have "length (merkle_levels H (map H vs)) = 1"
    using m by (simp add: length_merkle_levels)
  then obtain d where d: "merkle_levels H (map H vs) = [d]"
    by (auto simp: length_Suc_conv)
  have "take 1 (merkle_loop H (length vs) (map H vs)) = [d]"
    using merkle_loop_levels [of "length vs" "map H vs" H] m d by simp
  then have "hd (merkle_loop H (length vs) (map H vs)) = d"
    by (cases "merkle_loop H (length vs) (map H vs)") auto
  then show ?thesis
    using vs d by (simp add: merkle_root_def)
qed

section \<open>The tree and the root agree\<close>

fun tree_level :: "(bytes \<Rightarrow> digest) \<Rightarrow> merkle_node list \<Rightarrow> merkle_node list" where
  "tree_level H (a # b # ts) =
     Merkle_node (Some a) (Some b) (H (node_hash a @ node_hash b)) # tree_level H ts"
| "tree_level H ts = ts"

text \<open>Every branch carries the hash of its children's hashes; the leaves from left to right.\<close>

fun tree_ok :: "(bytes \<Rightarrow> digest) \<Rightarrow> merkle_node \<Rightarrow> bool" where
  "tree_ok H (Merkle_node None None h) = True"
| "tree_ok H (Merkle_node (Some l) (Some r) h) =
     (h = H (node_hash l @ node_hash r) \<and> tree_ok H l \<and> tree_ok H r)"
| "tree_ok H (Merkle_node _ _ h) = False"

fun tree_fringe :: "merkle_node \<Rightarrow> digest list" where
  "tree_fringe (Merkle_node (Some l) (Some r) h) = tree_fringe l @ tree_fringe r"
| "tree_fringe (Merkle_node _ _ h) = [h]"

lemma tree_level_hash: "map node_hash (tree_level H ts) = merkle_level H (map node_hash ts)"
  by (induction H ts rule: tree_level.induct) auto

lemma tree_level_ok: "list_all (tree_ok H) ts \<Longrightarrow> list_all (tree_ok H) (tree_level H ts)"
  by (induction H ts rule: tree_level.induct) auto

lemma tree_level_fringe: "concat (map tree_fringe (tree_level H ts)) = concat (map tree_fringe ts)"
  by (induction H ts rule: tree_level.induct) auto

lemma length_tree_level: "length (tree_level H ts) = (length ts + 1) div 2"
  by (induction H ts rule: tree_level.induct) auto

lemma merkle_tree_pass_level:
  assumes "index \<le> cnt" and "cnt \<le> length nodes" and "next_index \<le> index"
    and "take next_index nodes = map Some xs" and "drop index (take cnt nodes) = map Some ys"
  shows "\<exists>n nodes'. merkle_tree_pass H cnt index next_index nodes = Returned (n, nodes')
           \<and> length nodes' = length nodes \<and> take n nodes' = map Some (xs @ tree_level H ys)"
  using assms
proof (induction H cnt index next_index nodes arbitrary: xs ys rule: merkle_tree_pass.induct)
  case (1 H cnt index next_index nodes)
  note len = "1.prems"(1-3)
  show ?case
  proof (cases "index < cnt")
    case False
    then show ?thesis
      using "1.prems" by (simp add: merkle_tree_pass.simps)
  next
    case lt: True
    have n0: "nodes ! index = Some (hd ys)" and ys0: "ys = hd ys # tl ys"
      and d1: "drop (Suc index) (take cnt nodes) = map Some (tl ys)"
      using "1.prems"(5) drop_take_Cons [OF lt len(2)] by (cases ys; auto)+
    show ?thesis
    proof (cases "index + 1 < cnt")
      case False
      then have "tl ys = []"
        using d1 len by (simp add: not_less)
      then have ys: "ys = [hd ys]" using ys0 by simp
      have "tree_level H ys = ys" by (subst (1 2) ys) simp
      moreover have "take (Suc next_index) (nodes[index := None, next_index := nodes ! index])
              = map Some (xs @ ys)"
        using lt len "1.prems"(4) n0 by (subst ys) (simp add: take_Suc_conv_app_nth)
      ultimately show ?thesis
        using lt False len by (simp add: merkle_tree_pass.simps [of H cnt index]
            merkle_tree_pass.simps [of H cnt "Suc index"])
    next
      case True
      have n1: "nodes ! Suc index = Some (hd (tl ys))" and ys1: "tl ys = hd (tl ys) # tl (tl ys)"
        and d2: "drop (Suc (Suc index)) (take cnt nodes) = map Some (tl (tl ys))"
        using d1 drop_take_Cons [of "Suc index" cnt nodes] True len(2) by (cases "tl ys"; auto)+
      let ?b = "Merkle_node (Some (hd ys)) (Some (hd (tl ys)))
                  (H (node_hash (hd ys) @ node_hash (hd (tl ys))))"
      let ?n = "nodes[index := None, index + 1 := None, next_index := Some ?b]"
      have br: "merkle_branch H (nodes ! index) (nodes ! (index + 1)) = Returned ?b"
        using n0 n1
        by (simp add: merkle_branch_def hasher_finalize_def hasher_update_def hasher_reset_def)
      have t: "take (next_index + 1) ?n = map Some (xs @ [?b])"
        using lt len "1.prems"(4) by (simp add: take_Suc_conv_app_nth)
      have d: "drop (index + 2) (take cnt ?n) = map Some (tl (tl ys))"
        using d2 len by (simp add: drop_take)
      have "tree_level H ys = ?b # tree_level H (tl (tl ys))"
        by (subst ys0, subst ys1) simp
      then show ?thesis
        using "1.IH"(1) [OF lt True br _ _ _ t d] lt True br len
        by (simp add: merkle_tree_pass.simps [of H cnt index])
    qed
  qed
qed

lemma merkle_tree_loop_ok:
  assumes "cnt \<le> length nodes" and "0 < cnt" and "take cnt nodes = map Some ts"
    and "list_all (tree_ok H) ts"
  shows "\<exists>t rest. merkle_tree_loop H cnt nodes = Returned (Some t # rest) \<and> tree_ok H t
           \<and> tree_fringe t = concat (map tree_fringe ts)
           \<and> merkle_levels H (map node_hash ts) = [node_hash t]"
  using assms
proof (induction H cnt nodes arbitrary: ts rule: merkle_tree_loop.induct)
  case (1 H cnt nodes)
  have len: "length ts = cnt"
    using "1.prems"(1,3) by (metis length_map length_take min.absorb2)
  show ?case
  proof (cases "1 < cnt")
    case True
    obtain n nodes' where p: "merkle_tree_pass H cnt 0 0 nodes = Returned (n, nodes')"
        "length nodes' = length nodes" "take n nodes' = map Some (tree_level H ts)"
      using merkle_tree_pass_level [of 0 cnt nodes 0 "[]" ts H] "1.prems" by auto
    have n: "n = (cnt + 1) div 2"
      using fst_merkle_tree_pass [OF p(1)] by simp
    have "\<exists>t rest. merkle_tree_loop H n nodes' = Returned (Some t # rest) \<and> tree_ok H t
        \<and> tree_fringe t = concat (map tree_fringe (tree_level H ts))
        \<and> merkle_levels H (map node_hash (tree_level H ts)) = [node_hash t]"
    proof (rule "1.IH" [OF True p(1) refl])
      show "n \<le> length nodes'" and "0 < n"
        using n p(2) True "1.prems"(1) by auto
    qed (use p(3) "1.prems"(4) in \<open>simp_all add: tree_level_ok\<close>)
    then show ?thesis
      using True p(1) len
      by (simp add: merkle_tree_loop.simps [of H cnt] tree_level_hash tree_level_fringe
          merkle_levels.simps [of H "map node_hash ts"])
  next
    case False
    then obtain t where t: "ts = [t]"
      using len "1.prems"(2) by (cases ts) auto
    have c: "cnt = 1" using False "1.prems"(2) by simp
    then obtain rest where "nodes = Some t # rest"
      using "1.prems"(1,3) t by (cases nodes) auto
    then show ?thesis
      using c "1.prems"(4) t
      by (simp add: merkle_tree_loop.simps [of H 1] merkle_tree_loop.simps [of H "Suc 0"]
          merkle_levels.simps [of H "[node_hash t]"])
  qed
qed

text \<open>
  C13: \<open>merkle_tree::create\<close> and the in-place \<open>merkle_root\<close> agree: building the tree never
  dereferences a moved-from slot, its root hash is \<open>merkle_root\<close> of the same values, every branch
  holds the hash of its two children, and its leaves are the hashes of the values in order.
\<close>

theorem merkle_tree_root:
  "\<exists>t. merkle_tree_create H vs = Returned t \<and> node_hash t = merkle_root H vs \<and> tree_ok H t
     \<and> (tree_fringe t = (if vs = [] then [zero_digest] else map (hash H) vs))"
proof (cases "vs = []")
  case True
  then show ?thesis
    by (simp add: merkle_tree_create_def merkle_root_def merkle_node_empty_def)
next
  case False
  let ?ts = "map (merkle_leaf H) vs"
  have ok: "list_all (tree_ok H) ?ts"
    by (simp add: list_all_iff merkle_leaf_def)
  have fr: "concat (map tree_fringe ?ts) = map H vs"
    by (induction vs) (simp_all add: merkle_leaf_def)
  obtain t rest where t: "merkle_tree_loop H (length vs) (map Some ?ts) = Returned (Some t # rest)"
      "tree_ok H t" "tree_fringe t = concat (map tree_fringe ?ts)"
      "merkle_levels H (map node_hash ?ts) = [node_hash t]"
    using merkle_tree_loop_ok [of "length vs" "map Some ?ts" ?ts H] ok False by auto
  have "map node_hash ?ts = map H vs"
    by (simp add: merkle_leaf_def)
  then have "merkle_root H vs = node_hash t"
    using merkle_root_levels [OF False, of H] t(4) by (simp only: list.inject)
  then show ?thesis
    using False t fr by (simp add: merkle_tree_create_def comp_def)
qed

section \<open>The root binds the leaves\<close>

text \<open>The strings one level hashes, and all the strings \<open>merkle_root\<close> hashes.\<close>

fun level_inputs :: "digest list \<Rightarrow> bytes set" where
  "level_inputs (a # b # ds) = insert (a @ b) (level_inputs ds)"
| "level_inputs ds = {}"

function levels_inputs :: "(bytes \<Rightarrow> digest) \<Rightarrow> digest list \<Rightarrow> bytes set" where
  "levels_inputs H ds =
     (if 1 < length ds then level_inputs ds \<union> levels_inputs H (merkle_level H ds) else {})"
  by pat_completeness auto
termination
  by (relation "measure (\<lambda>(H, ds). length ds)") (auto simp: length_merkle_level)

declare levels_inputs.simps [simp del]

definition merkle_inputs :: "(bytes \<Rightarrow> digest) \<Rightarrow> bytes list \<Rightarrow> bytes set" where
  "merkle_inputs H vs = set vs \<union> levels_inputs H (map H vs)"

definition collision_between :: "(bytes \<Rightarrow> digest) \<Rightarrow> bytes set \<Rightarrow> bytes set \<Rightarrow> bool" where
  "collision_between H A B \<longleftrightarrow> (\<exists>x \<in> A. \<exists>y \<in> B. x \<noteq> y \<and> H x = H y)"

lemma collision_between_mono:
  "collision_between H A B \<Longrightarrow> A \<subseteq> A' \<Longrightarrow> B \<subseteq> B' \<Longrightarrow> collision_between H A' B'"
  by (auto simp: collision_between_def)

lemma map_binding:
  "map H vs = map H ws \<Longrightarrow> vs = ws \<or> collision_between H (set vs) (set ws)"
proof (induction vs arbitrary: ws)
  case Nil
  then show ?case by simp
next
  case (Cons v vs)
  then obtain w ws' where ws: "ws = w # ws'" "H v = H w" "map H vs = map H ws'"
    by (cases ws) auto
  then show ?case
    using Cons.IH [OF ws(3)] by (auto simp: collision_between_def)
qed

lemma level_binding_short:
  "length ds < 2 \<Longrightarrow> length ds = length es \<Longrightarrow> merkle_level H ds = merkle_level H es \<Longrightarrow> ds = es"
  by (simp add: merkle_level_short)

lemma level_binding:
  assumes "length ds = length es" and "\<forall>d \<in> set ds \<union> set es. length d = 32"
    and "merkle_level H ds = merkle_level H es"
  shows "ds = es \<or> collision_between H (level_inputs ds) (level_inputs es)"
  using assms
proof (induction H ds arbitrary: es rule: merkle_level.induct)
  case (1 H a b ds)
  then obtain c d es' where es: "es = c # d # es'"
    by (cases es rule: level_inputs.cases) auto
  have "a @ b = c @ d \<longrightarrow> a = c \<and> b = d"
    using "1.prems"(2) by (simp add: es)
  then show ?case
    using "1.IH" [of es'] "1.prems" by (auto simp: es collision_between_def)
qed (rule disjI1, rule level_binding_short, simp (no_asm), assumption, assumption)+

lemma merkle_level_length:
  assumes "\<forall>x. length (H x) = 32" and "\<forall>d \<in> set ds. length d = 32"
  shows "\<forall>d \<in> set (merkle_level H ds). length d = 32"
  using assms by (induction H ds rule: merkle_level.induct) auto

lemma merkle_levels_done: "\<not> 1 < length ds \<Longrightarrow> merkle_levels H ds = ds"
  by (subst merkle_levels.simps) simp

lemma merkle_levels_step:
  "1 < length ds \<Longrightarrow> merkle_levels H ds = merkle_levels H (merkle_level H ds)"
  by (subst merkle_levels.simps) simp

lemma levels_inputs_step:
  "1 < length ds \<Longrightarrow> levels_inputs H ds = level_inputs ds \<union> levels_inputs H (merkle_level H ds)"
  by (subst levels_inputs.simps) simp

lemma levels_binding:
  assumes "\<forall>x. length (H x) = 32" and "length ds = length es"
    and "\<forall>d \<in> set ds \<union> set es. length d = 32"
    and "merkle_levels H ds = merkle_levels H es"
  shows "ds = es \<or> collision_between H (levels_inputs H ds) (levels_inputs H es)"
  using assms
proof (induction H ds arbitrary: es rule: merkle_levels.induct)
  case (1 H ds)
  show ?case
  proof (cases "1 < length ds")
    case False
    then have "merkle_levels H ds = ds" "merkle_levels H es = es"
      using "1.prems"(2) by (simp_all add: merkle_levels_done)
    then show ?thesis
      using "1.prems"(4) by metis
  next
    case True
    then have eq: "merkle_levels H (merkle_level H ds) = merkle_levels H (merkle_level H es)"
      using "1.prems"(2,4) merkle_levels_step [of ds H] merkle_levels_step [of es H] by metis
    have inp: "levels_inputs H ds = level_inputs ds \<union> levels_inputs H (merkle_level H ds)"
      "levels_inputs H es = level_inputs es \<union> levels_inputs H (merkle_level H es)"
      using True "1.prems"(2) by (auto intro!: levels_inputs_step)
    have "merkle_level H ds = merkle_level H es
        \<or> collision_between H (levels_inputs H (merkle_level H ds)) (levels_inputs H (merkle_level H es))"
    proof (rule "1.IH" [OF True "1.prems"(1) _ _ eq])
      show "\<forall>d \<in> set (merkle_level H ds) \<union> set (merkle_level H es). length d = 32"
        using merkle_level_length [OF "1.prems"(1)] "1.prems"(3) by blast
    qed (simp add: length_merkle_level "1.prems"(2))
    then show ?thesis
      using level_binding [OF "1.prems"(2,3)] unfolding inp
      by (blast intro: collision_between_mono)
  qed
qed

lemma merkle_root_binds:
  assumes "\<forall>x. length (H x) = 32" and "length vs = length ws"
    and "merkle_root H vs = merkle_root H ws"
  shows "vs = ws \<or> collision_between H (merkle_inputs H vs) (merkle_inputs H ws)"
proof (cases "vs = []")
  case True
  then show ?thesis using assms(2) by simp
next
  case False
  then have "ws \<noteq> []" using assms(2) by auto
  then have "merkle_levels H (map H vs) = merkle_levels H (map H ws)"
    using False assms(3) by (simp add: merkle_root_levels)
  then have "map H vs = map H ws
      \<or> collision_between H (levels_inputs H (map H vs)) (levels_inputs H (map H ws))"
    using assms(1,2) by (intro levels_binding) auto
  then show ?thesis
    using map_binding [of H vs ws] unfolding merkle_inputs_def
    by (blast intro: collision_between_mono)
qed

text \<open>
  C14: The merkle root commits to the sequence of values: for a hash with 32-byte digests, two
  value lists of the same length with the same root are equal, or two different strings that the
  two computations hash have the same digest (a collision is exhibited).
\<close>

theorem merkle_root_binding:
  assumes "\<forall>x. length (H x) = 32" and "length vs = length ws"
    and "merkle_root H vs = merkle_root H ws"
  shows "vs = ws \<or> collision_between H (merkle_inputs H vs) (merkle_inputs H ws)"
  using assms by (rule merkle_root_binds)

text \<open>A toy digest for evaluation: the first 32 bytes of the padded input.\<close>

definition pad_digest :: "bytes \<Rightarrow> digest" where
  "pad_digest bs = take 32 (bs @ replicate 32 0)"

theorem merkle_root_binding_witness:
  "collision_between pad_digest (merkle_inputs pad_digest [[1]]) (merkle_inputs pad_digest [[1, 0]])"
proof -
  have len: "\<forall>x. length (pad_digest x) = 32"
    by (auto simp: pad_digest_def min_def)
  have one: "merkle_root pad_digest [v] = pad_digest v" for v
    by (simp add: merkle_root_def merkle_loop.simps)
  have "pad_digest [1] = pad_digest [1, 0]"
    by (simp add: pad_digest_def numeral_eq_Suc)
  then have root: "merkle_root pad_digest [[1]] = merkle_root pad_digest [[1, 0]]"
    by (simp add: one)
  show ?thesis
    using merkle_root_binding [OF len _ root] by simp
qed

end
