(* ===== verification/Protocol.thy ===== *)
theory Protocol
  imports Crypto
begin

text \<open>
  The protocol objects (\<open>protocol/account.hpp\<close>, \<open>operation.hpp\<close>, \<open>program.hpp\<close>, \<open>event.hpp\<close>,
  \<open>transaction.hpp\<close>, \<open>block.hpp\<close> and their sources): accounts, operations, transactions, blocks and
  receipts, with their sizes, their validation and the ids under which they are hashed.  The
  theorems say what an id commits to, and what it does not.
\<close>

section \<open>Accounts\<close>

datatype account_type = Account_user | Account_program | Account_native_program | Account_invalid

text \<open>\<open>std::array< std::byte, public_key_length + 1 >\<close>: a prefix byte and 32 key bytes.\<close>

type_synonym account = bytes

definition account_ok :: "account \<Rightarrow> bool" where
  "account_ok a \<longleftrightarrow> length a = 33"

definition user_account_prefix :: byte where
  "user_account_prefix = 0"

definition program_account_prefix :: byte where
  "program_account_prefix = 1"

definition native_program_account_prefix :: byte where
  "native_program_account_prefix = 2"

definition account_prefix_to_type :: "byte \<Rightarrow> account_type" where
  "account_prefix_to_type b =
     (if b = user_account_prefix then Account_user
      else if b = program_account_prefix then Account_program
      else if b = native_program_account_prefix then Account_native_program
      else Account_invalid)"

definition account_public_key :: "account \<Rightarrow> public_key" where
  "account_public_key a = tl a"

definition account_is_user :: "account \<Rightarrow> bool" where
  "account_is_user a \<longleftrightarrow> hd a = user_account_prefix"

definition account_is_program :: "account \<Rightarrow> bool" where
  "account_is_program a \<longleftrightarrow> unat (hd a) \<noteq> 0"

definition account_get_type :: "account \<Rightarrow> account_type" where
  "account_get_type a = account_prefix_to_type (hd a)"

definition user_account :: "public_key \<Rightarrow> account" where
  "user_account k = user_account_prefix # k"

definition user_account_of :: "account \<Rightarrow> account" where
  "user_account_of a = a[0 := user_account_prefix]"

definition program_account :: "public_key \<Rightarrow> account" where
  "program_account k = program_account_prefix # k"

definition program_account_of :: "account \<Rightarrow> account" where
  "program_account_of a = a[0 := program_account_prefix]"

text \<open>\<open>account_view::program()\<close> tests one bit of the prefix.\<close>

definition account_view_is_program :: "account \<Rightarrow> bool" where
  "account_view_is_program a \<longleftrightarrow> hd a AND program_account_prefix \<noteq> 0"

definition account_view_is_user :: "account \<Rightarrow> bool" where
  "account_view_is_user a \<longleftrightarrow> hd a = user_account_prefix"

definition system_program :: "bytes \<Rightarrow> account" where
  "system_program str =
     (let n = min (length str) 32 in native_program_account_prefix # take n str @ replicate (32 - n) 0)"

section \<open>Programs and operations\<close>

text \<open>\<open>std::string\<close> arguments are byte strings.\<close>

record program_input =
  pi_arguments :: "bytes list"
  pi_stdin :: bytes

record program_output =
  po_code :: int
  po_stdout :: bytes
  po_stderr :: bytes

record program_frame =
  pf_arguments :: "bytes list"
  pf_stdin :: bytes
  pf_code :: int
  pf_stdout :: bytes
  pf_stderr :: bytes
  pf_id :: account
  pf_depth :: u32

record event =
  ev_sequence :: u32
  ev_source :: account
  ev_name :: bytes
  ev_data :: bytes
  ev_impacted :: "account list"

record authorization =
  au_signer :: account
  au_signature :: signature

definition authorization_size :: "authorization \<Rightarrow> nat" where
  "authorization_size a = length (au_signer a) + length (au_signature a)"

record upload_program =
  up_id :: account
  up_bytecode :: bytes

record call_program =
  cp_id :: account
  cp_input :: program_input

datatype operation = Upload_program upload_program | Call_program call_program

definition upload_program_size :: "upload_program \<Rightarrow> nat" where
  "upload_program_size u = length (up_id u) + length (up_bytecode u)"

definition upload_program_validate :: "upload_program \<Rightarrow> bool" where
  "upload_program_validate u \<longleftrightarrow> account_is_program (up_id u)"

definition call_program_size :: "call_program \<Rightarrow> nat" where
  "call_program_size c =
     length (cp_id c) + sum_list (map length (pi_arguments (cp_input c))) + length (pi_stdin (cp_input c))"

definition call_program_validate :: "call_program \<Rightarrow> bool" where
  "call_program_validate c \<longleftrightarrow> account_is_program (cp_id c)"

fun operation_size :: "operation \<Rightarrow> nat" where
  "operation_size (Upload_program u) = upload_program_size u"
| "operation_size (Call_program c) = call_program_size c"

fun operation_validate :: "operation \<Rightarrow> bool" where
  "operation_validate (Upload_program u) = upload_program_validate u"
| "operation_validate (Call_program c) = call_program_validate c"

section \<open>Transactions\<close>

record transaction =
  tx_id :: digest
  tx_network_id :: digest
  tx_resource_limit :: u64
  tx_payer :: account
  tx_payee :: account
  tx_nonce :: u64
  tx_operations :: "operation list"
  tx_authorizations :: "authorization list"

record transaction_receipt =
  tr_id :: digest
  tr_reverted :: bool
  tr_payer :: account
  tr_payee :: account
  tr_frames :: "program_frame list"
  tr_resource_limit :: u64
  tr_resource_used :: u64
  tr_disk_storage_used :: u64
  tr_network_bandwidth_used :: u64
  tr_compute_bandwidth_used :: u64

definition transaction_size :: "transaction \<Rightarrow> nat" where
  "transaction_size t =
     length (tx_id t) + length (tx_network_id t) + 8 + length (tx_payer t) + length (tx_payee t) + 8
       + sum_list (map operation_size (tx_operations t))
       + length (tx_authorizations t)"

text \<open>The updates an operation makes to the running hash.\<close>

fun hash_operation :: "hasher \<Rightarrow> operation \<Rightarrow> hasher" where
  "hash_operation h (Upload_program u) = hasher_update (hasher_update h (up_id u)) (up_bytecode u)"
| "hash_operation h (Call_program c) =
     hasher_update
       (hasher_update_range (hasher_update h (cp_id c)) (pi_arguments (cp_input c)))
       (pi_stdin (cp_input c))"

definition make_transaction_id :: "(bytes \<Rightarrow> digest) \<Rightarrow> transaction \<Rightarrow> digest" where
  "make_transaction_id H t =
     (let h0 = hasher_reset;
          h1 = hasher_update h0 (tx_network_id t);
          h2 = hasher_update_u64 h1 (tx_resource_limit t);
          h3 = hasher_update h2 (tx_payer t);
          h4 = hasher_update h3 (tx_payee t);
          h5 = hasher_update_u64 h4 (tx_nonce t)
      in hasher_finalize H (foldl hash_operation h5 (tx_operations t)))"

definition transaction_validate :: "(bytes \<Rightarrow> digest) \<Rightarrow> transaction \<Rightarrow> bool" where
  "transaction_validate H t \<longleftrightarrow>
     tx_resource_limit t \<noteq> 0 \<and> make_transaction_id H t = tx_id t
     \<and> list_all operation_validate (tx_operations t)"

section \<open>Blocks\<close>

record block =
  bl_id :: digest
  bl_previous :: digest
  bl_height :: u64
  bl_timestamp :: u64
  bl_state_merkle_root :: digest
  bl_transactions :: "transaction list"
  bl_signer :: account
  bl_signature :: signature

record block_receipt =
  br_id :: digest
  br_height :: u64
  br_frames :: "program_frame list"
  br_disk_storage_used :: u64
  br_network_bandwidth_used :: u64
  br_compute_bandwidth_used :: u64
  br_state_merkle_root :: digest
  br_transaction_receipts :: "transaction_receipt list"
  br_disk_storage_charged :: u64
  br_network_bandwidth_charged :: u64
  br_compute_bandwidth_charged :: u64

definition block_size :: "block \<Rightarrow> nat" where
  "block_size b =
     length (bl_id b) + length (bl_previous b) + 8 + 8 + length (bl_state_merkle_root b)
       + sum_list (map transaction_size (bl_transactions b))
       + length (bl_signer b) + length (bl_signature b)"

definition hash_block_transaction :: "hasher \<Rightarrow> transaction \<Rightarrow> hasher" where
  "hash_block_transaction h t =
     foldl (\<lambda>h a. hasher_update h (au_signer a)) (hasher_update h (tx_id t)) (tx_authorizations t)"

definition make_block_id :: "(bytes \<Rightarrow> digest) \<Rightarrow> block \<Rightarrow> digest" where
  "make_block_id H b =
     (let h0 = hasher_reset;
          h1 = hasher_update h0 (bl_previous b);
          h2 = hasher_update_u64 h1 (bl_height b);
          h3 = hasher_update_u64 h2 (bl_timestamp b);
          h4 = hasher_update h3 (bl_state_merkle_root b);
          h5 = foldl hash_block_transaction h4 (bl_transactions b)
      in hasher_finalize H (hasher_update h5 (bl_signer b)))"

definition block_validate :: "(bytes \<Rightarrow> digest) \<Rightarrow> signature_scheme \<Rightarrow> block \<Rightarrow> bool" where
  "block_validate H sc b \<longleftrightarrow>
     bl_height b \<noteq> 0 \<and> bl_timestamp b \<noteq> 0
     \<and> make_block_id H b = bl_id b
     \<and> account_is_user (bl_signer b)
     \<and> public_key_verify sc (account_public_key (bl_signer b)) (bl_signature b) (bl_id b)
     \<and> list_all (transaction_validate H) (bl_transactions b)"

section \<open>Accounts and their views\<close>

lemma length_system_program [simp]: "length (system_program str) = 33"
  by (simp add: system_program_def Let_def)

text \<open>
  C28: The constructors give well-formed accounts of their type, with the public key they were made
  from; \<open>account::program()\<close> holds exactly of the accounts that are not user accounts, but
  \<open>account_view::program()\<close>, which tests a bit, denies it of native programs and affirms it of
  prefixes that are no account type.
\<close>

theorem account_types:
  assumes "length k = 32"
  shows "account_ok (user_account k) \<and> account_get_type (user_account k) = Account_user
       \<and> account_public_key (user_account k) = k
       \<and> account_ok (program_account k) \<and> account_get_type (program_account k) = Account_program
       \<and> account_public_key (program_account k) = k
       \<and> user_account_of (program_account k) = user_account k
       \<and> account_ok (system_program str) \<and> account_get_type (system_program str) = Account_native_program
       \<and> (account_is_program a \<longleftrightarrow> \<not> account_is_user a)
       \<and> account_is_program (system_program str) \<and> \<not> account_view_is_program (system_program str)
       \<and> account_view_is_program (3 # k) \<and> account_get_type (3 # k) = Account_invalid"
  using assms
  by (simp add: account_ok_def user_account_def program_account_def user_account_of_def account_get_type_def
      account_prefix_to_type_def account_public_key_def account_is_program_def account_is_user_def
      user_account_prefix_def program_account_prefix_def native_program_account_prefix_def
      system_program_def account_view_is_program_def Let_def unat_eq_0)

theorem account_types_witness:
  "account_get_type (user_account (replicate 32 7)) = Account_user
   \<and> \<not> account_view_is_program (system_program [99, 111, 105, 110])"
  using account_types [of "replicate 32 7" "[99, 111, 105, 110]" undefined] by simp

section \<open>What an id commits to\<close>

text \<open>The byte strings that are hashed.\<close>

fun operation_bytes :: "operation \<Rightarrow> bytes" where
  "operation_bytes (Upload_program u) = up_id u @ up_bytecode u"
| "operation_bytes (Call_program c) = cp_id c @ concat (pi_arguments (cp_input c)) @ pi_stdin (cp_input c)"

definition transaction_preimage :: "transaction \<Rightarrow> bytes" where
  "transaction_preimage t =
     tx_network_id t @ u64_bytes (tx_resource_limit t) @ tx_payer t @ tx_payee t @ u64_bytes (tx_nonce t)
       @ concat (map operation_bytes (tx_operations t))"

definition block_transaction_bytes :: "transaction \<Rightarrow> bytes" where
  "block_transaction_bytes t = tx_id t @ concat (map au_signer (tx_authorizations t))"

definition block_preimage :: "block \<Rightarrow> bytes" where
  "block_preimage b =
     bl_previous b @ u64_bytes (bl_height b) @ u64_bytes (bl_timestamp b) @ bl_state_merkle_root b
       @ concat (map block_transaction_bytes (bl_transactions b)) @ bl_signer b"

lemma hash_operation_append: "hash_operation h op = h @ operation_bytes op"
  by (cases op) (simp_all add: hasher_update_def hasher_update_range_concat)

lemma foldl_append: "(\<And>h x. f h x = h @ g x) \<Longrightarrow> foldl f h xs = h @ concat (map g xs)"
  by (induction xs arbitrary: h) simp_all

lemma make_transaction_id_preimage: "make_transaction_id H t = H (transaction_preimage t)"
  by (simp add: make_transaction_id_def Let_def hasher_reset_def hasher_update_def hasher_update_u64_def
      hasher_finalize_def transaction_preimage_def foldl_append [OF hash_operation_append])

lemma hash_block_transaction_append: "hash_block_transaction h t = h @ block_transaction_bytes t"
  by (simp add: hash_block_transaction_def hasher_update_def block_transaction_bytes_def
      foldl_append [of "\<lambda>h a. h @ au_signer a" au_signer])

lemma make_block_id_preimage: "make_block_id H b = H (block_preimage b)"
  by (simp add: make_block_id_def Let_def hasher_reset_def hasher_update_def hasher_update_u64_def
      hasher_finalize_def block_preimage_def foldl_append [OF hash_block_transaction_append])

definition transaction_ok :: "transaction \<Rightarrow> bool" where
  "transaction_ok t \<longleftrightarrow> length (tx_network_id t) = 32 \<and> account_ok (tx_payer t) \<and> account_ok (tx_payee t)"

definition block_ok :: "block \<Rightarrow> bool" where
  "block_ok b \<longleftrightarrow> length (bl_previous b) = 32 \<and> length (bl_state_merkle_root b) = 32 \<and> account_ok (bl_signer b)"

text \<open>
  C29: The id of a transaction commits to its network, resource limit, payer, payee and nonce and to the
  concatenated bytes of its operations: two transactions with the same id agree on all of these,
  or the two hashed strings are a collision of the hash.
\<close>

theorem transaction_id_binding:
  assumes "transaction_ok t" and "transaction_ok u" and "make_transaction_id H t = make_transaction_id H u"
  shows "tx_network_id t = tx_network_id u \<and> tx_resource_limit t = tx_resource_limit u
         \<and> tx_payer t = tx_payer u \<and> tx_payee t = tx_payee u \<and> tx_nonce t = tx_nonce u
         \<and> concat (map operation_bytes (tx_operations t)) = concat (map operation_bytes (tx_operations u))
       \<or> collision_between H {transaction_preimage t} {transaction_preimage u}"
proof (cases "transaction_preimage t = transaction_preimage u")
  case True
  then show ?thesis
    using assms(1,2) by (simp add: transaction_preimage_def transaction_ok_def account_ok_def)
next
  case False
  then show ?thesis
    using assms(3) by (simp add: collision_between_def make_transaction_id_preimage)
qed

definition sample_transaction :: "u64 \<Rightarrow> operation list \<Rightarrow> transaction" where
  "sample_transaction n ops =
     \<lparr>tx_id = zero_digest, tx_network_id = zero_digest, tx_resource_limit = 10, tx_payer = user_account (replicate 32 1),
      tx_payee = user_account (replicate 32 2), tx_nonce = n, tx_operations = ops, tx_authorizations = []\<rparr>"

theorem transaction_id_binding_witness:
  "collision_between (\<lambda>_. zero_digest) {transaction_preimage (sample_transaction 1 [])}
     {transaction_preimage (sample_transaction 2 [])}"
  using transaction_id_binding [of "sample_transaction 1 []" "sample_transaction 2 []" "\<lambda>_. zero_digest"]
  by (simp add: transaction_ok_def sample_transaction_def account_ok_def user_account_def make_transaction_id_preimage)

text \<open>
  C30: The id of a transaction does not frame its operations.  For every hash, uploading bytecode and
  calling the same program with that bytecode as one argument and its remainder as standard input
  have the same id, however the bytes are split, and both pass or both fail validation.
\<close>

theorem transaction_id_unframed:
  "make_transaction_id H (t\<lparr>tx_operations := [Upload_program \<lparr>up_id = a, up_bytecode = x @ y\<rparr>]\<rparr>)
     = make_transaction_id H (t\<lparr>tx_operations := [Call_program \<lparr>cp_id = a, cp_input = \<lparr>pi_arguments = [x], pi_stdin = y\<rparr>\<rparr>]\<rparr>)
   \<and> transaction_validate H (t\<lparr>tx_operations := [Upload_program \<lparr>up_id = a, up_bytecode = x @ y\<rparr>]\<rparr>)
     = transaction_validate H (t\<lparr>tx_operations := [Call_program \<lparr>cp_id = a, cp_input = \<lparr>pi_arguments = [x], pi_stdin = y\<rparr>\<rparr>]\<rparr>)"
  by (simp add: make_transaction_id_preimage transaction_preimage_def transaction_validate_def
      upload_program_validate_def call_program_validate_def)

text \<open>
  C31: A valid block is bound by its id: two valid blocks with the same id agree on the previous block,
  height, timestamp, state merkle root and signer and on the concatenated ids and signers of their
  transactions, or the two hashed strings are a collision of the hash; and each carries a signature
  of that id that verifies under the signer's key.
\<close>

theorem block_id_binding:
  assumes "block_ok b" and "block_ok c" and "block_validate H sc b" and "block_validate H sc c"
    and "bl_id b = bl_id c"
  shows "(bl_previous b = bl_previous c \<and> bl_height b = bl_height c \<and> bl_timestamp b = bl_timestamp c
          \<and> bl_state_merkle_root b = bl_state_merkle_root c \<and> bl_signer b = bl_signer c
          \<and> concat (map block_transaction_bytes (bl_transactions b)) = concat (map block_transaction_bytes (bl_transactions c))
        \<or> collision_between H {block_preimage b} {block_preimage c})
       \<and> public_key_verify sc (account_public_key (bl_signer b)) (bl_signature b) (bl_id b)
       \<and> public_key_verify sc (account_public_key (bl_signer c)) (bl_signature c) (bl_id c)"
proof (cases "block_preimage b = block_preimage c")
  case True
  then show ?thesis
    using assms(1-4) by (simp add: block_preimage_def block_ok_def account_ok_def block_validate_def)
next
  case False
  then show ?thesis
    using assms(3-5) by (auto simp: collision_between_def block_validate_def make_block_id_preimage)
qed


definition sample_scheme :: signature_scheme where
  "sample_scheme =
     \<lparr>full_key_generation = ([], []), key_generation = (\<lambda>s. s), schnorrq_sign = (\<lambda>s p d. d),
      schnorrq_verify = (\<lambda>p d s. if s = d then 1 else 0)\<rparr>"

definition sample_block :: "u64 \<Rightarrow> block" where
  "sample_block h =
     \<lparr>bl_id = zero_digest, bl_previous = zero_digest, bl_height = h, bl_timestamp = 5, bl_state_merkle_root = zero_digest,
      bl_transactions = [], bl_signer = user_account (replicate 32 1), bl_signature = zero_digest\<rparr>"

theorem block_id_binding_witness:
  "collision_between (\<lambda>_. zero_digest) {block_preimage (sample_block 1)} {block_preimage (sample_block 2)}"
  using block_id_binding [of "sample_block 1" "sample_block 2" "\<lambda>_. zero_digest" sample_scheme]
  by (simp add: block_ok_def sample_block_def account_ok_def user_account_def block_validate_def make_block_id_preimage
      account_is_user_def user_account_prefix_def public_key_verify_def sample_scheme_def)

end
