(* ===== verification/Coin.thy ===== *)
theory Coin
  imports Protocol Errors
begin

text \<open>
  The interface a program has to the node (\<open>program/system_interface.hpp\<close>) and the native coin program
  (\<open>program/coin.cpp\<close>) written against it.  The locale \<open>object_store\<close> states what the coin relies on in its
  objects; the lemmas proved in it show that the ledger is conserved: a transfer moves value, minting
  and burning change the supply by what they change balances, and the sum of all balances is always
  the supply.
\<close>

section \<open>System interface\<close>

text \<open>The enumeration has a fixed underlying type: a cast from an arbitrary number keeps that number.\<close>

datatype file_descriptor = Fd_stdin | Fd_stdout | Fd_stderr | Fd_other u32

text \<open>
  The virtual functions.  \<open>read\<close> fills a prefix of the buffer it is given; an expected value is a sum with the
  error on the left.
\<close>

record 's system_interface =
  si_arguments :: "('s, bytes list) op"
  si_write :: "file_descriptor \<Rightarrow> bytes \<Rightarrow> ('s, error_code) op"
  si_read :: "file_descriptor \<Rightarrow> bytes \<Rightarrow> ('s, bytes \<times> error_code) op"
  si_get_object :: "u32 \<Rightarrow> bytes \<Rightarrow> ('s, bytes) op"
  si_get_next_object :: "u32 \<Rightarrow> bytes \<Rightarrow> ('s, bytes \<times> bytes) op"
  si_get_prev_object :: "u32 \<Rightarrow> bytes \<Rightarrow> ('s, bytes \<times> bytes) op"
  si_put_object :: "u32 \<Rightarrow> bytes \<Rightarrow> bytes \<Rightarrow> ('s, error_code) op"
  si_remove_object :: "u32 \<Rightarrow> bytes \<Rightarrow> ('s, error_code) op"
  si_check_authority :: "account \<Rightarrow> ('s, bool result) op"
  si_get_caller :: "('s, bytes) op"
  si_call_program :: "account \<Rightarrow> bytes \<Rightarrow> bytes list \<Rightarrow> ('s, program_output result) op"

section \<open>The coin program\<close>

definition string_bytes :: "string \<Rightarrow> bytes" where
  "string_bytes s = map (\<lambda>c. of_char c) s"

definition coin_name :: string where
  "coin_name = ''Coin''"

definition coin_symbol :: string where
  "coin_symbol = ''COIN''"

definition coin_decimals :: u32 where
  "coin_decimals = 8"

definition supply_id :: u32 where
  "supply_id = 0"

definition balance_id :: u32 where
  "balance_id = 1"

datatype instruction =
    Instr_authorize | Instr_name | Instr_symbol | Instr_decimals | Instr_total_supply | Instr_balance_of
  | Instr_transfer | Instr_mint | Instr_burn

definition instruction_of :: "u32 \<Rightarrow> instruction option" where
  "instruction_of i =
     (if i = 0 then Some Instr_authorize else if i = 1 then Some Instr_name else if i = 2 then Some Instr_symbol
      else if i = 3 then Some Instr_decimals else if i = 4 then Some Instr_total_supply
      else if i = 5 then Some Instr_balance_of else if i = 6 then Some Instr_transfer
      else if i = 7 then Some Instr_mint else if i = 8 then Some Instr_burn else None)"

text \<open>The value of a stored counter: 0 without an object, and an assertion on its size.\<close>

definition stored_u64 :: "bytes \<Rightarrow> u64 outcome" where
  "stored_u64 object =
     (if object = [] then Returned 0
      else if length object \<noteq> 8 then Threw Assertion_failed
      else bit_cast_u64 object)"

definition total_supply :: "'s system_interface \<Rightarrow> ('s, u64) op" where
  "total_supply sys = andThen (si_get_object sys supply_id []) (\<lambda>object. readsE (\<lambda>_. stored_u64 object))"

definition balance_of :: "'s system_interface \<Rightarrow> bytes \<Rightarrow> ('s, u64) op" where
  "balance_of sys account = andThen (si_get_object sys balance_id account) (\<lambda>object. readsE (\<lambda>_. stored_u64 object))"

text \<open>
  Reading into a local variable: the argument is what the variable holds before.  The error code is ignored.
\<close>

definition read_stdin :: "'s system_interface \<Rightarrow> bytes \<Rightarrow> ('s, bytes) op" where
  "read_stdin sys buffer = andThen (si_read sys Fd_stdin buffer) (\<lambda>(buffer', _). returns buffer')"

definition read_u64 :: "'s system_interface \<Rightarrow> ('s, u64) op" where
  "read_u64 sys = andThen (read_stdin sys (u64_bytes 0)) (\<lambda>bs. returns (u64_of_bytes bs))"

definition write_stdout :: "'s system_interface \<Rightarrow> bytes \<Rightarrow> ('s, error_code) op" where
  "write_stdout sys bs = andThen (si_write sys Fd_stdout bs) (\<lambda>_. returns (program_error Program_ok))"

text \<open>
  The test \<open>!equal( from, caller ) && !system->check_authority( from )\<close>: the negation applies to the \<open>expected\<close>
  object, so it asks whether the check failed with an error and not for its answer.
\<close>

definition unauthorized :: "'s system_interface \<Rightarrow> account \<Rightarrow> bytes \<Rightarrow> ('s, bool) op" where
  "unauthorized sys from caller =
     (if from = caller then returns False
      else andThen (si_check_authority sys from) (\<lambda>r. returns (case r of Inl e \<Rightarrow> True | Inr b \<Rightarrow> False)))"

text \<open>
  The account variables have no initialiser; \<open>junk\<close> is what the stack holds there.
\<close>

definition coin_transfer :: "(nat \<Rightarrow> account) \<Rightarrow> 's system_interface \<Rightarrow> ('s, error_code) op" where
  "coin_transfer junk sys =
     andThen (read_stdin sys (junk 0)) (\<lambda>from.
     andThen (read_stdin sys (junk 1)) (\<lambda>to.
     andThen (read_u64 sys) (\<lambda>val.
     if from = to then returns (program_error Program_invalid_argument)
     else
       andThen (si_get_caller sys) (\<lambda>caller.
       andThen (unauthorized sys from caller) (\<lambda>refused.
       if refused then returns (program_error Program_unauthorized)
       else
         andThen (balance_of sys from) (\<lambda>from_balance.
         if from_balance < val then returns (program_error Program_insufficient_balance)
         else
           andThen (balance_of sys to) (\<lambda>to_balance.
           andThen (si_put_object sys balance_id from (u64_bytes (from_balance - val))) (\<lambda>_.
           andThen (si_put_object sys balance_id to (u64_bytes (to_balance + val))) (\<lambda>_.
           returns (program_error Program_ok))))))))))"

definition coin_mint :: "(nat \<Rightarrow> account) \<Rightarrow> 's system_interface \<Rightarrow> ('s, error_code) op" where
  "coin_mint junk sys =
     andThen (read_stdin sys (junk 0)) (\<lambda>to.
     andThen (read_u64 sys) (\<lambda>val.
     andThen (total_supply sys) (\<lambda>supply.
     if u64_max - val < supply then returns (program_error Program_overflow)
     else
       andThen (balance_of sys to) (\<lambda>to_balance.
       andThen (si_put_object sys supply_id [] (u64_bytes (supply + val))) (\<lambda>_.
       andThen (si_put_object sys balance_id to (u64_bytes (to_balance + val))) (\<lambda>_.
       returns (program_error Program_ok)))))))"

definition coin_burn :: "(nat \<Rightarrow> account) \<Rightarrow> 's system_interface \<Rightarrow> ('s, error_code) op" where
  "coin_burn junk sys =
     andThen (read_stdin sys (junk 0)) (\<lambda>from.
     andThen (read_u64 sys) (\<lambda>val.
     andThen (si_get_caller sys) (\<lambda>caller.
     andThen (unauthorized sys from caller) (\<lambda>refused.
     if refused then returns (program_error Program_unauthorized)
     else
       andThen (balance_of sys from) (\<lambda>from_balance.
       if from_balance < val then returns (program_error Program_insufficient_balance)
       else
         andThen (total_supply sys) (\<lambda>supply.
         if supply < val then returns (program_error Program_insufficient_supply)
         else
           andThen (si_put_object sys supply_id [] (u64_bytes (supply - val))) (\<lambda>_.
           andThen (si_put_object sys balance_id from (u64_bytes (from_balance - val))) (\<lambda>_.
           returns (program_error Program_ok)))))))))"

definition coin_run :: "(nat \<Rightarrow> account) \<Rightarrow> 's system_interface \<Rightarrow> bytes list \<Rightarrow> ('s, error_code) op" where
  "coin_run junk sys arguments =
     andThen (read_stdin sys (u32_bytes 0)) (\<lambda>i.
     case instruction_of (u32_of_bytes i) of
       None \<Rightarrow> returns (program_error Program_invalid_instruction)
     | Some Instr_authorize \<Rightarrow> write_stdout sys [0]
     | Some Instr_name \<Rightarrow> write_stdout sys (string_bytes coin_name)
     | Some Instr_symbol \<Rightarrow> write_stdout sys (string_bytes coin_symbol)
     | Some Instr_decimals \<Rightarrow> write_stdout sys (u32_bytes coin_decimals)
     | Some Instr_total_supply \<Rightarrow> andThen (total_supply sys) (\<lambda>supply. write_stdout sys (u64_bytes supply))
     | Some Instr_balance_of \<Rightarrow>
         andThen (read_stdin sys (junk 0)) (\<lambda>account.
         andThen (balance_of sys account) (\<lambda>balance. write_stdout sys (u64_bytes balance)))
     | Some Instr_transfer \<Rightarrow> coin_transfer junk sys
     | Some Instr_mint \<Rightarrow> coin_mint junk sys
     | Some Instr_burn \<Rightarrow> coin_burn junk sys)"

text \<open>The test does not depend on the answer of \<open>check_authority\<close>: an account that refuses its authority is treated as one that grants it.\<close>

lemma unauthorized_ignores_answer:
  "from \<noteq> caller \<Longrightarrow> si_check_authority sys from s = (Returned (Inr answer), s') \<Longrightarrow>
    unauthorized sys from caller s = (Returned False, s')"
  by (simp add: unauthorized_def op_defs)

section \<open>Running on a system that keeps an invariant\<close>

text \<open>
  A system whose calls keep an invariant and respect a relation; the account given to \<open>check_authority\<close> has the
  size of an account.
\<close>

locale upholding_system =
  fixes sys :: "'s system_interface" and P :: "'s \<Rightarrow> bool" and R :: "'s \<Rightarrow> 's \<Rightarrow> bool"
  assumes rel: "preorder_rel R"
    and arguments: "upholds P R (si_arguments sys)"
    and io: "upholds P R (si_write sys fd bs)" "upholds P R (si_read sys fd bs)"
    and read_length: "P s \<Longrightarrow> si_read sys fd bs s = (Returned (bs', e), s') \<Longrightarrow> length bs' = length bs"
    and objects: "upholds P R (si_get_object sys i k)" "upholds P R (si_put_object sys i k v)"
    and authority: "length a = 33 \<Longrightarrow> upholds P R (si_check_authority sys a)"
    and caller: "upholds P R (si_get_caller sys)"
begin

lemmas system_rules = upholds_simple [OF rel] upholds_andThen [OF rel] upholds_cases io objects caller

lemma stored_u64_upholds: "upholds P R (readsE (\<lambda>_. stored_u64 v))"
  by (intro system_rules) (auto simp: stored_u64_def bit_cast_u64_def)

lemma counters_uphold: "upholds P R (total_supply sys)" "upholds P R (balance_of sys a)"
  unfolding total_supply_def balance_of_def by (intro system_rules stored_u64_upholds)+

lemma read_stdin_upholds: "upholds P R (read_stdin sys bs)"
  unfolding read_stdin_def by (intro system_rules)

lemma read_stdin_length:
  "P s \<Longrightarrow> read_stdin sys bs s = (Returned x, s') \<Longrightarrow> length x = length bs"
  using read_length by (auto simp: read_stdin_def op_defs split: prod.splits outcome.splits)

lemma with_account:
  assumes "length junk = 33" and "\<And>a. length a = 33 \<Longrightarrow> upholds P R (f a)"
  shows "upholds P R (andThen (read_stdin sys junk) f)"
  by (rule upholds_andThen_result [OF rel read_stdin_upholds, where C = "\<lambda>a. length a = 33"])
    (use assms read_stdin_length in auto)

lemma read_u64_upholds: "upholds P R (read_u64 sys)"
  unfolding read_u64_def by (intro system_rules read_stdin_upholds)

lemma write_stdout_upholds: "upholds P R (write_stdout sys bs)"
  unfolding write_stdout_def by (intro system_rules)

lemma unauthorized_upholds: "length a = 33 \<Longrightarrow> upholds P R (unauthorized sys a b)"
  unfolding unauthorized_def by (intro system_rules authority)

lemma coin_run_upholds:
  assumes "\<And>i. length (junk i) = 33"
  shows "upholds P R (coin_run junk sys args)"
proof -
  have "upholds P R (coin_transfer junk sys)"
    unfolding coin_transfer_def
    by (intro with_account assms read_u64_upholds system_rules unauthorized_upholds counters_uphold; assumption)
  moreover have "upholds P R (coin_mint junk sys)"
    unfolding coin_mint_def by (intro with_account assms read_u64_upholds system_rules counters_uphold)
  moreover have "upholds P R (coin_burn junk sys)"
    unfolding coin_burn_def
    by (intro with_account assms read_u64_upholds system_rules unauthorized_upholds counters_uphold; assumption)
  moreover have "upholds P R (andThen (total_supply sys) (\<lambda>supply. write_stdout sys (u64_bytes supply)))"
    "upholds P R (andThen (read_stdin sys (junk 0)) (\<lambda>a. andThen (balance_of sys a) (\<lambda>b. write_stdout sys (u64_bytes b))))"
    by (intro system_rules read_stdin_upholds counters_uphold write_stdout_upholds)+
  ultimately show ?thesis
    unfolding coin_run_def
    by (intro upholds_andThen [OF rel] read_stdin_upholds)
      (auto intro: write_stdout_upholds upholds_simple [OF rel] split: option.split instruction.split)
qed

end

section \<open>The ledger\<close>

text \<open>
  The abstract specification of the coin program: a supply and the balances, and three steps with
  their guards.
\<close>

record ledger =
  lg_supply :: u64
  lg_balance :: "account \<Rightarrow> u64"

datatype coin_step = Step_none | Step_transfer account account u64 | Step_mint account u64 | Step_burn account u64

fun step_guard :: "coin_step \<Rightarrow> ledger \<Rightarrow> bool" where
  "step_guard Step_none l \<longleftrightarrow> True"
| "step_guard (Step_transfer from to v) l \<longleftrightarrow> length from = 33 \<and> length to = 33 \<and> from \<noteq> to \<and> v \<le> lg_balance l from"
| "step_guard (Step_mint to v) l \<longleftrightarrow> length to = 33 \<and> lg_supply l \<le> u64_max - v"
| "step_guard (Step_burn from v) l \<longleftrightarrow> length from = 33 \<and> v \<le> lg_balance l from \<and> v \<le> lg_supply l"

fun step_ledger :: "coin_step \<Rightarrow> ledger \<Rightarrow> ledger" where
  "step_ledger Step_none l = l"
| "step_ledger (Step_transfer from to v) l =
     l\<lparr>lg_balance := (lg_balance l)(from := lg_balance l from - v, to := lg_balance l to + v)\<rparr>"
| "step_ledger (Step_mint to v) l =
     \<lparr>lg_supply = lg_supply l + v, lg_balance = (lg_balance l)(to := lg_balance l to + v)\<rparr>"
| "step_ledger (Step_burn from v) l =
     \<lparr>lg_supply = lg_supply l - v, lg_balance = (lg_balance l)(from := lg_balance l from - v)\<rparr>"

definition ledger_total :: "ledger \<Rightarrow> nat" where
  "ledger_total l = (\<Sum>a | length a = 33. unat (lg_balance l a))"

text \<open>Every coin of the supply is on one account.\<close>

definition ledger_inv :: "ledger \<Rightarrow> bool" where
  "ledger_inv l \<longleftrightarrow> ledger_total l = unat (lg_supply l)"

lemma finite_accounts [simp]: "finite {a :: account. length a = 33}"
  using finite_lists_length_eq [of "UNIV :: u8 set" 33] by simp

lemma total_update:
  fixes f :: "account \<Rightarrow> u64"
  assumes "length a = 33"
  shows "(\<Sum>b | length b = 33. unat ((f(a := v)) b)) + unat (f a) = (\<Sum>b | length b = 33. unat (f b)) + unat v"
proof -
  have a: "a \<in> {b :: account. length b = 33}" using assms by simp
  have "(\<Sum>b \<in> {b. length b = 33} - {a}. unat ((f(a := v)) b)) = (\<Sum>b \<in> {b. length b = 33} - {a}. unat (f b))"
    by (rule sum.cong) auto
  then show ?thesis
    using sum.remove [OF finite_accounts a, of "\<lambda>b. unat ((f(a := v)) b)"] sum.remove [OF finite_accounts a, of "\<lambda>b. unat (f b)"]
    by simp
qed

lemma balance_le_total: "length a = 33 \<Longrightarrow> unat (lg_balance l a) \<le> ledger_total l"
  unfolding ledger_total_def by (rule member_le_sum) simp_all

lemma balances_le_total:
  assumes "length a = 33" and "length b = 33" and "a \<noteq> b"
  shows "unat (lg_balance l a) + unat (lg_balance l b) \<le> ledger_total l"
proof -
  have "(\<Sum>c \<in> {a, b}. unat (lg_balance l c)) \<le> ledger_total l"
    unfolding ledger_total_def using assms by (intro sum_mono2) auto
  then show ?thesis using assms(3) by simp
qed

lemma unat_add_small: "unat (x :: u64) + unat y < 2 ^ 64 \<Longrightarrow> unat (x + y) = unat x + unat y"
  by (simp add: unat_add_lem [symmetric])

lemma unat_diff_small: "y \<le> (x :: u64) \<Longrightarrow> unat (x - y) = unat x - unat y"
  by (simp add: unat_sub_if' word_le_nat_alt)

lemma step_ledger_inv:
  assumes "ledger_inv l" and "step_guard st l"
  shows "ledger_inv (step_ledger st l)"
proof (cases st)
  case Step_none
  then show ?thesis using assms(1) by simp
next
  case (Step_transfer x y v)
  let ?f = "(lg_balance l)(x := lg_balance l x - v)"
  have g: "length x = 33" "length y = 33" "x \<noteq> y" "v \<le> lg_balance l x" using assms(2) Step_transfer by simp_all
  have "unat (lg_balance l y) + unat v < 2 ^ 64"
    using balances_le_total [OF g(1-3), of l] assms(1) g(4) unat_u64_less [of "lg_supply l"]
    by (simp add: ledger_inv_def word_le_nat_alt)
  then show ?thesis
    using total_update [OF g(1), of "lg_balance l" "lg_balance l x - v"] total_update [OF g(2), of ?f "lg_balance l y + v"]
      g assms(1) Step_transfer
    by (simp add: ledger_inv_def ledger_total_def unat_add_small unat_diff_small word_le_nat_alt)
next
  case (Step_mint y v)
  have g: "length y = 33" "lg_supply l \<le> u64_max - v" using assms(2) Step_mint by simp_all
  have "unat (lg_supply l) + unat v < 2 ^ 64"
    using g(2) unat_u64_less [of v] by (simp add: word_le_nat_alt unat_sub_if')
  then show ?thesis
    using total_update [OF g(1), of "lg_balance l" "lg_balance l y + v"] balance_le_total [OF g(1), of l] assms(1) Step_mint
    by (simp add: ledger_inv_def ledger_total_def unat_add_small)
next
  case (Step_burn x v)
  have g: "length x = 33" "v \<le> lg_balance l x" "v \<le> lg_supply l" using assms(2) Step_burn by simp_all
  then show ?thesis
    using total_update [OF g(1), of "lg_balance l" "lg_balance l x - v"] assms(1) Step_burn
    by (simp add: ledger_inv_def ledger_total_def unat_diff_small word_le_nat_alt)
qed

text \<open>The ledger that a store of objects holds.\<close>

definition counter_value :: "bytes \<Rightarrow> u64" where
  "counter_value bs = (if bs = [] then 0 else u64_of_bytes bs)"

definition ledger_of :: "(u32 \<Rightarrow> bytes \<Rightarrow> bytes) \<Rightarrow> ledger" where
  "ledger_of objects =
     \<lparr>lg_supply = counter_value (objects supply_id []),
      lg_balance = (\<lambda>a. if length a = 33 then counter_value (objects balance_id a) else 0)\<rparr>"

lemma counter_bytes [simp]: "counter_value (u64_bytes x) = x"
  by (simp add: counter_value_def) (metis length_0_conv length_u64_bytes zero_neq_numeral)

lemma stored_counter: "stored_u64 bs = Returned x \<Longrightarrow> x = counter_value bs"
  by (auto simp: stored_u64_def counter_value_def bit_cast_u64_def split: if_splits)

text \<open>One step of the specification, none when an error is reported.\<close>

definition coin_steps :: "ledger \<Rightarrow> error_code \<Rightarrow> (u32 \<Rightarrow> bytes \<Rightarrow> bytes) \<Rightarrow> bool" where
  "coin_steps l e h \<longleftrightarrow> (\<exists>st. step_guard st l \<and> ledger_of h = step_ledger st l \<and> (is_error e \<longrightarrow> st = Step_none))"

lemma coin_steps_none: "ledger_of h = l \<Longrightarrow> coin_steps l e h"
  unfolding coin_steps_def by (auto intro!: exI [of _ Step_none])

lemma coin_steps_ok: "step_guard st l \<Longrightarrow> ledger_of h = step_ledger st l \<Longrightarrow> coin_steps l (program_error Program_ok) h"
  unfolding coin_steps_def by (auto simp: program_error_def is_error_def)

lemma transfer_ledger:
  assumes "length x = 33" and "length y = 33" and "x \<noteq> y"
    and "h1 balance_id x = u64_bytes u" and "\<And>j l. l \<noteq> x \<Longrightarrow> h1 j l = h j l"
    and "h2 balance_id y = u64_bytes w" and "\<And>j l. l \<noteq> y \<Longrightarrow> h2 j l = h1 j l"
  shows "ledger_of h2 = (ledger_of h)\<lparr>lg_balance := (lg_balance (ledger_of h))(x := u, y := w)\<rparr>"
proof -
  have "[] \<noteq> x" "[] \<noteq> y" using assms(1,2) by auto
  then show ?thesis using assms by (auto simp: ledger_of_def fun_eq_iff)
qed

lemma supply_ledger:
  assumes "length y = 33" and "h1 supply_id [] = u64_bytes u" and "\<And>j l. l \<noteq> [] \<Longrightarrow> h1 j l = h j l"
    and "h2 balance_id y = u64_bytes w" and "\<And>j l. l \<noteq> y \<Longrightarrow> h2 j l = h1 j l"
  shows "ledger_of h2 = \<lparr>lg_supply = u, lg_balance = (lg_balance (ledger_of h))(y := w)\<rparr>"
proof -
  have "[] \<noteq> y" using assms(1) by auto
  moreover have "h1 j c = h j c" if "length c = 33" for j c using that by (intro assms(3)) auto
  ultimately show ?thesis using assms by (auto simp: ledger_of_def fun_eq_iff)
qed

text \<open>
  A system as the coin program relies on it: its objects by id and key, and the rest of its input.  A write may
  also show under other ids of the same key, never under other keys; no other call changes an object.
\<close>

locale object_store =
  fixes sys :: "'s system_interface" and P :: "'s \<Rightarrow> bool" and obj :: "'s \<Rightarrow> u32 \<Rightarrow> bytes \<Rightarrow> bytes"
  assumes get_object: "P s \<Longrightarrow> si_get_object sys i k s = (Returned v, s') \<Longrightarrow> P s' \<and> obj s' = obj s \<and> v = obj s i k"
    and put_object: "P s \<Longrightarrow> si_put_object sys i k v s = (Returned e, s') \<Longrightarrow>
        P s' \<and> obj s' i k = v \<and> (\<forall>j l. l \<noteq> k \<longrightarrow> obj s' j l = obj s j l)"
    and read_input: "P s \<Longrightarrow> si_read sys fd bs s = (Returned (bs', e), s') \<Longrightarrow> P s' \<and> obj s' = obj s \<and> length bs' = length bs"
    and write_output: "P s \<Longrightarrow> si_write sys fd bs s = (Returned e, s') \<Longrightarrow> P s' \<and> obj s' = obj s"
    and get_caller: "P s \<Longrightarrow> si_get_caller sys s = (Returned bs, s') \<Longrightarrow> P s' \<and> obj s' = obj s"
    and check_authority: "P s \<Longrightarrow> length a = 33 \<Longrightarrow> si_check_authority sys a s = (Returned r, s') \<Longrightarrow> P s' \<and> obj s' = obj s"
begin

text \<open>A call that shows only the ledger.\<close>

definition quiet :: "('s, 'x) op \<Rightarrow> bool" where
  "quiet m \<longleftrightarrow> (\<forall>s x s'. P s \<longrightarrow> m s = (Returned x, s') \<longrightarrow> P s' \<and> obj s' = obj s)"

lemma quietD: "quiet m \<Longrightarrow> P s \<Longrightarrow> m s = (Returned x, s') \<Longrightarrow> P s' \<and> obj s' = obj s"
  by (auto simp: quiet_def)

lemma quiet_andThen:
  assumes "quiet m" and "\<And>y. quiet (f y)"
  shows "quiet (andThen m f)"
  unfolding quiet_def
proof (intro allI impI)
  fix s x s'
  assume "P s" and "andThen m f s = (Returned x, s')"
  then obtain y s1 where "m s = (Returned y, s1)" "f y s1 = (Returned x, s')" by (auto simp: andThen_Returned_iff)
  then show "P s' \<and> obj s' = obj s" using quietD [OF assms(1) \<open>P s\<close>] quietD [OF assms(2)] by metis
qed

lemma quiet_simple:
  "quiet (returns x)" "quiet (readsE g)" "(\<And>a b. quiet (h a b)) \<Longrightarrow> quiet (case p of (a, b) \<Rightarrow> h a b)"
  by (auto simp: quiet_def op_defs split: prod.splits outcome.splits)

lemmas quiet_rules = quiet_simple quiet_andThen

lemma quiet_system:
  "quiet (si_get_object sys i k)" "quiet (si_read sys fd bs)" "quiet (si_write sys fd bs)" "quiet (si_get_caller sys)"
proof -
  show "quiet (si_get_object sys i k)" unfolding quiet_def using get_object by blast
  show "quiet (si_read sys fd bs)" unfolding quiet_def using read_input by (metis surj_pair)
  show "quiet (si_write sys fd bs)" unfolding quiet_def using write_output by blast
  show "quiet (si_get_caller sys)" unfolding quiet_def using get_caller by blast
qed

lemma quiet_calls:
  "quiet (read_stdin sys bs)" "quiet (read_u64 sys)" "quiet (write_stdout sys bs)"
  "quiet (total_supply sys)" "quiet (balance_of sys a)"
  unfolding read_stdin_def read_u64_def write_stdout_def total_supply_def balance_of_def
  by (intro quiet_rules quiet_system)+

lemma unauthorized_quiet:
  assumes "length a = 33"
  shows "quiet (unauthorized sys a c)"
proof -
  have "quiet (si_check_authority sys a)" unfolding quiet_def using check_authority [OF _ assms] by blast
  then show ?thesis unfolding unauthorized_def by (simp add: quiet_rules)
qed

lemma counters:
  "P s \<Longrightarrow> total_supply sys s = (Returned x, s') \<Longrightarrow> x = lg_supply (ledger_of (obj s))"
  "P s \<Longrightarrow> length a = 33 \<Longrightarrow> balance_of sys a s = (Returned x, s') \<Longrightarrow> x = lg_balance (ledger_of (obj s)) a"
  using get_object [of s] stored_counter
  by (auto simp: total_supply_def balance_of_def ledger_of_def op_defs split: prod.splits outcome.splits; blast)+

lemma read_stdin_account:
  "P s \<Longrightarrow> length bs = 33 \<Longrightarrow> read_stdin sys bs s = (Returned a, s') \<Longrightarrow> length a = 33"
  using read_input by (auto simp: read_stdin_def op_defs split: prod.splits outcome.splits)

text \<open>What holds when a computation returns that starts with the objects \<open>h\<close>, and the rules for the calls of the program.\<close>

definition leads :: "('s, 'x) op \<Rightarrow> (u32 \<Rightarrow> bytes \<Rightarrow> bytes) \<Rightarrow> ('x \<Rightarrow> (u32 \<Rightarrow> bytes \<Rightarrow> bytes) \<Rightarrow> bool) \<Rightarrow> bool" where
  "leads m h Q \<longleftrightarrow> (\<forall>s x s'. P s \<longrightarrow> obj s = h \<longrightarrow> m s = (Returned x, s') \<longrightarrow> P s' \<and> Q x (obj s'))"

lemma leadsD: "leads m h Q \<Longrightarrow> P s \<Longrightarrow> obj s = h \<Longrightarrow> m s = (Returned x, s') \<Longrightarrow> P s' \<and> Q x (obj s')"
  by (auto simp: leads_def)

lemma leads_quiet:
  assumes "quiet m" and "\<And>s x s'. P s \<Longrightarrow> obj s = h \<Longrightarrow> m s = (Returned x, s') \<Longrightarrow> C x" and "\<And>x. C x \<Longrightarrow> leads (f x) h Q"
  shows "leads (andThen m f) h Q"
  unfolding leads_def
proof (intro allI impI)
  fix s x s'
  assume s: "P s" "obj s = h" and "andThen m f s = (Returned x, s')"
  then obtain y s1 where y: "m s = (Returned y, s1)" "f y s1 = (Returned x, s')" by (auto simp: andThen_Returned_iff)
  have "P s1" "obj s1 = h" using quietD [OF assms(1) s(1) y(1)] s(2) by simp_all
  then show "P s' \<and> Q x (obj s')" using leadsD [OF assms(3) [OF assms(2) [OF s y(1)]] _ _ y(2)] by blast
qed

lemma leads_put:
  assumes "\<And>e h'. h' i k = v \<Longrightarrow> (\<And>j l. l \<noteq> k \<Longrightarrow> h' j l = h j l) \<Longrightarrow> leads (f e) h' Q"
  shows "leads (andThen (si_put_object sys i k v) f) h Q"
  unfolding leads_def
proof (intro allI impI)
  fix s x s'
  assume s: "P s" "obj s = h" and "andThen (si_put_object sys i k v) f s = (Returned x, s')"
  then obtain e s1 where e: "si_put_object sys i k v s = (Returned e, s1)" "f e s1 = (Returned x, s')"
    by (auto simp: andThen_Returned_iff)
  note p = put_object [OF s(1) e(1)]
  have "leads (f e) (obj s1) Q" using p s(2) by (intro assms) auto
  from leadsD [OF this conjunct1 [OF p] refl e(2)] show "P s' \<and> Q x (obj s')" .
qed

lemma leads_returns: "Q x h \<Longrightarrow> leads (returns x) h Q"
  by (auto simp: leads_def op_defs)

lemma leads_if: "(b \<Longrightarrow> leads m h Q) \<Longrightarrow> (\<not> b \<Longrightarrow> leads n h Q) \<Longrightarrow> leads (if b then m else n) h Q"
  by simp

lemma leads_account:
  "length bs = 33 \<Longrightarrow> (\<And>a. length a = 33 \<Longrightarrow> leads (f a) h Q) \<Longrightarrow> leads (andThen (read_stdin sys bs) f) h Q"
  by (rule leads_quiet [OF quiet_calls(1)]) (erule read_stdin_account)

lemma leads_calls:
  "(\<And>x. leads (f x) h Q) \<Longrightarrow> leads (andThen (read_stdin sys bs) f) h Q"
  "(\<And>x. leads (g x) h Q) \<Longrightarrow> leads (andThen (read_u64 sys) g) h Q"
  "(\<And>x. leads (f x) h Q) \<Longrightarrow> leads (andThen (si_get_caller sys) f) h Q"
  "leads (g (lg_supply (ledger_of h))) h Q \<Longrightarrow> leads (andThen (total_supply sys) g) h Q"
  "length a = 33 \<Longrightarrow> leads (g (lg_balance (ledger_of h) a)) h Q \<Longrightarrow> leads (andThen (balance_of sys a) g) h Q"
  "length a = 33 \<Longrightarrow> (\<And>x. leads (k x) h Q) \<Longrightarrow> leads (andThen (unauthorized sys a c) k) h Q"
proof -
  show "leads (andThen (read_stdin sys bs) f) h Q" if "\<And>x. leads (f x) h Q"
    by (rule leads_quiet [OF quiet_calls(1) TrueI that])
  show "leads (andThen (read_u64 sys) g) h Q" if "\<And>x. leads (g x) h Q"
    by (rule leads_quiet [OF quiet_calls(2) TrueI that])
  show "leads (andThen (si_get_caller sys) f) h Q" if "\<And>x. leads (f x) h Q"
    by (rule leads_quiet [OF quiet_system(4) TrueI that])
  show "leads (andThen (total_supply sys) g) h Q" if "leads (g (lg_supply (ledger_of h))) h Q"
    using that counters(1)
    by (intro leads_quiet [OF quiet_calls(4), where C = "\<lambda>x. x = lg_supply (ledger_of h)"]) auto
  show "leads (andThen (balance_of sys a) g) h Q" if "length a = 33" "leads (g (lg_balance (ledger_of h) a)) h Q"
    using that counters(2)
    by (intro leads_quiet [OF quiet_calls(5), where C = "\<lambda>x. x = lg_balance (ledger_of h) a"]) auto
  show "leads (andThen (unauthorized sys a c) k) h Q" if "length a = 33" "\<And>x. leads (k x) h Q"
    by (rule leads_quiet [OF unauthorized_quiet [OF that(1)] TrueI that(2)])
qed

lemma coin_transfer_leads:
  assumes "\<And>i. length (junk i) = 33"
  shows "leads (coin_transfer junk sys) h (coin_steps (ledger_of h))"
  unfolding coin_transfer_def
  apply (intro leads_account leads_calls(2-) leads_if leads_put leads_returns assms; (assumption | rule coin_steps_none [OF refl])?)
  subgoal for x y v c r e h1 e' h2
    by (rule coin_steps_ok [of "Step_transfer x y v"]) (auto simp: transfer_ledger [of x y h1 _ h h2])
  done

lemma coin_mint_leads:
  assumes "\<And>i. length (junk i) = 33"
  shows "leads (coin_mint junk sys) h (coin_steps (ledger_of h))"
  unfolding coin_mint_def
  apply (intro leads_account leads_calls(2-) leads_if leads_put leads_returns assms; (assumption | rule coin_steps_none [OF refl])?)
  subgoal for y v e h1 e' h2
    by (rule coin_steps_ok [of "Step_mint y v"]) (auto simp: supply_ledger [of y h1 _ h h2])
  done

lemma coin_burn_leads:
  assumes "\<And>i. length (junk i) = 33"
  shows "leads (coin_burn junk sys) h (coin_steps (ledger_of h))"
  unfolding coin_burn_def
  apply (intro leads_account leads_calls(2-) leads_if leads_put leads_returns assms; (assumption | rule coin_steps_none [OF refl])?)
  subgoal for x v c r e h1 e' h2
    by (rule coin_steps_ok [of "Step_burn x v"]) (auto simp: supply_ledger [of x h1 _ h h2])
  done

lemma write_stdout_leads: "leads (write_stdout sys bs) h (coin_steps (ledger_of h))"
  using quietD [OF quiet_calls(3)] unfolding leads_def by (metis coin_steps_none)

lemma coin_run_leads:
  assumes "\<And>i. length (junk i) = 33"
  shows "leads (coin_run junk sys args) h (coin_steps (ledger_of h))"
  unfolding coin_run_def
proof (rule leads_calls(1))
  fix i
  show "leads (case instruction_of (u32_of_bytes i) of
       None \<Rightarrow> returns (program_error Program_invalid_instruction)
     | Some Instr_authorize \<Rightarrow> write_stdout sys [0]
     | Some Instr_name \<Rightarrow> write_stdout sys (string_bytes coin_name)
     | Some Instr_symbol \<Rightarrow> write_stdout sys (string_bytes coin_symbol)
     | Some Instr_decimals \<Rightarrow> write_stdout sys (u32_bytes coin_decimals)
     | Some Instr_total_supply \<Rightarrow> andThen (total_supply sys) (\<lambda>supply. write_stdout sys (u64_bytes supply))
     | Some Instr_balance_of \<Rightarrow>
         andThen (read_stdin sys (junk 0)) (\<lambda>account.
         andThen (balance_of sys account) (\<lambda>balance. write_stdout sys (u64_bytes balance)))
     | Some Instr_transfer \<Rightarrow> coin_transfer junk sys
     | Some Instr_mint \<Rightarrow> coin_mint junk sys
     | Some Instr_burn \<Rightarrow> coin_burn junk sys) h (coin_steps (ledger_of h))"
    using coin_transfer_leads [OF assms] coin_mint_leads [OF assms] coin_burn_leads [OF assms]
    by (cases "instruction_of (u32_of_bytes i)")
      (auto intro!: leads_returns coin_steps_none write_stdout_leads leads_calls(4,5) leads_account assms split: instruction.split)
qed

end

end
