(* ===== verification/Host_Api.thy ===== *)
theory Host_Api
  imports Virtual_Machine Coin
begin

text \<open>
  The host interface of the node (\<open>controller/host_api.cpp\<close>): how the calls of a WebAssembly program reach the
  system interface.  Pointers are offsets into the memory of the program; an access outside of it is
  undefined behaviour.  The lemmas show that a host call respects whatever the system interface
  respects, and what a call can do to the memory of the program.
\<close>

section \<open>Access to the memory of the program\<close>

definition guest_host :: "('s, 'a) op \<Rightarrow> (bytes \<times> 's, 'a) op" where
  "guest_host m g = (case m (snd g) of (r, s) \<Rightarrow> (r, fst g, s))"

definition guest_load :: "nat \<Rightarrow> nat \<Rightarrow> (bytes \<times> 's, bytes) op" where
  "guest_load a n = readsE (\<lambda>g. load_bytes a n (fst g))"

definition guest_load_u32 :: "nat \<Rightarrow> (bytes \<times> 's, u32) op" where
  "guest_load_u32 a = readsE (\<lambda>g. load_u32 a (fst g))"

definition guest_store :: "nat \<Rightarrow> bytes \<Rightarrow> (bytes \<times> 's, unit) op" where
  "guest_store a bs g =
     (case store_bytes a bs (fst g) of Returned mem \<Rightarrow> (Returned (), mem, snd g) | Threw e \<Rightarrow> (Threw e, g))"

definition guest_store_u32 :: "nat \<Rightarrow> u32 \<Rightarrow> (bytes \<times> 's, unit) op" where
  "guest_store_u32 a x = guest_store a (u32_bytes x)"

section \<open>The calls\<close>

text \<open>The index into \<open>argv\<close> is never advanced, and its final value 0 is what \<open>argc\<close> receives.\<close>

fun args_get_loop :: "nat \<Rightarrow> nat \<Rightarrow> u32 \<Rightarrow> bytes list \<Rightarrow> (bytes \<times> 's, unit) op" where
  "args_get_loop argv argv_buf counter [] = returns ()"
| "args_get_loop argv argv_buf counter (a # as) =
     andThen (guest_store_u32 argv counter) (\<lambda>_.
     andThen (guest_store (argv_buf + unat counter) a) (\<lambda>_.
     args_get_loop argv argv_buf (counter + word_of_nat (length a)) as))"

definition host_args_get :: "'s system_interface \<Rightarrow> nat \<Rightarrow> nat \<Rightarrow> (bytes \<times> 's, error_code \<times> u32) op" where
  "host_args_get sys argv argv_buf =
     andThen (guest_host (si_arguments sys)) (\<lambda>arguments.
     andThen (args_get_loop argv argv_buf 0 arguments) (\<lambda>_.
     returns (wasi_error Wasi_success, 0)))"

definition host_args_sizes_get :: "'s system_interface \<Rightarrow> nat \<Rightarrow> nat \<Rightarrow> (bytes \<times> 's, error_code \<times> u32) op" where
  "host_args_sizes_get sys argc argv_buf_size =
     andThen (guest_host (si_arguments sys)) (\<lambda>arguments.
     andThen (guest_store_u32 argc (word_of_nat (length arguments))) (\<lambda>_.
     andThen (guest_store_u32 argv_buf_size (word_of_nat (sum_list (map length arguments)))) (\<lambda>_.
     returns (wasi_error Wasi_success, 0))))"

definition host_fd_seek :: "u32 \<Rightarrow> u64 \<Rightarrow> nat \<Rightarrow> nat \<Rightarrow> (bytes \<times> 's, error_code \<times> u32) op" where
  "host_fd_seek fd offset whence newoffset = returns (wasi_error Wasi_success, 0)"

text \<open>\<open>static_cast< program::file_descriptor >( fd )\<close>.\<close>

definition fd_of :: "u32 \<Rightarrow> file_descriptor" where
  "fd_of fd = (if fd = 0 then Fd_stdin else if fd = 1 then Fd_stdout else if fd = 2 then Fd_stderr else Fd_other fd)"

fun host_fd_write ::
  "'s system_interface \<Rightarrow> u32 \<Rightarrow> (nat \<times> nat) list \<Rightarrow> nat \<Rightarrow> (bytes \<times> 's, error_code \<times> u32) op" where
  "host_fd_write sys fd [] nwritten = returns (wasi_error Wasi_success, 0)"
| "host_fd_write sys fd ((a, n) # iovs) nwritten =
     andThen (guest_load a n) (\<lambda>iov.
     andThen (guest_host (si_write sys (fd_of fd) iov)) (\<lambda>error.
     if is_error error then returns (wasi_error Wasi_badf, 0)
     else
       andThen (guest_load_u32 nwritten) (\<lambda>x.
       andThen (guest_store_u32 nwritten (x + word_of_nat n)) (\<lambda>_.
       host_fd_write sys fd iovs nwritten))))"

fun fd_read_loop ::
  "'s system_interface \<Rightarrow> u32 \<Rightarrow> (nat \<times> nat) list \<Rightarrow> nat \<Rightarrow> (bytes \<times> 's, error_code \<times> u32) op" where
  "fd_read_loop sys fd [] nwritten = returns (wasi_error Wasi_success, 0)"
| "fd_read_loop sys fd ((a, n) # iovs) nwritten =
     andThen (guest_load a n) (\<lambda>iov.
     andThen (guest_host (si_read sys (fd_of fd) iov)) (\<lambda>(iov', error).
     andThen (guest_store a iov') (\<lambda>_.
     if is_error error then returns (wasi_error Wasi_badf, 0)
     else
       andThen (guest_load_u32 nwritten) (\<lambda>x.
       andThen (guest_store_u32 nwritten (x + word_of_nat n)) (\<lambda>_.
       fd_read_loop sys fd iovs nwritten)))))"

definition host_fd_read ::
  "'s system_interface \<Rightarrow> u32 \<Rightarrow> (nat \<times> nat) list \<Rightarrow> nat \<Rightarrow> (bytes \<times> 's, error_code \<times> u32) op" where
  "host_fd_read sys fd iovs nwritten =
     andThen (guest_store_u32 nwritten 0) (\<lambda>_. fd_read_loop sys fd iovs nwritten)"

definition host_fd_close :: "u32 \<Rightarrow> (bytes \<times> 's, error_code \<times> u32) op" where
  "host_fd_close fd = returns (wasi_error Wasi_success, 0)"

text \<open>\<open>wasi_fd_rights\<close>, the two the node grants.\<close>

definition rights_fd_read :: u32 where
  "rights_fd_read = 2"

definition rights_fd_write :: u32 where
  "rights_fd_write = 64"

definition host_fd_fdstat_get :: "u32 \<Rightarrow> nat \<Rightarrow> (bytes \<times> 's, error_code \<times> u32) op" where
  "host_fd_fdstat_get fd flags =
     (if fd = 0 then
        andThen (guest_load_u32 flags) (\<lambda>x.
        andThen (guest_store_u32 flags (x OR rights_fd_read)) (\<lambda>_. returns (wasi_error Wasi_success, 0)))
      else if fd = 1 \<or> fd = 2 then
        andThen (guest_load_u32 flags) (\<lambda>x.
        andThen (guest_store_u32 flags (x OR rights_fd_write)) (\<lambda>_. returns (wasi_error Wasi_success, 0)))
      else returns (wasi_error Wasi_badf, 0))"

definition host_proc_exit :: "int \<Rightarrow> (bytes \<times> 's, error_code \<times> u32) op" where
  "host_proc_exit exit_code = returns (vm_error Vm_ok, 0)"

text \<open>Copying a result out: refused when it is longer than the space the program announced.\<close>

definition host_return :: "bytes \<Rightarrow> nat \<Rightarrow> nat \<Rightarrow> (bytes \<times> 's, error_code \<times> u32) op" where
  "host_return object ret_ptr ret_len =
     andThen (guest_load_u32 ret_len) (\<lambda>len.
     if unat len < length object then returns (controller_error Controller_insufficient_space, 0)
     else
       andThen (guest_store ret_ptr object) (\<lambda>_.
       andThen (guest_store_u32 ret_len (word_of_nat (length object))) (\<lambda>_.
       returns (controller_error Controller_ok, 0))))"

definition host_get_caller :: "'s system_interface \<Rightarrow> nat \<Rightarrow> nat \<Rightarrow> (bytes \<times> 's, error_code \<times> u32) op" where
  "host_get_caller sys ret_ptr ret_len =
     andThen (guest_host (si_get_caller sys)) (\<lambda>caller. host_return caller ret_ptr ret_len)"

definition host_get_object ::
  "'s system_interface \<Rightarrow> u32 \<Rightarrow> nat \<Rightarrow> u32 \<Rightarrow> nat \<Rightarrow> nat \<Rightarrow> (bytes \<times> 's, error_code \<times> u32) op" where
  "host_get_object sys i key_ptr key_len ret_ptr ret_len =
     andThen (guest_load key_ptr (unat key_len)) (\<lambda>key.
     andThen (guest_host (si_get_object sys i key)) (\<lambda>object. host_return object ret_ptr ret_len))"

definition host_put_object ::
  "'s system_interface \<Rightarrow> u32 \<Rightarrow> nat \<Rightarrow> u32 \<Rightarrow> nat \<Rightarrow> u32 \<Rightarrow> (bytes \<times> 's, error_code \<times> u32) op" where
  "host_put_object sys i key_ptr key_len value_ptr value_len =
     andThen (guest_load key_ptr (unat key_len)) (\<lambda>key.
     andThen (guest_load value_ptr (unat value_len)) (\<lambda>val.
     andThen (guest_host (si_put_object sys i key val)) (\<lambda>error. returns (error, 0))))"

definition host_check_authority ::
  "'s system_interface \<Rightarrow> nat \<Rightarrow> u32 \<Rightarrow> nat \<Rightarrow> (bytes \<times> 's, error_code \<times> u32) op" where
  "host_check_authority sys account_ptr account_len val =
     (if account_len \<noteq> 33 then returns (controller_error Controller_invalid_account, 0)
      else
        andThen (guest_load account_ptr (unat account_len)) (\<lambda>account.
        andThen (guest_host (si_check_authority sys account)) (\<lambda>authorized.
        case authorized of
          Inl e \<Rightarrow> returns (e, 0)
        | Inr b \<Rightarrow>
            andThen (guest_store val [if b then 1 else 0]) (\<lambda>_. returns (controller_error Controller_ok, 0)))))"

fun host_call_of :: "'s system_interface \<Rightarrow> host_call \<Rightarrow> (bytes \<times> 's, error_code \<times> u32) op" where
  "host_call_of sys (Host_args_get argv argv_buf) = host_args_get sys argv argv_buf"
| "host_call_of sys (Host_args_sizes_get argc argv_buf_size) = host_args_sizes_get sys argc argv_buf_size"
| "host_call_of sys (Host_fd_seek fd offset whence newoffset) = host_fd_seek fd offset whence newoffset"
| "host_call_of sys (Host_fd_write fd iovs nwritten) = host_fd_write sys fd iovs nwritten"
| "host_call_of sys (Host_fd_read fd iovs nwritten) = host_fd_read sys fd iovs nwritten"
| "host_call_of sys (Host_fd_close fd) = host_fd_close fd"
| "host_call_of sys (Host_fd_fdstat_get fd flags) = host_fd_fdstat_get fd flags"
| "host_call_of sys (Host_proc_exit exit_code) = host_proc_exit exit_code"
| "host_call_of sys (Host_get_caller ret_ptr ret_len) = host_get_caller sys ret_ptr ret_len"
| "host_call_of sys (Host_get_object i key_ptr key_len ret_ptr ret_len) = host_get_object sys i key_ptr key_len ret_ptr ret_len"
| "host_call_of sys (Host_put_object i key_ptr key_len value_ptr value_len) =
     host_put_object sys i key_ptr key_len value_ptr value_len"
| "host_call_of sys (Host_check_authority account_ptr account_len val) = host_check_authority sys account_ptr account_len val"

definition host_halts :: "error_code \<Rightarrow> bool" where
  "host_halts e \<longleftrightarrow>
     ec_category e = Controller_category
     \<and> (ec_value e = controller_errc_value Controller_insufficient_resources
        \<or> ec_value e = controller_errc_value Controller_network_bandwidth_limit_exceeded
        \<or> ec_value e = controller_errc_value Controller_compute_bandwidth_limit_exceeded
        \<or> ec_value e = controller_errc_value Controller_disk_storage_limit_exceeded)"

definition host_api_of ::
  "'s system_interface \<Rightarrow> ('s \<Rightarrow> u64 outcome) \<Rightarrow> (u64 \<Rightarrow> ('s, error_code) op) \<Rightarrow> 's host_api" where
  "host_api_of sys get_ticks use_ticks =
     \<lparr>ha_call = host_call_of sys, ha_get_meter_ticks = get_ticks, ha_use_meter_ticks = use_ticks, ha_halts = host_halts\<rparr>"

section \<open>A host call respects what the system respects\<close>

context upholding_system
begin

abbreviation guest_inv :: "bytes \<times> 's \<Rightarrow> bool" where
  "guest_inv \<equiv> \<lambda>(mem, s). P s"

abbreviation guest_rel :: "bytes \<times> 's \<Rightarrow> bytes \<times> 's \<Rightarrow> bool" where
  "guest_rel \<equiv> \<lambda>(mem, s) (mem', s'). R s s'"

lemma guest_preorder: "preorder_rel guest_rel"
  unfolding preorder_rel_def
proof (intro conjI allI impI)
  fix s t u :: "bytes \<times> 's"
  show "guest_rel s s" using preorder_relD(1) [OF rel] by (cases s) simp
  assume "guest_rel s t" and "guest_rel t u"
  then show "guest_rel s u" using preorder_relD(2) [OF rel] by (cases s; cases t; cases u) auto
qed

lemmas guest_rules = upholds_simple [OF guest_preorder, where P = guest_inv]
  upholds_andThen [OF guest_preorder, where P = guest_inv]

lemma guest_host_upholds:
  assumes "upholds P R m"
  shows "upholds guest_inv guest_rel (guest_host m)"
proof (rule upholdsI)
  fix g x g'
  assume "guest_inv g" and "guest_host m g = (Returned x, g')"
  then show "guest_inv g' \<and> guest_rel g g'"
    using upholdsD(1) [OF assms, of "snd g" x] by (cases g; cases g') (auto simp: guest_host_def split: prod.splits)
next
  fix g g'
  assume "guest_inv g"
  then show "guest_host m g \<noteq> (Threw Diverges, g')"
    using upholdsD(2) [OF assms, of "snd g"] by (cases g) (auto simp: guest_host_def split: prod.splits)
qed

lemma guest_memory_upholds:
  "upholds guest_inv guest_rel (guest_load a n)" "upholds guest_inv guest_rel (guest_load_u32 a)"
  "upholds guest_inv guest_rel (guest_store a bs)" "upholds guest_inv guest_rel (guest_store_u32 a x)"
proof -
  show st: "upholds guest_inv guest_rel (guest_store a bs)" for a bs
    by (rule upholdsI) (auto simp: guest_store_def preorder_relD(1) [OF rel] split: outcome.splits prod.splits)
  show "upholds guest_inv guest_rel (guest_load a n)" "upholds guest_inv guest_rel (guest_load_u32 a)"
    by (auto simp: guest_load_def guest_load_u32_def intro!: guest_rules)
  show "upholds guest_inv guest_rel (guest_store_u32 a x)"
    unfolding guest_store_u32_def by (rule st)
qed

lemmas guest_intros = guest_rules(1-3,5) guest_memory_upholds guest_host_upholds
  arguments io objects caller upholds_cases

lemma args_get_loop_upholds: "upholds guest_inv guest_rel (args_get_loop argv argv_buf counter as)"
  by (induction as arbitrary: counter) (auto intro!: guest_intros)

lemma fd_write_upholds: "upholds guest_inv guest_rel (host_fd_write sys fd iovs nwritten)"
  by (induction iovs) (auto intro!: guest_intros)

lemma fd_read_upholds: "upholds guest_inv guest_rel (fd_read_loop sys fd iovs nwritten)"
proof (induction iovs)
  case Nil
  then show ?case by (auto intro!: guest_intros)
next
  case (Cons iov iovs)
  obtain a n where "iov = (a, n)" by fastforce
  then show ?case
    by (simp only: fd_read_loop.simps) (intro guest_intros Cons; simp)
qed

lemma host_return_upholds: "upholds guest_inv guest_rel (host_return object ret_ptr ret_len)"
  unfolding host_return_def by (auto intro!: guest_intros)

lemma host_call_upholds: "upholds guest_inv guest_rel (host_call_of sys call)"
proof (cases call)
  case (Host_fd_fdstat_get fd flags)
  then show ?thesis by (auto simp: host_fd_fdstat_get_def intro!: guest_intros)
next
  case (Host_check_authority p n v)
  have loaded: "length x = n" if "guest_load a n g = (Returned x, g')" for a n x and g g' :: "bytes \<times> 's"
    using that by (auto simp: guest_load_def load_bytes_def op_defs split: if_splits)
  show ?thesis
    unfolding Host_check_authority host_call_of.simps host_check_authority_def
    by (intro upholds_cases guest_rules(1) upholds_andThen_result [OF guest_preorder, where C = "\<lambda>x. length x = 33"]
        guest_memory_upholds guest_rules(5) guest_host_upholds authority) (auto dest!: loaded)
qed (auto simp: host_args_get_def host_args_sizes_get_def host_fd_seek_def host_fd_read_def host_fd_close_def
    host_proc_exit_def host_get_caller_def host_get_object_def host_put_object_def
    intro!: guest_intros args_get_loop_upholds fd_write_upholds fd_read_upholds host_return_upholds)

end

end
