(* ===== verification/Program_Stack.thy ===== *)
theory Program_Stack
  imports Protocol Errors
begin

text \<open>
  The stack of running programs (\<open>controller/program_stack.hpp\<close>, \<open>program_stack.cpp\<close>) with its guard
  object, and the recorder of finished frames (\<open>controller/frame_recorder.cpp\<close>).  The top of the
  stack is the last element, as in the vector.  The theorem shows that the guard discipline is
  balanced and that the stack never grows beyond its limit.
\<close>

section \<open>Stack\<close>

record stack_frame =
  sf_program_id :: bytes
  sf_arguments :: "bytes list"
  sf_stdin :: bytes
  sf_stdout :: bytes
  sf_stderr :: bytes
  sf_stdin_offset :: nat

record program_stack =
  ps_stack :: "stack_frame list"
  ps_limit :: nat

definition default_stack_limit :: nat where
  "default_stack_limit = 32"

definition program_stack_new :: "nat \<Rightarrow> program_stack" where
  "program_stack_new limit = \<lparr>ps_stack = [], ps_limit = limit\<rparr>"

definition stack_frame_new :: "bytes \<Rightarrow> bytes list \<Rightarrow> bytes \<Rightarrow> stack_frame" where
  "stack_frame_new program_id arguments stdin =
     \<lparr>sf_program_id = program_id, sf_arguments = arguments, sf_stdin = stdin, sf_stdout = [], sf_stderr = [],
      sf_stdin_offset = 0\<rparr>"

definition push_frame :: "stack_frame \<Rightarrow> program_stack \<Rightarrow> error_code \<times> program_stack" where
  "push_frame f s =
     (if ps_limit s \<le> length (ps_stack s) then (controller_error Controller_stack_overflow, s)
      else (controller_error Controller_ok, s\<lparr>ps_stack := ps_stack s @ [f]\<rparr>))"

definition stack_empty_error :: exn where
  "stack_empty_error = Runtime_error ''stack is empty''"

definition peek_frame :: "program_stack \<Rightarrow> stack_frame outcome" where
  "peek_frame s = (if ps_stack s = [] then Threw stack_empty_error else Returned (last (ps_stack s)))"

text \<open>An assignment through the reference \<open>peek_frame()\<close> returns.\<close>

definition upd_frame :: "(stack_frame \<Rightarrow> stack_frame) \<Rightarrow> program_stack \<Rightarrow> program_stack" where
  "upd_frame f s =
     (if ps_stack s = [] then s else s\<lparr>ps_stack := butlast (ps_stack s) @ [f (last (ps_stack s))]\<rparr>)"

definition pop_frame :: "(program_stack, stack_frame) op" where
  "pop_frame s =
     (if ps_stack s = [] then (Threw stack_empty_error, s)
      else (Returned (last (ps_stack s)), s\<lparr>ps_stack := butlast (ps_stack s)\<rparr>))"

definition stack_size :: "program_stack \<Rightarrow> nat" where
  "stack_size s = length (ps_stack s)"

section \<open>Frame recorder\<close>

record frame_recorder =
  fr_session :: "program_frame list option"
  fr_frames :: "program_frame list"

definition frame_recorder_new :: frame_recorder where
  "frame_recorder_new = \<lparr>fr_session = None, fr_frames = []\<rparr>"

definition recorder_session_add :: "program_frame \<Rightarrow> program_frame list \<Rightarrow> program_frame list" where
  "recorder_session_add f fs = fs @ [f]"

definition recorder_set_session :: "program_frame list option \<Rightarrow> frame_recorder \<Rightarrow> frame_recorder" where
  "recorder_set_session s r = r\<lparr>fr_session := s\<rparr>"

definition recorder_add :: "program_frame \<Rightarrow> frame_recorder \<Rightarrow> frame_recorder" where
  "recorder_add f r =
     r\<lparr>fr_session := map_option (recorder_session_add f) (fr_session r), fr_frames := fr_frames r @ [f]\<rparr>"

section \<open>The guard discipline\<close>

text \<open>
  A nested call pushes a frame, runs its body and pops the frame when the guard goes out of scope;
  a body only works on the frames above the caller's.  \<open>call_tree\<close> is the shape of such nested
  calls, and \<open>run_calls\<close> executes it, counting the calls the limit refused.
\<close>

datatype call_tree = Call stack_frame "call_tree list"

fun run_call :: "call_tree \<Rightarrow> program_stack \<Rightarrow> nat \<times> program_stack"
and run_calls :: "call_tree list \<Rightarrow> program_stack \<Rightarrow> nat \<times> program_stack" where
  "run_call (Call f ts) s =
     (case push_frame f s of (error, s1) \<Rightarrow>
        if is_error error then (1, s1)
        else case run_calls ts s1 of (n, s2) \<Rightarrow> (n, snd (pop_frame s2)))"
| "run_calls [] s = (0, s)"
| "run_calls (t # ts) s =
     (case run_call t s of (n, s1) \<Rightarrow> case run_calls ts s1 of (m, s2) \<Rightarrow> (n + m, s2))"

text \<open>How deep a tree of calls nests.\<close>

fun call_depth :: "call_tree \<Rightarrow> nat"
and calls_depth :: "call_tree list \<Rightarrow> nat" where
  "call_depth (Call f ts) = Suc (calls_depth ts)"
| "calls_depth [] = 0"
| "calls_depth (t # ts) = max (call_depth t) (calls_depth ts)"

lemma is_error_stack [simp]:
  "\<not> is_error (controller_error Controller_ok)" "is_error (controller_error Controller_stack_overflow)"
  by (simp_all add: is_error_def controller_error_def)

lemma run_calls_balanced:
  "stack_size s \<le> ps_limit s \<Longrightarrow>
     snd (run_call t s) = s \<and> (fst (run_call t s) = 0 \<longleftrightarrow> stack_size s + call_depth t \<le> ps_limit s)"
  "stack_size s \<le> ps_limit s \<Longrightarrow>
     snd (run_calls ts s) = s \<and> (fst (run_calls ts s) = 0 \<longleftrightarrow> stack_size s + calls_depth ts \<le> ps_limit s)"
proof (induction t s and ts s rule: run_call_run_calls.induct)
  case (1 f ts s)
  show ?case
  proof (cases "ps_limit s \<le> length (ps_stack s)")
    case True
    then show ?thesis by (simp add: push_frame_def stack_size_def)
  next
    case False
    let ?s = "s\<lparr>ps_stack := ps_stack s @ [f]\<rparr>"
    have p: "push_frame f s = (controller_error Controller_ok, ?s)" using False by (simp add: push_frame_def)
    have "snd (run_calls ts ?s) = ?s \<and>
        (fst (run_calls ts ?s) = 0 \<longleftrightarrow> stack_size ?s + calls_depth ts \<le> ps_limit s)"
      using "1.IH" [OF p [symmetric]] False by (simp add: stack_size_def)
    then show ?thesis
      by (auto simp: p case_prod_beta pop_frame_def stack_size_def)
  qed
next
  case (2 s)
  then show ?case by simp
next
  case (3 t ts s)
  then show ?case by (cases "run_call t s"; cases "run_calls ts s") auto
qed

text \<open>
  C32: Nested program calls under the frame guard leave the stack exactly as they found it, whether a
  call is refused or not, and a call is refused exactly when the nesting exceeds the stack limit.
\<close>

theorem program_stack_balanced:
  "snd (run_calls ts (program_stack_new limit)) = program_stack_new limit
   \<and> (fst (run_calls ts (program_stack_new limit)) = 0 \<longleftrightarrow> calls_depth ts \<le> limit)"
  using run_calls_balanced(2) [of "program_stack_new limit" ts] by (simp add: stack_size_def program_stack_new_def)

end
