(* ===== verification/Resource_Meter.thy ===== *)
theory Resource_Meter
  imports Errors
begin

text \<open>
  Resource accounting: the resource session of a transaction and the resource meter of a block
  (\<open>controller/resource_meter.hpp\<close>, \<open>resource_meter.cpp\<close>).  All amounts are 64-bit words.  The meter
  holds a weak pointer to the session; the session is \<open>Some\<close> while its owner keeps it alive.  The
  theorems show exact conservation of the three resources, that a refused charge changes nothing,
  and that the overflow guard of the cost multiplication is exact.
\<close>

section \<open>Sessions\<close>

record resource_session =
  rs_initial :: u64
  rs_remaining :: u64

definition resource_session_new :: "u64 \<Rightarrow> resource_session" where
  "resource_session_new initial = \<lparr>rs_initial = initial, rs_remaining = initial\<rparr>"

definition use_resources :: "u64 \<Rightarrow> resource_session \<Rightarrow> error_code \<times> resource_session" where
  "use_resources resources s =
     (if rs_remaining s < resources then (controller_error Controller_insufficient_resources, s)
      else (controller_error Controller_ok, s\<lparr>rs_remaining := rs_remaining s - resources\<rparr>))"

definition session_used_resources :: "resource_session \<Rightarrow> u64" where
  "session_used_resources s = rs_initial s - rs_remaining s"

section \<open>The meter\<close>

record resource_limits =
  disk_storage_limit :: u64
  disk_storage_cost :: u64
  network_bandwidth_limit :: u64
  network_bandwidth_cost :: u64
  compute_bandwidth_limit :: u64
  compute_bandwidth_cost :: u64

record resource_state =
  disk_storage :: u64
  network_bandwidth :: u64
  compute_bandwidth :: u64

record resource_meter =
  rm_remaining :: resource_state
  rm_system_use :: resource_state
  rm_limits :: resource_limits
  rm_session :: "resource_session option"

definition resource_state_zero :: resource_state where
  "resource_state_zero = \<lparr>disk_storage = 0, network_bandwidth = 0, compute_bandwidth = 0\<rparr>"

definition set_resource_limits :: "resource_limits \<Rightarrow> resource_meter \<Rightarrow> resource_meter" where
  "set_resource_limits r m =
     m\<lparr>rm_limits := r, rm_system_use := resource_state_zero,
       rm_remaining := \<lparr>disk_storage = disk_storage_limit r,
         network_bandwidth = network_bandwidth_limit r, compute_bandwidth = compute_bandwidth_limit r\<rparr>\<rparr>"

definition initial_limits :: resource_limits where
  "initial_limits =
     \<lparr>disk_storage_limit = u64_max, disk_storage_cost = 0, network_bandwidth_limit = u64_max,
      network_bandwidth_cost = 0, compute_bandwidth_limit = u64_max, compute_bandwidth_cost = 0\<rparr>"

definition resource_meter_new :: resource_meter where
  "resource_meter_new =
     set_resource_limits initial_limits
       \<lparr>rm_remaining = resource_state_zero, rm_system_use = resource_state_zero, rm_limits = initial_limits,
        rm_session = None\<rparr>"

definition set_session :: "resource_session option \<Rightarrow> resource_meter \<Rightarrow> resource_meter" where
  "set_session s m = m\<lparr>rm_session := s\<rparr>"

text \<open>The part the three \<open>use_\<close> functions share: charging the session at a given cost.\<close>

definition rc_overflow :: exn where
  "rc_overflow = Runtime_error ''rc overflow''"

definition charge_session ::
    "u64 \<Rightarrow> u64 \<Rightarrow> resource_session \<Rightarrow> (error_code \<times> resource_session) outcome" where
  "charge_session cost amount s =
     (if cost = 0 then Threw Assertion_failed
      else if u64_max div cost < amount then Threw rc_overflow
      else Returned (use_resources (amount * cost) s))"

definition use_disk_storage :: "u64 \<Rightarrow> (resource_meter, error_code) op" where
  "use_disk_storage bytes m =
     (if disk_storage (rm_remaining m) \<le> bytes
      then (Returned (controller_error Controller_disk_storage_limit_exceeded), m)
      else case rm_session m of
        Some s \<Rightarrow>
          (case charge_session (disk_storage_cost (rm_limits m)) bytes s of
             Threw e \<Rightarrow> (Threw e, m)
           | Returned (error, s') \<Rightarrow>
               if is_error error then (Returned error, m\<lparr>rm_session := Some s'\<rparr>)
               else (Returned (controller_error Controller_ok),
                     m\<lparr>rm_session := Some s', rm_remaining := (rm_remaining m)
                        \<lparr>disk_storage := disk_storage (rm_remaining m) - bytes\<rparr>\<rparr>))
      | None \<Rightarrow>
          (Returned (controller_error Controller_ok),
           m\<lparr>rm_system_use := (rm_system_use m)\<lparr>disk_storage := disk_storage (rm_system_use m) + bytes\<rparr>,
             rm_remaining := (rm_remaining m)\<lparr>disk_storage := disk_storage (rm_remaining m) - bytes\<rparr>\<rparr>))"

definition use_network_bandwidth :: "u64 \<Rightarrow> (resource_meter, error_code) op" where
  "use_network_bandwidth bytes m =
     (if network_bandwidth (rm_remaining m) \<le> bytes
      then (Returned (controller_error Controller_network_bandwidth_limit_exceeded), m)
      else case rm_session m of
        Some s \<Rightarrow>
          (case charge_session (network_bandwidth_cost (rm_limits m)) bytes s of
             Threw e \<Rightarrow> (Threw e, m)
           | Returned (error, s') \<Rightarrow>
               if is_error error then (Returned error, m\<lparr>rm_session := Some s'\<rparr>)
               else (Returned (controller_error Controller_ok),
                     m\<lparr>rm_session := Some s', rm_remaining := (rm_remaining m)
                        \<lparr>network_bandwidth := network_bandwidth (rm_remaining m) - bytes\<rparr>\<rparr>))
      | None \<Rightarrow>
          (Returned (controller_error Controller_ok),
           m\<lparr>rm_system_use := (rm_system_use m)\<lparr>network_bandwidth := network_bandwidth (rm_system_use m) + bytes\<rparr>,
             rm_remaining := (rm_remaining m)\<lparr>network_bandwidth := network_bandwidth (rm_remaining m) - bytes\<rparr>\<rparr>))"

definition use_compute_bandwidth :: "u64 \<Rightarrow> (resource_meter, error_code) op" where
  "use_compute_bandwidth ticks m =
     (if compute_bandwidth (rm_remaining m) < ticks
      then (Returned (controller_error Controller_compute_bandwidth_limit_exceeded), m)
      else case rm_session m of
        Some s \<Rightarrow>
          (case charge_session (compute_bandwidth_cost (rm_limits m)) ticks s of
             Threw e \<Rightarrow> (Threw e, m)
           | Returned (error, s') \<Rightarrow>
               if is_error error then (Returned error, m\<lparr>rm_session := Some s'\<rparr>)
               else (Returned (controller_error Controller_ok),
                     m\<lparr>rm_session := Some s', rm_remaining := (rm_remaining m)
                        \<lparr>compute_bandwidth := compute_bandwidth (rm_remaining m) - ticks\<rparr>\<rparr>))
      | None \<Rightarrow>
          (Returned (controller_error Controller_ok),
           m\<lparr>rm_system_use := (rm_system_use m)\<lparr>compute_bandwidth := compute_bandwidth (rm_system_use m) + ticks\<rparr>,
             rm_remaining := (rm_remaining m)\<lparr>compute_bandwidth := compute_bandwidth (rm_remaining m) - ticks\<rparr>\<rparr>))"

text \<open>An integer division by zero in the \<open>remaining_\<close> functions is undefined.\<close>

definition session_affords :: "u64 \<Rightarrow> u64 \<Rightarrow> resource_session \<Rightarrow> u64 outcome" where
  "session_affords remaining cost s =
     (if cost = 0 then Threw Division_by_zero else Returned (min remaining (rs_remaining s div cost)))"

definition remaining_disk_storage :: "resource_meter \<Rightarrow> u64 outcome" where
  "remaining_disk_storage m =
     (case rm_session m of
        Some s \<Rightarrow> session_affords (disk_storage (rm_remaining m)) (disk_storage_cost (rm_limits m)) s
      | None \<Rightarrow> Returned (disk_storage (rm_remaining m)))"

definition remaining_network_bandwidth :: "resource_meter \<Rightarrow> u64 outcome" where
  "remaining_network_bandwidth m =
     (case rm_session m of
        Some s \<Rightarrow> session_affords (network_bandwidth (rm_remaining m)) (network_bandwidth_cost (rm_limits m)) s
      | None \<Rightarrow> Returned (network_bandwidth (rm_remaining m)))"

definition remaining_compute_bandwidth :: "resource_meter \<Rightarrow> u64 outcome" where
  "remaining_compute_bandwidth m =
     (case rm_session m of
        Some s \<Rightarrow> session_affords (compute_bandwidth (rm_remaining m)) (compute_bandwidth_cost (rm_limits m)) s
      | None \<Rightarrow> Returned (compute_bandwidth (rm_remaining m)))"

section \<open>One charge\<close>

lemma is_error_simps [simp]:
  "\<not> is_error (controller_error Controller_ok)"
  "is_error (controller_error Controller_insufficient_resources)"
  "is_error (controller_error Controller_disk_storage_limit_exceeded)"
  "is_error (controller_error Controller_network_bandwidth_limit_exceeded)"
  "is_error (controller_error Controller_compute_bandwidth_limit_exceeded)"
  by (simp_all add: is_error_def controller_error_def)

text \<open>
  The three \<open>use_\<close> functions differ in the field they charge, its cost, the comparison with what is
  left and the error code.
\<close>

definition meter_charge ::
    "(u64 \<Rightarrow> u64 \<Rightarrow> bool) \<Rightarrow> error_code \<Rightarrow> (resource_state \<Rightarrow> u64) \<Rightarrow> ((u64 \<Rightarrow> u64) \<Rightarrow> resource_state \<Rightarrow> resource_state)
       \<Rightarrow> (resource_limits \<Rightarrow> u64) \<Rightarrow> u64 \<Rightarrow> (resource_meter, error_code) op" where
  "meter_charge exceeds code amount upd cost n m =
     (if exceeds n (amount (rm_remaining m)) then (Returned code, m)
      else case rm_session m of
        Some s \<Rightarrow>
          (case charge_session (cost (rm_limits m)) n s of
             Threw e \<Rightarrow> (Threw e, m)
           | Returned (error, s') \<Rightarrow>
               if is_error error then (Returned error, m\<lparr>rm_session := Some s'\<rparr>)
               else (Returned (controller_error Controller_ok),
                     m\<lparr>rm_session := Some s', rm_remaining := upd (\<lambda>r. r - n) (rm_remaining m)\<rparr>))
      | None \<Rightarrow>
          (Returned (controller_error Controller_ok),
           m\<lparr>rm_system_use := upd (\<lambda>r. r + n) (rm_system_use m), rm_remaining := upd (\<lambda>r. r - n) (rm_remaining m)\<rparr>))"

lemma use_meter_charge:
  "use_disk_storage =
     meter_charge (\<lambda>n r. r \<le> n) (controller_error Controller_disk_storage_limit_exceeded) disk_storage
       disk_storage_update disk_storage_cost"
  "use_network_bandwidth =
     meter_charge (\<lambda>n r. r \<le> n) (controller_error Controller_network_bandwidth_limit_exceeded) network_bandwidth
       network_bandwidth_update network_bandwidth_cost"
  "use_compute_bandwidth =
     meter_charge (\<lambda>n r. r < n) (controller_error Controller_compute_bandwidth_limit_exceeded) compute_bandwidth
       compute_bandwidth_update compute_bandwidth_cost"
  by (simp_all add: fun_eq_iff use_disk_storage_def use_network_bandwidth_def use_compute_bandwidth_def
      meter_charge_def cong: resource_state.fold_congs resource_state.unfold_congs
      split: option.split outcome.split prod.split)

text \<open>Whether a session of the meter can pay: there is none, or the exact product fits.\<close>

definition affordable :: "u64 \<Rightarrow> u64 \<Rightarrow> resource_session option \<Rightarrow> bool" where
  "affordable cost n s \<longleftrightarrow> (case s of None \<Rightarrow> True | Some s \<Rightarrow> unat n * unat cost \<le> unat (rs_remaining s))"

lemma charge_session_run:
  assumes "cost \<noteq> 0"
  shows "charge_session cost n s =
    (if 2 ^ 64 \<le> unat n * unat cost then Threw rc_overflow
     else if unat (rs_remaining s) < unat n * unat cost
          then Returned (controller_error Controller_insufficient_resources, s)
     else Returned (controller_error Controller_ok, s\<lparr>rs_remaining := rs_remaining s - n * cost\<rparr>))"
  using assms div_guard_iff [OF assms, of n] unat_mult_no_overflow [of n cost]
  by (auto simp: charge_session_def use_resources_def word_less_nat_alt)


text \<open>The exact effect of a charge that succeeds, and of one that is refused.\<close>

definition charged ::
    "(resource_state \<Rightarrow> u64) \<Rightarrow> (resource_limits \<Rightarrow> u64) \<Rightarrow> u64 \<Rightarrow> resource_meter \<Rightarrow> resource_meter \<Rightarrow> bool" where
  "charged amount cost n m m' \<longleftrightarrow>
     unat (amount (rm_remaining m)) = unat n + unat (amount (rm_remaining m'))
     \<and> rm_limits m' = rm_limits m
     \<and> (case rm_session m of
          None \<Rightarrow> rm_session m' = None \<and> amount (rm_system_use m') = amount (rm_system_use m) + n
        | Some s \<Rightarrow> rm_system_use m' = rm_system_use m
            \<and> (\<exists>s'. rm_session m' = Some s' \<and> rs_initial s' = rs_initial s
                 \<and> unat (rs_remaining s) = unat n * unat (cost (rm_limits m)) + unat (rs_remaining s')))"

definition refused :: "error_code outcome \<Rightarrow> resource_meter \<Rightarrow> resource_meter \<Rightarrow> bool" where
  "refused r m m' \<longleftrightarrow> m' = m \<and> (r = Threw rc_overflow \<or> (\<exists>e. r = Returned e \<and> is_error e))"

text \<open>A field of the resource state that can be charged.\<close>

locale metered_field =
  fixes amount :: "resource_state \<Rightarrow> u64"
    and upd :: "(u64 \<Rightarrow> u64) \<Rightarrow> resource_state \<Rightarrow> resource_state"
  assumes amount_upd: "amount (upd f r) = f (amount r)"
begin

lemma charge_run:
  assumes "rm_session m \<noteq> None \<Longrightarrow> cost (rm_limits m) \<noteq> 0" and "is_error code"
    and "\<not> exceeds n (amount (rm_remaining m)) \<Longrightarrow> n \<le> amount (rm_remaining m)"
    and "meter_charge exceeds code amount upd cost n m = (r, m')"
  shows "if \<not> exceeds n (amount (rm_remaining m)) \<and> affordable (cost (rm_limits m)) n (rm_session m)
     then r = Returned (controller_error Controller_ok) \<and> charged amount cost n m m'
     else refused r m m'"
proof -
  have sub: "unat (amount (rm_remaining m)) = unat n + unat (amount (rm_remaining m) - n)"
    if "\<not> exceeds n (amount (rm_remaining m))"
    using assms(3) [OF that] by (simp add: unat_sub word_le_nat_alt)
  show ?thesis
  proof (cases "rm_session m")
    case None
    then show ?thesis
      using assms(2,4) sub
      by (auto simp: meter_charge_def affordable_def charged_def refused_def amount_upd)
  next
    case (Some s)
    let ?c = "cost (rm_limits m)"
    have c: "?c \<noteq> 0" using assms(1) Some by simp
    have lt: "unat (rs_remaining s) < 2 ^ 64" by (rule unat_u64_less)
    have pay: "unat (rs_remaining s) = unat n * unat ?c + unat (rs_remaining s - n * ?c)"
      if "unat n * unat ?c \<le> unat (rs_remaining s)"
      using that lt unat_mult_no_overflow [of n ?c] by (simp add: unat_sub word_le_nat_alt)
    have same: "m\<lparr>rm_session := Some s\<rparr> = m" using Some by (cases m) simp
    show ?thesis
      using assms(2,4) sub pay lt Some same charge_session_run [OF c, of n s]
      by (auto simp: meter_charge_def affordable_def charged_def refused_def amount_upd split: if_splits)
  qed
qed

end

interpretation disk: metered_field disk_storage disk_storage_update
  by unfold_locales simp

interpretation network: metered_field network_bandwidth network_bandwidth_update
  by unfold_locales simp

interpretation compute: metered_field compute_bandwidth compute_bandwidth_update
  by unfold_locales simp

definition costs_ok :: "resource_meter \<Rightarrow> bool" where
  "costs_ok m \<longleftrightarrow> rm_session m = None
     \<or> disk_storage_cost (rm_limits m) \<noteq> 0 \<and> network_bandwidth_cost (rm_limits m) \<noteq> 0
       \<and> compute_bandwidth_cost (rm_limits m) \<noteq> 0"

lemma use_disk_run:
  "costs_ok m \<Longrightarrow> use_disk_storage n m = (r, m') \<Longrightarrow>
   if n < disk_storage (rm_remaining m) \<and> affordable (disk_storage_cost (rm_limits m)) n (rm_session m)
   then r = Returned (controller_error Controller_ok) \<and> charged disk_storage disk_storage_cost n m m'
   else refused r m m'"
  using disk.charge_run [of m disk_storage_cost "controller_error Controller_disk_storage_limit_exceeded"
      "\<lambda>n r. r \<le> n" n r m']
  by (auto simp: use_meter_charge costs_ok_def not_le)

lemma use_network_run:
  "costs_ok m \<Longrightarrow> use_network_bandwidth n m = (r, m') \<Longrightarrow>
   if n < network_bandwidth (rm_remaining m) \<and> affordable (network_bandwidth_cost (rm_limits m)) n (rm_session m)
   then r = Returned (controller_error Controller_ok) \<and> charged network_bandwidth network_bandwidth_cost n m m'
   else refused r m m'"
  using network.charge_run [of m network_bandwidth_cost "controller_error Controller_network_bandwidth_limit_exceeded"
      "\<lambda>n r. r \<le> n" n r m']
  by (auto simp: use_meter_charge costs_ok_def not_le)

lemma use_compute_run:
  "costs_ok m \<Longrightarrow> use_compute_bandwidth n m = (r, m') \<Longrightarrow>
   if n \<le> compute_bandwidth (rm_remaining m) \<and> affordable (compute_bandwidth_cost (rm_limits m)) n (rm_session m)
   then r = Returned (controller_error Controller_ok) \<and> charged compute_bandwidth compute_bandwidth_cost n m m'
   else refused r m m'"
  using compute.charge_run [of m compute_bandwidth_cost "controller_error Controller_compute_bandwidth_limit_exceeded"
      "\<lambda>n r. r < n" n r m']
  by (auto simp: use_meter_charge costs_ok_def not_less)


definition sample_meter :: resource_meter where
  "sample_meter =
     set_session (Some (resource_session_new 100))
       (set_resource_limits \<lparr>disk_storage_limit = 50, disk_storage_cost = 10, network_bandwidth_limit = 60,
          network_bandwidth_cost = 5, compute_bandwidth_limit = 70, compute_bandwidth_cost = 1\<rparr> resource_meter_new)"

lemmas sample_meter_simps =
  sample_meter_def set_session_def resource_session_new_def set_resource_limits_def resource_meter_new_def


text \<open>
  C26: \<open>remaining_compute_bandwidth()\<close>, from which the virtual machine takes its tick budget, is tight:
  a charge of compute bandwidth succeeds exactly for the amounts up to it.
\<close>

theorem remaining_compute_tight:
  assumes "costs_ok m"
  shows "\<exists>k. remaining_compute_bandwidth m = Returned k
       \<and> (fst (use_compute_bandwidth n m) = Returned (controller_error Controller_ok) \<longleftrightarrow> n \<le> k)"
proof -
  obtain r m' where u: "use_compute_bandwidth n m = (r, m')" by fastforce
  have ok: "r = Returned (controller_error Controller_ok) \<longleftrightarrow>
      n \<le> compute_bandwidth (rm_remaining m) \<and> affordable (compute_bandwidth_cost (rm_limits m)) n (rm_session m)"
    using use_compute_run [OF assms u] by (auto simp: refused_def split: if_splits)
  show ?thesis
  proof (cases "rm_session m")
    case None
    then show ?thesis using ok u by (simp add: remaining_compute_bandwidth_def affordable_def)
  next
    case (Some s)
    let ?c = "compute_bandwidth_cost (rm_limits m)"
    have c: "?c \<noteq> 0" using assms Some by (simp add: costs_ok_def)
    then have "unat n * unat ?c \<le> unat (rs_remaining s) \<longleftrightarrow> n \<le> rs_remaining s div ?c"
      by (simp add: word_le_nat_alt unat_div less_eq_div_iff_mult_less_eq unat_gt_0)
    then show ?thesis
      using ok u c Some by (simp add: remaining_compute_bandwidth_def affordable_def session_affords_def)
  qed
qed

theorem remaining_compute_tight_witness:
  "\<exists>k. remaining_compute_bandwidth sample_meter = Returned k
     \<and> (fst (use_compute_bandwidth 70 sample_meter) = Returned (controller_error Controller_ok) \<longleftrightarrow> 70 \<le> k)"
  using remaining_compute_tight [of sample_meter 70] by (simp add: costs_ok_def sample_meter_simps)

section \<open>Sequences of charges\<close>

datatype charge = Charge_disk u64 | Charge_network u64 | Charge_compute u64

fun apply_charge :: "charge \<Rightarrow> (resource_meter, error_code) op" where
  "apply_charge (Charge_disk n) = use_disk_storage n"
| "apply_charge (Charge_network n) = use_network_bandwidth n"
| "apply_charge (Charge_compute n) = use_compute_bandwidth n"

fun run_charges :: "charge list \<Rightarrow> resource_meter \<Rightarrow> resource_meter" where
  "run_charges [] m = m"
| "run_charges (c # cs) m = run_charges cs (snd (apply_charge c m))"

text \<open>What the system used plus what is left never exceeds a limit; a session never overspends.\<close>

definition field_bounded :: "(resource_state \<Rightarrow> u64) \<Rightarrow> (resource_limits \<Rightarrow> u64) \<Rightarrow> resource_meter \<Rightarrow> bool" where
  "field_bounded amount limit m \<longleftrightarrow>
     unat (amount (rm_system_use m)) + unat (amount (rm_remaining m)) \<le> unat (limit (rm_limits m))"

definition meter_inv :: "resource_meter \<Rightarrow> bool" where
  "meter_inv m \<longleftrightarrow> costs_ok m
     \<and> field_bounded disk_storage disk_storage_limit m
     \<and> field_bounded network_bandwidth network_bandwidth_limit m
     \<and> field_bounded compute_bandwidth compute_bandwidth_limit m
     \<and> (case rm_session m of None \<Rightarrow> True | Some s \<Rightarrow> rs_remaining s \<le> rs_initial s)"

context metered_field
begin

lemma charge_bounded:
  assumes "field_bounded amount limit m" and "charged amount cost n m m'"
  shows "field_bounded amount limit m'"
proof -
  have "unat (amount (rm_system_use m) + n) \<le> unat (amount (rm_system_use m)) + unat n"
    by (simp add: unat_word_ariths)
  then show ?thesis
    using assms by (auto simp: field_bounded_def charged_def split: option.splits)
qed

lemma charge_other:
  assumes "meter_charge exceeds code amount upd cost n m = (r, m')" and "\<And>f x. other (upd f x) = other x"
  shows "other (rm_remaining m') = other (rm_remaining m)" and "other (rm_system_use m') = other (rm_system_use m)"
    and "rm_limits m' = rm_limits m"
  using assms(1)
  by (auto simp: meter_charge_def assms(2) split: if_splits option.splits outcome.splits prod.splits)

end

lemma charged_session:
  assumes "charged amount cost n m m'" and "case rm_session m of None \<Rightarrow> True | Some s \<Rightarrow> rs_remaining s \<le> rs_initial s"
  shows "case rm_session m' of None \<Rightarrow> True | Some s \<Rightarrow> rs_remaining s \<le> rs_initial s"
    and "costs_ok m \<Longrightarrow> costs_ok m'"
  using assms by (auto simp: charged_def word_le_nat_alt costs_ok_def split: option.splits)

lemma apply_charge_inv: "meter_inv m \<Longrightarrow> meter_inv (snd (apply_charge c m))"
proof (cases c)
  case (Charge_disk n)
  assume inv: "meter_inv m"
  obtain r m' where u: "use_disk_storage n m = (r, m')" by fastforce
  note o = disk.charge_other [OF u [unfolded use_meter_charge]]
  show ?thesis
    using use_disk_run [OF _ u] inv disk.charge_bounded charged_session o [of network_bandwidth] o [of compute_bandwidth]
    by (auto simp: meter_inv_def Charge_disk u refused_def field_bounded_def [of network_bandwidth]
        field_bounded_def [of compute_bandwidth] split: if_splits)
next
  case (Charge_network n)
  assume inv: "meter_inv m"
  obtain r m' where u: "use_network_bandwidth n m = (r, m')" by fastforce
  note o = network.charge_other [OF u [unfolded use_meter_charge]]
  show ?thesis
    using use_network_run [OF _ u] inv network.charge_bounded charged_session o [of disk_storage] o [of compute_bandwidth]
    by (auto simp: meter_inv_def Charge_network u refused_def field_bounded_def [of disk_storage]
        field_bounded_def [of compute_bandwidth] split: if_splits)
next
  case (Charge_compute n)
  assume inv: "meter_inv m"
  obtain r m' where u: "use_compute_bandwidth n m = (r, m')" by fastforce
  note o = compute.charge_other [OF u [unfolded use_meter_charge]]
  show ?thesis
    using use_compute_run [OF _ u] inv compute.charge_bounded charged_session o [of disk_storage] o [of network_bandwidth]
    by (auto simp: meter_inv_def Charge_compute u refused_def field_bounded_def [of disk_storage]
        field_bounded_def [of network_bandwidth] split: if_splits)
qed

lemma run_charges_inv: "meter_inv m \<Longrightarrow> meter_inv (run_charges cs m)"
  by (induction cs arbitrary: m) (simp_all add: apply_charge_inv)



section \<open>Spending\<close>

text \<open>What a program may do to the meter: spend.\<close>

definition session_rel :: "resource_session option \<Rightarrow> resource_session option \<Rightarrow> bool" where
  "session_rel s s' \<longleftrightarrow>
     (case (s, s') of
        (None, None) \<Rightarrow> True
      | (Some x, Some y) \<Rightarrow> rs_initial y = rs_initial x \<and> rs_remaining y \<le> rs_remaining x
      | _ \<Rightarrow> False)"

definition meter_rel :: "resource_meter \<Rightarrow> resource_meter \<Rightarrow> bool" where
  "meter_rel m m' \<longleftrightarrow>
     rm_limits m' = rm_limits m \<and> session_rel (rm_session m) (rm_session m')
     \<and> compute_bandwidth (rm_remaining m') \<le> compute_bandwidth (rm_remaining m)
     \<and> disk_storage (rm_remaining m') \<le> disk_storage (rm_remaining m)
     \<and> network_bandwidth (rm_remaining m') \<le> network_bandwidth (rm_remaining m)"

lemma session_rel_refl [simp]: "session_rel s s"
  by (cases s) (simp_all add: session_rel_def)

lemma session_rel_trans: "session_rel s t \<Longrightarrow> session_rel t u \<Longrightarrow> session_rel s u"
  by (auto simp: session_rel_def split: option.splits)

lemma meter_rel_preorder: "preorder_rel meter_rel"
  unfolding preorder_rel_def meter_rel_def by (auto intro: session_rel_trans order_trans)

lemma costs_ok_rel: "costs_ok m \<Longrightarrow> meter_rel m m' \<Longrightarrow> costs_ok m'"
  by (auto simp: costs_ok_def meter_rel_def session_rel_def split: option.splits)

lemma charged_rel:
  assumes "charged amount cost n m m'"
  shows "session_rel (rm_session m) (rm_session m')" and "rm_limits m' = rm_limits m"
    and "amount (rm_remaining m') \<le> amount (rm_remaining m)"
  using assms by (auto simp: charged_def session_rel_def word_le_nat_alt split: option.splits)

lemma use_compute_rel:
  assumes "costs_ok m" and "use_compute_bandwidth n m = (r, m')"
  shows "meter_rel m m'"
proof -
  note o = compute.charge_other [OF assms(2) [unfolded use_meter_charge]]
  have "m' = m \<or> charged compute_bandwidth compute_bandwidth_cost n m m'"
    using use_compute_run [OF assms] by (auto simp: refused_def split: if_splits)
  then show ?thesis
    using o(1) [of disk_storage] o(1) [of network_bandwidth] charged_rel
      preorder_relD(1) [OF meter_rel_preorder] by (fastforce simp: meter_rel_def)
qed

lemma use_disk_rel:
  assumes "costs_ok m" and "use_disk_storage n m = (r, m')"
  shows "meter_rel m m'"
proof -
  note o = disk.charge_other [OF assms(2) [unfolded use_meter_charge]]
  have "m' = m \<or> charged disk_storage disk_storage_cost n m m'"
    using use_disk_run [OF assms] by (auto simp: refused_def split: if_splits)
  then show ?thesis
    using o(1) [of compute_bandwidth] o(1) [of network_bandwidth] charged_rel
      preorder_relD(1) [OF meter_rel_preorder] by (fastforce simp: meter_rel_def)
qed

lemma use_network_rel:
  assumes "costs_ok m" and "use_network_bandwidth n m = (r, m')"
  shows "meter_rel m m'"
proof -
  note o = network.charge_other [OF assms(2) [unfolded use_meter_charge]]
  have "m' = m \<or> charged network_bandwidth network_bandwidth_cost n m m'"
    using use_network_run [OF assms] by (auto simp: refused_def split: if_splits)
  then show ?thesis
    using o(1) [of compute_bandwidth] o(1) [of disk_storage] charged_rel
      preorder_relD(1) [OF meter_rel_preorder] by (fastforce simp: meter_rel_def)
qed

lemma use_terminates:
  assumes "costs_ok m"
  shows "use_compute_bandwidth n m \<noteq> (Threw Diverges, m')" "use_disk_storage n m \<noteq> (Threw Diverges, m')"
    "use_network_bandwidth n m \<noteq> (Threw Diverges, m')"
  using use_compute_run [OF assms, of n "Threw Diverges" m'] use_disk_run [OF assms, of n "Threw Diverges" m']
    use_network_run [OF assms, of n "Threw Diverges" m']
  by (auto simp: refused_def rc_overflow_def split: if_splits)

text \<open>The ticks a program can still use.\<close>

definition meter_ticks :: "resource_meter \<Rightarrow> u64" where
  "meter_ticks m = (case remaining_compute_bandwidth m of Returned t \<Rightarrow> t | Threw e \<Rightarrow> 0)"

lemma remaining_compute_ticks: "costs_ok m \<Longrightarrow> remaining_compute_bandwidth m = Returned (meter_ticks m)"
  by (auto simp: meter_ticks_def remaining_compute_bandwidth_def session_affords_def costs_ok_def split: option.splits)

lemma unat_meter_ticks:
  assumes "costs_ok m"
  shows "unat (meter_ticks m) =
    (case rm_session m of
       None \<Rightarrow> unat (compute_bandwidth (rm_remaining m))
     | Some s \<Rightarrow> min (unat (compute_bandwidth (rm_remaining m)))
                  (unat (rs_remaining s) div unat (compute_bandwidth_cost (rm_limits m))))"
  using assms
  by (auto simp: meter_ticks_def remaining_compute_bandwidth_def session_affords_def costs_ok_def min_def
      word_le_nat_alt unat_div split: option.splits)

lemma meter_ticks_antimono:
  assumes "costs_ok m" and "meter_rel m m'"
  shows "meter_ticks m' \<le> meter_ticks m"
proof -
  have "unat (meter_ticks m') \<le> unat (meter_ticks m)"
    using assms(2) unfolding unat_meter_ticks [OF assms(1)] unat_meter_ticks [OF costs_ok_rel [OF assms]]
    by (auto simp: meter_rel_def session_rel_def word_le_nat_alt min_le_iff_disj div_le_mono split: option.splits)
  then show ?thesis by (simp add: word_le_nat_alt)
qed

lemma use_compute_ticks:
  assumes "costs_ok m" and "use_compute_bandwidth n m = (Returned e, m')" and "\<not> is_error e"
  shows "n \<le> meter_ticks m" and "meter_ticks m' \<le> meter_ticks m - n"
proof -
  have c: "n \<le> compute_bandwidth (rm_remaining m)" "affordable (compute_bandwidth_cost (rm_limits m)) n (rm_session m)"
      "charged compute_bandwidth compute_bandwidth_cost n m m'"
    using use_compute_run [OF assms(1,2)] assms(3) by (auto simp: refused_def split: if_splits)
  have ok': "costs_ok m'" using costs_ok_rel [OF assms(1)] use_compute_rel [OF assms(1,2)] by blast
  have u: "unat (compute_bandwidth (rm_remaining m)) = unat n + unat (compute_bandwidth (rm_remaining m'))"
    using c(3) by (simp add: charged_def)
  have "unat n \<le> unat (meter_ticks m) \<and> unat (meter_ticks m') \<le> unat (meter_ticks m) - unat n"
  proof (cases "rm_session m")
    case None
    then show ?thesis
      using u c(3) unat_meter_ticks [OF assms(1)] unat_meter_ticks [OF ok'] by (simp add: charged_def)
  next
    case (Some s)
    let ?c = "unat (compute_bandwidth_cost (rm_limits m))"
    have cost: "0 < ?c" using assms(1) Some by (simp add: costs_ok_def unat_gt_0)
    obtain s' where s': "rm_session m' = Some s'" "unat (rs_remaining s) = unat n * ?c + unat (rs_remaining s')"
      and lim: "rm_limits m' = rm_limits m"
      using c(3) Some by (auto simp: charged_def)
    have "unat (rs_remaining s) div ?c = unat n + unat (rs_remaining s') div ?c"
      using s'(2) cost by simp
    then show ?thesis
      using u s' Some lim unat_meter_ticks [OF assms(1)] unat_meter_ticks [OF ok'] by simp
  qed
  then show "n \<le> meter_ticks m" "meter_ticks m' \<le> meter_ticks m - n"
    by (simp_all add: word_le_nat_alt unat_sub)
qed

end
