(* ===== verification/Map_Backend.thy ===== *)
theory Map_Backend
  imports Ordered_Map
begin

text \<open>
  The key-value backend behind a state delta: \<open>abstract_backend\<close> (its id, revision and merkle
  root, \<open>state_db/backends/backend.cpp\<close>), the in-memory \<open>map_backend\<close>
  (\<open>state_db/backends/map/map_backend.cpp\<close>) and its iterator (\<open>map_iterator.cpp\<close>,
  \<open>iterator.cpp\<close>).  The locale \<open>abstract_backend\<close> is the interface the deltas rely on: what a
  read returns after a write, and that the signed size a write returns is exactly the change of
  the number of stored bytes.
\<close>

type_synonym state_node_id = bytes

definition null_id :: state_node_id where
  "null_id = replicate 32 0"

record map_backend =
  be_id :: state_node_id
  be_revision :: u64
  be_merkle_root :: digest
  be_map :: "(bytes, bytes) smap"

section \<open>Construction and metadata\<close>

definition map_backend_default :: map_backend where
  "map_backend_default = \<lparr>be_id = null_id, be_revision = 0, be_merkle_root = zero_digest, be_map = []\<rparr>"

definition map_backend_new :: "state_node_id \<Rightarrow> u64 \<Rightarrow> map_backend" where
  "map_backend_new i r = \<lparr>be_id = i, be_revision = r, be_merkle_root = zero_digest, be_map = []\<rparr>"

definition set_revision :: "map_backend \<Rightarrow> u64 \<Rightarrow> map_backend" where
  "set_revision b r = b\<lparr>be_revision := r\<rparr>"

definition set_id :: "map_backend \<Rightarrow> state_node_id \<Rightarrow> map_backend" where
  "set_id b i = b\<lparr>be_id := i\<rparr>"

definition set_merkle_root :: "map_backend \<Rightarrow> digest \<Rightarrow> map_backend" where
  "set_merkle_root b d = b\<lparr>be_merkle_root := d\<rparr>"

text \<open>Write batches and stored metadata are empty functions of the in-memory backend.\<close>

definition start_write_batch :: "map_backend \<Rightarrow> map_backend" where
  "start_write_batch b = b"

definition end_write_batch :: "map_backend \<Rightarrow> map_backend" where
  "end_write_batch b = b"

definition store_metadata :: "map_backend \<Rightarrow> map_backend" where
  "store_metadata b = b"

definition backend_clone :: "map_backend \<Rightarrow> map_backend" where
  "backend_clone b = b"

section \<open>Reads and writes\<close>

definition backend_put :: "map_backend \<Rightarrow> bytes \<Rightarrow> bytes \<Rightarrow> int \<times> map_backend" where
  "backend_put b key val =
     (let size = int (length val);
          itr = map_lower_bound (be_map b) key;
          size' = (case itr of
                     [] \<Rightarrow> size + int (length key)
                   | (k, v) # _ \<Rightarrow> if key = k then size - int (length v)
                                   else size + int (length key))
      in (size', b\<lparr>be_map := map_insert_or_assign (be_map b) key val\<rparr>))"

definition backend_get :: "map_backend \<Rightarrow> bytes \<Rightarrow> bytes option" where
  "backend_get b key = map_find (be_map b) key"

definition backend_remove :: "map_backend \<Rightarrow> bytes \<Rightarrow> int \<times> map_backend" where
  "backend_remove b key =
     (case map_find (be_map b) key of
        None \<Rightarrow> (0, b)
      | Some v \<Rightarrow> (0 - (int (length key) + int (length v)), b\<lparr>be_map := map_erase (be_map b) key\<rparr>))"

definition backend_clear :: "map_backend \<Rightarrow> map_backend" where
  "backend_clear b = b\<lparr>be_map := []\<rparr>"

definition backend_size :: "map_backend \<Rightarrow> u64" where
  "backend_size b = word_of_nat (length (be_map b))"

definition backend_empty :: "map_backend \<Rightarrow> bool" where
  "backend_empty b \<longleftrightarrow> backend_size b = 0"

section \<open>Iterators\<close>

text \<open>
  A \<open>std::map\<close> iterator points at an element, named by its key, or past the end.  A
  \<open>map_iterator\<close> owns such a position; \<open>release\<close> gives it up.
\<close>

datatype map_position = At bytes | Past_end

type_synonym map_iterator = "map_position option"

definition map_begin_position :: "(bytes, bytes) smap \<Rightarrow> map_position" where
  "map_begin_position m = (case m of [] \<Rightarrow> Past_end | (k, _) # _ \<Rightarrow> At k)"

definition backend_begin :: "map_backend \<Rightarrow> map_iterator" where
  "backend_begin b = Some (map_begin_position (be_map b))"

definition backend_end :: "map_backend \<Rightarrow> map_iterator" where
  "backend_end b = Some Past_end"

definition iterator_valid :: "map_iterator \<Rightarrow> bool" where
  "iterator_valid it \<longleftrightarrow> (case it of None \<Rightarrow> False | Some p \<Rightarrow> p \<noteq> Past_end)"

definition iterator_deref :: "map_backend \<Rightarrow> map_iterator \<Rightarrow> (bytes \<times> bytes) outcome" where
  "iterator_deref b it =
     (case it of
        Some (At k) \<Rightarrow> (case map_find (be_map b) k of
                          None \<Rightarrow> Threw Invalid_iterator
                        | Some v \<Rightarrow> Returned (k, v))
      | _ \<Rightarrow> Threw (Runtime_error ''iterator operation is invalid''))"

definition iterator_release ::
    "map_iterator \<Rightarrow> (map_backend, map_iterator \<times> (bytes \<times> bytes)) op" where
  "iterator_release it b =
     (case it of
        Some (At k) \<Rightarrow> (case map_find (be_map b) k of
                          None \<Rightarrow> (Threw Invalid_iterator, b)
                        | Some v \<Rightarrow> (Returned (None, (k, v)), b\<lparr>be_map := map_erase (be_map b) k\<rparr>))
      | _ \<Rightarrow> (Threw (Runtime_error ''iterator operation is invalid''), b))"

text \<open>The position after, and the position before, a given one.\<close>

definition map_next_position :: "(bytes, bytes) smap \<Rightarrow> bytes \<Rightarrow> map_position outcome" where
  "map_next_position m k =
     (case map_lower_bound m k of
        (a, _) # rest \<Rightarrow> if a = k then Returned (map_begin_position rest) else Threw Invalid_iterator
      | [] \<Rightarrow> Threw Invalid_iterator)"

fun map_last_below :: "(bytes, bytes) smap \<Rightarrow> map_position \<Rightarrow> bytes option" where
  "map_last_below [] p = None"
| "map_last_below ((a, _) # m) p =
     (case map_last_below m p of
        Some k \<Rightarrow> Some k
      | None \<Rightarrow> (case p of Past_end \<Rightarrow> Some a | At k \<Rightarrow> if a < k then Some a else None))"

definition iterator_inc :: "map_backend \<Rightarrow> map_iterator \<Rightarrow> map_iterator outcome" where
  "iterator_inc b it =
     (case it of
        Some (At k) \<Rightarrow> bindO (map_next_position (be_map b) k) (\<lambda>p. Returned (Some p))
      | _ \<Rightarrow> Threw (Runtime_error ''iterator operation is invalid''))"

definition iterator_dec :: "map_backend \<Rightarrow> map_iterator \<Rightarrow> map_iterator outcome" where
  "iterator_dec b it =
     (case it of
        None \<Rightarrow> Threw Null_dereference
      | Some p \<Rightarrow>
          if p = map_begin_position (be_map b)
          then Threw (Runtime_error ''iterator operation is invalid'')
          else (case map_last_below (be_map b) p of
                  None \<Rightarrow> Threw Invalid_iterator
                | Some k \<Rightarrow> Returned (Some (At k))))"

definition iterator_copy :: "map_iterator \<Rightarrow> map_iterator outcome" where
  "iterator_copy it = (case it of None \<Rightarrow> Threw Null_dereference | Some p \<Rightarrow> Returned (Some p))"

text \<open>\<open>operator==\<close> of \<open>iterator.cpp\<close> compares the keys of two valid iterators.\<close>

definition iterator_eq ::
    "map_backend \<Rightarrow> map_iterator \<Rightarrow> map_backend \<Rightarrow> map_iterator \<Rightarrow> bool outcome" where
  "iterator_eq b x c y =
     (if iterator_valid x \<and> iterator_valid y
      then bindO (iterator_deref b x) (\<lambda>p. bindO (iterator_deref c y) (\<lambda>q. Returned (fst p = fst q)))
      else Returned (iterator_valid x = iterator_valid y))"

section \<open>The backend interface\<close>

text \<open>The number of bytes a set of entries occupies: keys and values.\<close>

fun entries_bytes :: "(bytes \<times> bytes) list \<Rightarrow> int" where
  "entries_bytes [] = 0"
| "entries_bytes ((k, v) # es) = int (length k) + int (length v) + entries_bytes es"

datatype backend_write = Write_put bytes bytes | Write_remove bytes

text \<open>A sequence of writes through an interface, with the sum of the sizes it returned.\<close>

fun apply_write ::
    "('b \<Rightarrow> bytes \<Rightarrow> bytes \<Rightarrow> int \<times> 'b) \<Rightarrow> ('b \<Rightarrow> bytes \<Rightarrow> int \<times> 'b) \<Rightarrow> 'b \<Rightarrow> backend_write \<Rightarrow> int \<times> 'b" where
  "apply_write put remove b (Write_put k v) = put b k v"
| "apply_write put remove b (Write_remove k) = remove b k"

fun apply_writes ::
    "('b \<Rightarrow> bytes \<Rightarrow> bytes \<Rightarrow> int \<times> 'b) \<Rightarrow> ('b \<Rightarrow> bytes \<Rightarrow> int \<times> 'b) \<Rightarrow> 'b \<Rightarrow> backend_write list \<Rightarrow> int \<times> 'b" where
  "apply_writes put remove b [] = (0, b)"
| "apply_writes put remove b (w # ws) =
     (case apply_write put remove b w of (n, b') \<Rightarrow>
        case apply_writes put remove b' ws of (m, b'') \<Rightarrow> (n + m, b''))"

locale abstract_backend =
  fixes put :: "'b \<Rightarrow> bytes \<Rightarrow> bytes \<Rightarrow> int \<times> 'b"
    and get :: "'b \<Rightarrow> bytes \<Rightarrow> bytes option"
    and remove :: "'b \<Rightarrow> bytes \<Rightarrow> int \<times> 'b"
    and entries :: "'b \<Rightarrow> (bytes \<times> bytes) list"
    and invar :: "'b \<Rightarrow> bool"
  assumes get_put: "invar b \<Longrightarrow> get (snd (put b k v)) = (get b)(k \<mapsto> v)"
    and get_remove: "invar b \<Longrightarrow> get (snd (remove b k)) = (get b)(k := None)"
    and get_entries: "invar b \<Longrightarrow> get b = map_of (entries b)"
    and entries_distinct: "invar b \<Longrightarrow> distinct (map fst (entries b))"
    and put_size: "invar b \<Longrightarrow>
      entries_bytes (entries (snd (put b k v))) = entries_bytes (entries b) + fst (put b k v)"
    and remove_size: "invar b \<Longrightarrow>
      entries_bytes (entries (snd (remove b k))) = entries_bytes (entries b) + fst (remove b k)"
    and invar_put: "invar b \<Longrightarrow> invar (snd (put b k v))"
    and invar_remove: "invar b \<Longrightarrow> invar (snd (remove b k))"
begin

lemma write_invar: "invar b \<Longrightarrow> invar (snd (apply_write put remove b w))"
  by (cases w) (simp_all add: invar_put invar_remove)

lemma write_size:
  "invar b \<Longrightarrow> entries_bytes (entries (snd (apply_write put remove b w))) = entries_bytes (entries b) + fst (apply_write put remove b w)"
  by (cases w) (simp_all add: put_size remove_size)

lemma writes_size:
  "invar b \<Longrightarrow> invar (snd (apply_writes put remove b ws)) \<and>
     entries_bytes (entries (snd (apply_writes put remove b ws))) = entries_bytes (entries b) + fst (apply_writes put remove b ws)"
proof (induction ws arbitrary: b)
  case Nil
  then show ?case by simp
next
  case (Cons w ws)
  then show ?case
    using write_invar [of b w] write_size [of b w] Cons.IH [of "snd (apply_write put remove b w)"]
    by (auto simp: case_prod_beta)
qed

text \<open>Removing a list of keys, then writing a list of entries: how a delta is merged.\<close>

lemma get_fold_remove:
  "invar b \<Longrightarrow> invar (foldl (\<lambda>b k. snd (remove b k)) b ks) \<and>
     get (foldl (\<lambda>b k. snd (remove b k)) b ks) = (get b) |` (- set ks)"
proof (induction ks arbitrary: b)
  case Nil
  then show ?case by simp
next
  case (Cons k ks)
  then show ?case
    using Cons.IH [of "snd (remove b k)"]
    by (auto simp: invar_remove get_remove restrict_map_def fun_eq_iff)
qed

lemma get_fold_put:
  "invar b \<Longrightarrow> distinct (map fst es) \<Longrightarrow>
     invar (foldl (\<lambda>b (k, v). snd (put b k v)) b es) \<and>
     get (foldl (\<lambda>b (k, v). snd (put b k v)) b es) = get b ++ map_of es"
proof (induction es arbitrary: b)
  case Nil
  then show ?case by simp
next
  case (Cons p es)
  obtain k v where p: "p = (k, v)" by (cases p)
  have "map_of es k = None"
    using Cons.prems by (simp add: p map_of_eq_None_iff)
  with Cons.prems show ?case
    using Cons.IH [of "snd (put b k v)"]
    by (auto simp: p invar_put get_put map_add_def fun_eq_iff split: option.splits)
qed

end

section \<open>The in-memory backend implements the interface\<close>

definition backend_ok :: "map_backend \<Rightarrow> bool" where
  "backend_ok b \<longleftrightarrow> sorted_map (be_map b)"

lemma entries_bytes_insert:
  "sorted_map m \<Longrightarrow>
     entries_bytes (map_insert_or_assign m k v) =
       entries_bytes m + int (length v)
         + (case map_of m k of None \<Rightarrow> int (length k) | Some w \<Rightarrow> - int (length w))"
  by (induction m k v rule: map_insert_or_assign.induct)
     (auto simp: map_of_None_less not_less split: option.splits)

lemma entries_bytes_erase:
  "sorted_map m \<Longrightarrow>
     entries_bytes (map_erase m k) =
       entries_bytes m
         - (case map_of m k of None \<Rightarrow> 0 | Some w \<Rightarrow> int (length k) + int (length w))"
  by (induction m k rule: map_erase.induct)
     (auto simp: map_of_None_less not_less split: option.splits)

lemma fst_backend_put:
  assumes "backend_ok b"
  shows "fst (backend_put b k v) =
           int (length v) + (case backend_get b k of None \<Rightarrow> int (length k) | Some w \<Rightarrow> - int (length w))"
  using map_lower_bound_hit [of "be_map b" k, symmetric] assms
  by (auto simp: backend_put_def backend_get_def backend_ok_def map_find_map_of Let_def
      split: list.splits if_splits)

lemma snd_backend_put [simp]:
  "snd (backend_put b k v) = b\<lparr>be_map := map_insert_or_assign (be_map b) k v\<rparr>"
  by (simp add: backend_put_def Let_def)

lemma fst_backend_remove:
  "fst (backend_remove b k) =
     (case backend_get b k of None \<Rightarrow> 0 | Some w \<Rightarrow> - (int (length k) + int (length w)))"
  by (simp add: backend_remove_def backend_get_def split: option.splits)

lemma map_erase_absent: "sorted_map m \<Longrightarrow> map_of m k = None \<Longrightarrow> map_erase m k = m"
  by (induction m k rule: map_erase.induct) (auto split: if_splits)

lemma snd_backend_remove:
  "backend_ok b \<Longrightarrow> snd (backend_remove b k) = b\<lparr>be_map := map_erase (be_map b) k\<rparr>"
  by (auto simp: backend_remove_def backend_ok_def map_find_map_of map_erase_absent split: option.splits)

interpretation mb: abstract_backend backend_put backend_get backend_remove be_map backend_ok
proof
  fix b k v
  assume b: "backend_ok b"
  then have s: "sorted_map (be_map b)" by (simp add: backend_ok_def)
  show "backend_get (snd (backend_put b k v)) = (backend_get b)(k \<mapsto> v)"
    using s by (simp add: backend_get_def fun_eq_iff map_find_map_of map_of_insert_or_assign smap_simps)
  show "backend_get (snd (backend_remove b k)) = (backend_get b)(k := None)"
    using s b by (simp add: snd_backend_remove backend_get_def fun_eq_iff map_find_map_of map_of_erase smap_simps)
  show "backend_get b = map_of (be_map b)"
    using s by (simp add: backend_get_def fun_eq_iff map_find_map_of)
  show "distinct (map fst (be_map b))"
    using s by (rule sorted_map_keys_distinct)
  show "entries_bytes (be_map (snd (backend_put b k v))) =
          entries_bytes (be_map b) + fst (backend_put b k v)"
    using s b by (simp add: fst_backend_put entries_bytes_insert backend_get_def map_find_map_of)
  show "entries_bytes (be_map (snd (backend_remove b k))) =
          entries_bytes (be_map b) + fst (backend_remove b k)"
    using s b
    by (simp add: fst_backend_remove snd_backend_remove entries_bytes_erase backend_get_def map_find_map_of
        split: option.splits)
  show "backend_ok (snd (backend_put b k v))"
    using s by (simp add: backend_ok_def smap_simps)
  show "backend_ok (snd (backend_remove b k))"
    using s b by (simp add: snd_backend_remove) (simp add: backend_ok_def smap_simps)
qed

section \<open>Walking a backend with an iterator\<close>

text \<open>The iterator at the \<open>i\<close>-th entry in key order; at \<open>size()\<close> it is the end iterator.\<close>

definition iterator_at :: "map_backend \<Rightarrow> nat \<Rightarrow> map_iterator" where
  "iterator_at b i = Some (if i < length (be_map b) then At (fst (be_map b ! i)) else Past_end)"

lemma map_begin_position_drop:
  "map_begin_position (drop i m) = (if i < length m then At (fst (m ! i)) else Past_end)"
  by (auto simp: map_begin_position_def Cons_nth_drop_Suc [symmetric] split: list.splits prod.splits)

lemma sorted_map_nth_less:
  "sorted_map m \<Longrightarrow> i < j \<Longrightarrow> j < length m \<Longrightarrow> fst (m ! i) < fst (m ! j)"
  unfolding sorted_map_def using sorted_wrt_nth_less [of "(<)" "map fst m" i j] by simp

lemma map_lower_bound_nth:
  "sorted_map m \<Longrightarrow> i < length m \<Longrightarrow> map_lower_bound m (fst (m ! i)) = drop i m"
proof (induction m arbitrary: i)
  case Nil
  then show ?case by simp
next
  case (Cons p m)
  obtain a b where p: "p = (a, b)" by (cases p)
  show ?case
  proof (cases i)
    case 0
    then show ?thesis by (simp add: p)
  next
    case (Suc j)
    then have "a < fst (m ! j)"
      using sorted_map_nth_less [OF Cons.prems(1), of 0 i] Cons.prems(2) by (simp add: p)
    with Suc Cons show ?thesis by (simp add: p)
  qed
qed

lemma map_find_nth: "sorted_map m \<Longrightarrow> i < length m \<Longrightarrow> map_find m (fst (m ! i)) = Some (snd (m ! i))"
  by (simp add: map_find_map_of sorted_map_keys_distinct)

lemma map_last_below_none: "sorted_map m \<Longrightarrow> \<forall>x \<in> map_keys m. k \<le> x \<Longrightarrow> map_last_below m (At k) = None"
  by (induction m) (auto split: option.splits)

lemma map_last_below_end: "m \<noteq> [] \<Longrightarrow> map_last_below m Past_end = Some (fst (last m))"
proof (induction m)
  case Nil
  then show ?case by simp
next
  case (Cons p m)
  then show ?case by (cases p; cases m) auto
qed

lemma map_last_below_nth:
  "sorted_map m \<Longrightarrow> Suc i < length m \<Longrightarrow> map_last_below m (At (fst (m ! Suc i))) = Some (fst (m ! i))"
proof (induction m arbitrary: i)
  case Nil
  then show ?case by simp
next
  case (Cons p m)
  obtain a b where p: "p = (a, b)" by (cases p)
  have s: "sorted_map m" using Cons.prems by (simp add: p)
  show ?case
  proof (cases i)
    case 0
    then obtain c d m' where m: "m = (c, d) # m'"
      using Cons.prems(2) by (cases m) auto
    have "map_last_below m (At c) = None"
      using s by (intro map_last_below_none) (auto simp: m less_imp_le)
    then show ?thesis
      using Cons.prems(1) by (simp add: 0 p m)
  next
    case (Suc j)
    then show ?thesis
      using Cons.IH [OF s, of j] Cons.prems(2) by (simp add: p)
  qed
qed

text \<open>
  A map iterator walks the backend in increasing key order: at every position before the end
  it reads that entry, \<open>operator++\<close> moves to the next position and \<open>operator--\<close> moves back; the walk
  starts at \<open>begin()\<close> and reaches \<open>end()\<close> after \<open>size()\<close> increments.
\<close>

theorem map_iterator_walk:
  assumes "backend_ok b" and "i < length (be_map b)"
  shows "iterator_deref b (iterator_at b i) = Returned (be_map b ! i)
       \<and> iterator_inc b (iterator_at b i) = Returned (iterator_at b (Suc i))
       \<and> iterator_dec b (iterator_at b (Suc i)) = Returned (iterator_at b i)
       \<and> backend_begin b = iterator_at b 0
       \<and> backend_end b = iterator_at b (length (be_map b))
       \<and> (\<forall>j. i < j \<and> j < length (be_map b) \<longrightarrow> fst (be_map b ! i) < fst (be_map b ! j))"
proof -
  have s: "sorted_map (be_map b)" using assms(1) by (simp add: backend_ok_def)
  have d: "iterator_deref b (iterator_at b i) = Returned (be_map b ! i)"
    using s assms(2) by (simp add: iterator_deref_def iterator_at_def map_find_nth)
  have inc: "iterator_inc b (iterator_at b i) = Returned (iterator_at b (Suc i))"
    using s assms(2) map_begin_position_drop [of "Suc i" "be_map b"]
    by (simp add: iterator_inc_def iterator_at_def map_next_position_def map_lower_bound_nth
        Cons_nth_drop_Suc [symmetric] case_prod_beta)
  have first: "map_begin_position (be_map b) = At (fst (be_map b ! 0))"
    using map_begin_position_drop [of 0 "be_map b"] assms(2) by auto
  have dec: "iterator_dec b (iterator_at b (Suc i)) = Returned (iterator_at b i)"
  proof (cases "Suc i < length (be_map b)")
    case True
    then have "fst (be_map b ! Suc i) \<noteq> fst (be_map b ! 0)"
      using sorted_map_nth_less [OF s, of 0 "Suc i"] by auto
    then show ?thesis
      using True s by (simp add: iterator_dec_def iterator_at_def first map_last_below_nth)
  next
    case False
    then have ne: "be_map b \<noteq> []" and len: "length (be_map b) = Suc i"
      using assms(2) by auto
    then have "last (be_map b) = be_map b ! i"
      by (simp add: last_conv_nth)
    then show ?thesis
      using ne len by (simp add: iterator_dec_def iterator_at_def first map_last_below_end)
  qed
  show ?thesis
    using d inc dec s first assms(2) sorted_map_nth_less [OF s]
    by (auto simp: backend_begin_def backend_end_def iterator_at_def)
qed

definition sample_backend :: map_backend where
  "sample_backend = snd (backend_put (snd (backend_put map_backend_default [2] [7, 8])) [1, 5] [9])"

theorem map_iterator_walk_witness:
  "iterator_deref sample_backend (backend_begin sample_backend) = Returned ([1, 5], [9])
   \<and> iterator_inc sample_backend (backend_begin sample_backend) = Returned (Some (At [2]))"
  using map_iterator_walk [of sample_backend 0]
  by (simp add: sample_backend_def backend_ok_def map_backend_default_def iterator_at_def)

text \<open>
  The signed sizes that \<open>map_backend::put\<close> and \<open>map_backend::remove\<close> return account for storage
  exactly: over any sequence of writes their sum is the change of the number of stored bytes
  (keys plus values), and the backend stays ordered.
\<close>

theorem backend_writes_account:
  assumes "backend_ok b"
  shows "backend_ok (snd (apply_writes backend_put backend_remove b ws))
       \<and> fst (apply_writes backend_put backend_remove b ws)
           = entries_bytes (be_map (snd (apply_writes backend_put backend_remove b ws)))
             - entries_bytes (be_map b)"
  using mb.writes_size [OF assms, of ws] by simp

theorem backend_writes_account_witness:
  "fst (apply_writes backend_put backend_remove map_backend_default
      [Write_put [1] [2, 3], Write_put [1] [4], Write_remove [9], Write_put [0, 1] [], Write_remove [1]]) = 2"
  using backend_writes_account [of map_backend_default
      "[Write_put [1] [2, 3], Write_put [1] [4], Write_remove [9], Write_put [0, 1] [], Write_remove [1]]"]
  by (simp add: map_backend_default_def backend_ok_def backend_put_def backend_remove_def Let_def)

end
