(* ===== verification/State_Delta.thy ===== *)
theory State_Delta
  imports Map_Backend Crypto
begin

text \<open>
  The state deltas (\<open>state_db/state_delta.hpp\<close>, \<open>state_db/state_delta.cpp\<close>): a tree of sets of
  changes, each delta holding the entries it writes, the keys it removes and a shared pointer to
  its parent.  Shared pointers are indices into a heap, so that aliasing (two children of one
  parent, a parent emptied by \<open>commit\<close>) is explicit; allocation appends a cell.  The abstract
  contract of a delta is \<open>view h p\<close>, the key-value store a reader of \<open>p\<close> sees.
\<close>

section \<open>Cells and the heap\<close>

type_synonym ptr = nat

record state_delta =
  sd_parent :: "ptr option"
  sd_backend :: "map_backend option"
  sd_removed :: "bytes list"
  sd_merkle_root :: "digest option"
  sd_final :: bool

type_synonym heap = "state_delta list"

definition state_delta_default :: state_delta where
  "state_delta_default =
     \<lparr>sd_parent = None, sd_backend = Some map_backend_default, sd_removed = [],
      sd_merkle_root = None, sd_final = False\<rparr>"

text \<open>\<open>std::make_shared\<close>, an assignment to members of \<open>*p\<close>, a call through \<open>p->_backend\<close>.\<close>

definition make_shared :: "state_delta \<Rightarrow> (heap, ptr) op" where
  "make_shared d h = (Returned (length h), h @ [d])"

definition upd_delta :: "ptr \<Rightarrow> (state_delta \<Rightarrow> state_delta) \<Rightarrow> (heap, unit) op" where
  "upd_delta p f h = (Returned (), h[p := f (h ! p)])"

definition on_backend :: "ptr \<Rightarrow> (map_backend \<Rightarrow> 'a \<times> map_backend) \<Rightarrow> (heap, 'a) op" where
  "on_backend p f h =
     (case sd_backend (h ! p) of
        None \<Rightarrow> (Threw Null_dereference, h)
      | Some b \<Rightarrow> (case f b of (x, b') \<Rightarrow> (Returned x, h[p := (h ! p)\<lparr>sd_backend := Some b'\<rparr>])))"

definition get_backend :: "heap \<Rightarrow> ptr \<Rightarrow> map_backend outcome" where
  "get_backend h p =
     (case sd_backend (h ! p) of None \<Rightarrow> Threw Null_dereference | Some b \<Rightarrow> Returned b)"

section \<open>Queries\<close>

definition delta_removed :: "heap \<Rightarrow> ptr \<Rightarrow> bytes \<Rightarrow> bool" where
  "delta_removed h p key \<longleftrightarrow> set_contains (sd_removed (h ! p)) key"

definition delta_root :: "heap \<Rightarrow> ptr \<Rightarrow> bool" where
  "delta_root h p \<longleftrightarrow> sd_parent (h ! p) = None"

definition delta_revision :: "heap \<Rightarrow> ptr \<Rightarrow> u64 outcome" where
  "delta_revision h p = bindO (get_backend h p) (\<lambda>b. Returned (be_revision b))"

definition delta_final :: "heap \<Rightarrow> ptr \<Rightarrow> bool" where
  "delta_final h p \<longleftrightarrow> sd_final (h ! p)"

definition delta_id :: "heap \<Rightarrow> ptr \<Rightarrow> state_node_id outcome" where
  "delta_id h p = bindO (get_backend h p) (\<lambda>b. Returned (be_id b))"

definition delta_parent :: "heap \<Rightarrow> ptr \<Rightarrow> ptr option" where
  "delta_parent h p = sd_parent (h ! p)"

definition delta_parent_id :: "heap \<Rightarrow> ptr \<Rightarrow> state_node_id outcome" where
  "delta_parent_id h p =
     (case sd_parent (h ! p) of None \<Rightarrow> Returned null_id | Some q \<Rightarrow> delta_id h q)"

text \<open>
  \<open>get\<close> recurses along the parent pointers; the fuel is the number of cells of the heap, which a
  chain of parents without a cycle cannot exceed.
\<close>

fun delta_get_fuel :: "nat \<Rightarrow> heap \<Rightarrow> ptr \<Rightarrow> bytes \<Rightarrow> bytes option outcome" where
  "delta_get_fuel 0 h p key = Threw Diverges"
| "delta_get_fuel (Suc n) h p key =
     bindO (get_backend h p) (\<lambda>b.
       case backend_get b key of
         Some v \<Rightarrow> Returned (Some v)
       | None \<Rightarrow>
           (case sd_parent (h ! p) of
              None \<Rightarrow> Returned None
            | Some q \<Rightarrow> if delta_removed h p key then Returned None else delta_get_fuel n h q key))"

definition delta_get :: "heap \<Rightarrow> ptr \<Rightarrow> bytes \<Rightarrow> bytes option outcome" where
  "delta_get h p key = delta_get_fuel (length h) h p key"

section \<open>Writes\<close>

definition final_error :: exn where
  "final_error = Runtime_error ''cannot modify a final state delta''"

definition delta_put :: "ptr \<Rightarrow> bytes \<Rightarrow> bytes \<Rightarrow> (heap, int) op" where
  "delta_put p key val =
     andThen (reads (\<lambda>h. delta_final h p)) (\<lambda>fin.
     if fin then throws final_error
     else
       andThen (readsE (\<lambda>h.
         case sd_parent (h ! p) of
           None \<Rightarrow> Returned 0
         | Some q \<Rightarrow> bindO (delta_get h q key) (\<lambda>parent_value.
             Returned (case parent_value of
                         None \<Rightarrow> 0
                       | Some v \<Rightarrow> 0 - (int (length key) + int (length v)))))) (\<lambda>size.
       andThen (on_backend p (\<lambda>b. backend_put b key val)) (\<lambda>n.
       returns (size + n))))"

definition delta_remove :: "ptr \<Rightarrow> bytes \<Rightarrow> (heap, int) op" where
  "delta_remove p key =
     andThen (reads (\<lambda>h. delta_final h p)) (\<lambda>fin.
     if fin then throws final_error
     else
       andThen (on_backend p (\<lambda>b. backend_remove b key)) (\<lambda>size0.
       andThen (readsE (\<lambda>h.
         case sd_parent (h ! p) of
           None \<Rightarrow> Returned size0
         | Some q \<Rightarrow>
             if size0 = 0
             then bindO (delta_get h q key) (\<lambda>parent_value.
               Returned (case parent_value of
                           None \<Rightarrow> size0
                         | Some v \<Rightarrow> size0 - (int (length key) + int (length v))))
             else Returned size0)) (\<lambda>size.
       andThen (if size \<noteq> 0 then upd_delta p (\<lambda>d. d\<lparr>sd_removed := set_insert (sd_removed d) key\<rparr>)
                else returns ()) (\<lambda>_.
       returns size))))"

text \<open>The first loop of \<open>squash\<close>: it runs over \<open>_removed_objects\<close> from the front.\<close>

fun squash_removed_loop :: "ptr \<Rightarrow> ptr \<Rightarrow> bytes list \<Rightarrow> (heap, unit) op" where
  "squash_removed_loop p q [] = returns ()"
| "squash_removed_loop p q (key # keys) =
     andThen (on_backend q (\<lambda>b. backend_remove b key)) (\<lambda>_.
     andThen (reads (\<lambda>h. delta_root h q)) (\<lambda>r.
     andThen (if \<not> r then upd_delta q (\<lambda>d. d\<lparr>sd_removed := set_insert (sd_removed d) key\<rparr>) else returns ()) (\<lambda>_.
     andThen (upd_delta p (\<lambda>d. d\<lparr>sd_removed := set_erase (sd_removed d) key\<rparr>)) (\<lambda>_.
     squash_removed_loop p q keys))))"

text \<open>The second loop: \<open>itr.release()\<close> takes the first entry out of the backend.\<close>

fun squash_entries_loop :: "ptr \<Rightarrow> ptr \<Rightarrow> (bytes \<times> bytes) list \<Rightarrow> (heap, unit) op" where
  "squash_entries_loop p q [] = returns ()"
| "squash_entries_loop p q ((key, val) # es) =
     andThen (reads (\<lambda>h. delta_root h q)) (\<lambda>r.
     andThen (if \<not> r then upd_delta q (\<lambda>d. d\<lparr>sd_removed := set_erase (sd_removed d) key\<rparr>) else returns ()) (\<lambda>_.
     andThen (on_backend p (\<lambda>b. ((), b\<lparr>be_map := map_erase (be_map b) key\<rparr>))) (\<lambda>_.
     andThen (on_backend q (\<lambda>b. backend_put b key val)) (\<lambda>_.
     squash_entries_loop p q es))))"

definition delta_squash :: "ptr \<Rightarrow> (heap, unit) op" where
  "delta_squash p =
     andThen (reads (\<lambda>h. h ! p)) (\<lambda>d.
     case sd_parent d of
       None \<Rightarrow> returns ()
     | Some q \<Rightarrow>
         andThen (squash_removed_loop p q (sd_removed d)) (\<lambda>_.
         andThen (readsE (\<lambda>h. get_backend h p)) (\<lambda>b.
         squash_entries_loop p q (be_map b))))"

definition delta_clear :: "ptr \<Rightarrow> (heap, unit) op" where
  "delta_clear p =
     andThen (on_backend p (\<lambda>b. ((), backend_clear b))) (\<lambda>_.
     upd_delta p (\<lambda>d. d\<lparr>sd_removed := []\<rparr>))"

definition delta_set_revision :: "ptr \<Rightarrow> u64 \<Rightarrow> (heap, unit) op" where
  "delta_set_revision p r = on_backend p (\<lambda>b. ((), set_revision b r))"

definition delta_finalize :: "ptr \<Rightarrow> (heap, unit) op" where
  "delta_finalize p = upd_delta p (\<lambda>d. d\<lparr>sd_final := True\<rparr>)"

section \<open>Merkle root\<close>

text \<open>The merge of the entries and the removed keys, in key order.\<close>

fun merkle_leafs :: "(bytes \<times> bytes) list \<Rightarrow> bytes list \<Rightarrow> bytes list" where
  "merkle_leafs ((k, v) # es) (r # rs) =
     (if k < r then k # v # merkle_leafs es (r # rs)
      else r # [] # merkle_leafs ((k, v) # es) rs)"
| "merkle_leafs ((k, v) # es) [] = k # v # merkle_leafs es []"
| "merkle_leafs [] (r # rs) = r # [] # merkle_leafs [] rs"
| "merkle_leafs [] [] = []"

definition delta_merkle_root :: "(bytes \<Rightarrow> digest) \<Rightarrow> ptr \<Rightarrow> (heap, digest) op" where
  "delta_merkle_root H p =
     andThen (reads (\<lambda>h. h ! p)) (\<lambda>d.
     if \<not> sd_final d then throws (Runtime_error ''cannot return merkle root of non-final node'')
     else case sd_merkle_root d of
            Some m \<Rightarrow> returns m
          | None \<Rightarrow>
              andThen (readsE (\<lambda>h. get_backend h p)) (\<lambda>b.
              let m = merkle_root H (merkle_leafs (be_map b) (sd_removed d))
              in andThen (upd_delta p (\<lambda>d. d\<lparr>sd_merkle_root := Some m\<rparr>)) (\<lambda>_. returns m)))"

section \<open>Commit\<close>

text \<open>The stack of nodes from \<open>p\<close> to the root; the fuel is again the number of cells.\<close>

fun node_stack :: "nat \<Rightarrow> heap \<Rightarrow> ptr \<Rightarrow> ptr list outcome" where
  "node_stack 0 h p = Threw Diverges"
| "node_stack (Suc n) h p =
     (case sd_parent (h ! p) of
        None \<Rightarrow> Returned [p]
      | Some q \<Rightarrow> bindO (node_stack n h q) (\<lambda>ps. Returned (p # ps)))"

fun commit_entries_loop ::
    "ptr \<Rightarrow> (bytes \<times> bytes) list \<Rightarrow> map_backend \<Rightarrow> (heap, map_backend) op" where
  "commit_entries_loop p [] backend = returns backend"
| "commit_entries_loop p ((key, val) # es) backend =
     andThen (on_backend p (\<lambda>b. ((), b\<lparr>be_map := map_erase (be_map b) key\<rparr>))) (\<lambda>_.
     commit_entries_loop p es (snd (backend_put backend key val)))"

fun commit_nodes_loop :: "ptr list \<Rightarrow> map_backend \<Rightarrow> (heap, map_backend) op" where
  "commit_nodes_loop [] backend = returns backend"
| "commit_nodes_loop (p # ps) backend =
     andThen (reads (\<lambda>h. sd_removed (h ! p))) (\<lambda>removed.
     andThen (readsE (\<lambda>h. get_backend h p)) (\<lambda>b.
     andThen (commit_entries_loop p (be_map b)
                (foldl (\<lambda>b key. snd (backend_remove b key)) backend removed)) (\<lambda>backend'.
     commit_nodes_loop ps backend')))"

definition delta_commit :: "(bytes \<Rightarrow> digest) \<Rightarrow> ptr \<Rightarrow> (heap, unit) op" where
  "delta_commit H p =
     andThen (reads (\<lambda>h. delta_root h p)) (\<lambda>r.
     if r then throws (Runtime_error ''cannot commit root'')
     else
       andThen (readsE (\<lambda>h. node_stack (length h) h p)) (\<lambda>ps.
       andThen (readsE (\<lambda>h. get_backend h (last ps))) (\<lambda>backend0.
       andThen (upd_delta (last ps) (\<lambda>d. d\<lparr>sd_backend := None\<rparr>)) (\<lambda>_.
       andThen (commit_nodes_loop (rev (butlast ps)) (start_write_batch backend0)) (\<lambda>backend1.
       andThen (readsE (\<lambda>h. delta_revision h p)) (\<lambda>rev.
       andThen (readsE (\<lambda>h. delta_id h p)) (\<lambda>i.
       andThen (delta_merkle_root H p) (\<lambda>m.
       upd_delta p (\<lambda>d. d\<lparr>sd_removed := [],
         sd_backend := Some (end_write_batch (store_metadata
           (set_merkle_root (set_id (set_revision backend1 rev) i) m))),
         sd_parent := None\<rparr>)))))))))"

section \<open>Children and clones\<close>

definition delta_make_child :: "ptr \<Rightarrow> state_node_id \<Rightarrow> (heap, ptr) op" where
  "delta_make_child p i =
     andThen (readsE (\<lambda>h. delta_id h p)) (\<lambda>own.
     andThen (readsE (\<lambda>h. delta_revision h p)) (\<lambda>r.
     make_shared (state_delta_default\<lparr>sd_parent := Some p,
       sd_backend := Some (map_backend_new (if i = null_id then own else i) (r + 1))\<rparr>)))"

definition delta_clone :: "ptr \<Rightarrow> state_node_id \<Rightarrow> (heap, ptr) op" where
  "delta_clone p i =
     andThen (reads (\<lambda>h. h ! p)) (\<lambda>d.
     andThen (readsE (\<lambda>h. get_backend h p)) (\<lambda>b.
     let b1 = backend_clone b;
         b2 = (if i \<noteq> null_id then set_id b1 i else b1);
         b3 = (case sd_merkle_root d of Some m \<Rightarrow> set_merkle_root b2 m | None \<Rightarrow> b2)
     in make_shared (state_delta_default\<lparr>sd_parent := sd_parent d, sd_removed := sd_removed d,
          sd_final := sd_final d, sd_merkle_root := sd_merkle_root d, sd_backend := Some b3\<rparr>)))"

section \<open>The store a delta shows\<close>

function ancestry :: "heap \<Rightarrow> ptr \<Rightarrow> ptr list" where
  "ancestry h p = p # (case sd_parent (h ! p) of None \<Rightarrow> [] | Some q \<Rightarrow> if q < p then ancestry h q else [])"
  by pat_completeness auto
termination
  by (relation "measure snd") auto

function view :: "heap \<Rightarrow> ptr \<Rightarrow> bytes \<Rightarrow> bytes option" where
  "view h p key =
     (case (case sd_backend (h ! p) of None \<Rightarrow> None | Some b \<Rightarrow> backend_get b key) of
        Some v \<Rightarrow> Some v
      | None \<Rightarrow>
          (case sd_parent (h ! p) of
             None \<Rightarrow> None
           | Some q \<Rightarrow> if q < p \<and> \<not> delta_removed h p key then view h q key else None))"
  by pat_completeness auto
termination
  by (relation "measure (\<lambda>(h, p, key). p)") auto

declare ancestry.simps [simp del] view.simps [simp del]

text \<open>
  Well-formedness: parents are older than their children, backends and removed sets are ordered.
  A delta is live when no ancestor has given up its backend.
\<close>

definition delta_ok :: "ptr \<Rightarrow> state_delta \<Rightarrow> bool" where
  "delta_ok p d \<longleftrightarrow>
     (case sd_parent d of None \<Rightarrow> True | Some q \<Rightarrow> q < p)
     \<and> (case sd_backend d of None \<Rightarrow> True | Some b \<Rightarrow> backend_ok b)
     \<and> sorted_set (sd_removed d)"

definition heap_ok :: "heap \<Rightarrow> bool" where
  "heap_ok h \<longleftrightarrow> (\<forall>p < length h. delta_ok p (h ! p))"

definition live :: "heap \<Rightarrow> ptr \<Rightarrow> bool" where
  "live h p \<longleftrightarrow> p < length h \<and> (\<forall>q \<in> set (ancestry h p). sd_backend (h ! q) \<noteq> None)"

lemma nth_upd: "h[p := d] ! q = (if p = q \<and> p < length h then d else h ! q)"
  by (cases "p < length h") (simp_all add: list_update_beyond not_less)

lemma heap_ok_delta: "heap_ok h \<Longrightarrow> p < length h \<Longrightarrow> delta_ok p (h ! p)"
  by (simp add: heap_ok_def)

lemma heap_ok_upd: "heap_ok h \<Longrightarrow> (p < length h \<Longrightarrow> delta_ok p d) \<Longrightarrow> heap_ok (h[p := d])"
  by (auto simp: heap_ok_def nth_upd)

lemma heap_ok_append: "heap_ok h \<Longrightarrow> delta_ok (length h) d \<Longrightarrow> heap_ok (h @ [d])"
  by (auto simp: heap_ok_def nth_append less_Suc_eq)

lemma heap_ok_Nil [simp]: "heap_ok []"
  by (simp add: heap_ok_def)

lemma delta_okD:
  assumes "heap_ok h" and "p < length h"
  shows "sd_parent (h ! p) = Some q \<Longrightarrow> q < p"
    and "sd_backend (h ! p) = Some b \<Longrightarrow> backend_ok b"
    and "sorted_set (sd_removed (h ! p))"
  using heap_ok_delta [OF assms] by (auto simp: delta_ok_def)

lemma ancestry_self [simp]: "p \<in> set (ancestry h p)"
  by (subst ancestry.simps) simp

lemma ancestry_le: "q \<in> set (ancestry h p) \<Longrightarrow> q \<le> p"
proof (induction h p rule: ancestry.induct)
  case (1 h p)
  then show ?case
    by (force simp: ancestry.simps [of h p] split: option.splits if_splits)
qed

lemma ancestry_root: "sd_parent (h ! p) = None \<Longrightarrow> ancestry h p = [p]"
  by (subst ancestry.simps) simp

lemma ancestry_step: "sd_parent (h ! p) = Some q \<Longrightarrow> q < p \<Longrightarrow> ancestry h p = p # ancestry h q"
  by (subst ancestry.simps) simp

lemma ancestry_trans:
  "q \<in> set (ancestry h p) \<Longrightarrow> r \<in> set (ancestry h q) \<Longrightarrow> r \<in> set (ancestry h p)"
proof (induction h p rule: ancestry.induct)
  case (1 h p)
  show ?case
  proof (cases "sd_parent (h ! p)")
    case None
    then show ?thesis using "1.prems" by (simp add: ancestry_root)
  next
    case (Some s)
    then show ?thesis using "1.prems" "1.IH" [of s]
      by (cases "s < p") (auto simp: ancestry.simps [of h p])
  qed
qed

lemma ancestry_cong:
  "\<forall>x \<in> set (ancestry h p). sd_parent (h' ! x) = sd_parent (h ! x) \<Longrightarrow> ancestry h' p = ancestry h p"
proof (induction h p rule: ancestry.induct)
  case (1 h p)
  show ?case
  proof (cases "sd_parent (h ! p)")
    case None
    then show ?thesis using "1.prems" by (simp add: ancestry_root)
  next
    case (Some s)
    then show ?thesis using "1.prems" "1.IH" [of s]
      by (cases "s < p") (auto simp: ancestry.simps [of h p] ancestry.simps [of h' p])
  qed
qed

lemma view_cong:
  "\<forall>x \<in> set (ancestry h p). h' ! x = h ! x \<Longrightarrow> view h' p = view h p"
proof (induction h p rule: ancestry.induct)
  case (1 h p)
  have p: "h' ! p = h ! p" using "1.prems" by simp
  show ?case
  proof (cases "sd_parent (h ! p)")
    case None
    then show ?thesis
      using p by (simp add: fun_eq_iff view.simps [of h p] view.simps [of h' p] split: option.split)
  next
    case (Some s)
    show ?thesis
    proof (cases "s < p")
      case True
      then have "view h' s = view h s"
        using "1.IH" [OF Some True] "1.prems" by (simp add: ancestry_step [OF Some])
      then show ?thesis
        using p Some by (simp add: fun_eq_iff view.simps [of h p] view.simps [of h' p] delta_removed_def split: option.split)
    next
      case False
      then show ?thesis
        using p Some by (simp add: fun_eq_iff view.simps [of h p] view.simps [of h' p] split: option.split)
    qed
  qed
qed

lemma view_upd_other [heap_simps]: "p \<notin> set (ancestry h q) \<Longrightarrow> view (h[p := d]) q = view h q"
  by (rule view_cong) (metis nth_list_update_neq)

lemma ancestry_upd_other [heap_simps]:
  "p \<notin> set (ancestry h q) \<Longrightarrow> ancestry (h[p := d]) q = ancestry h q"
  by (rule ancestry_cong) (metis nth_list_update_neq)

lemma ancestry_upd_same [heap_simps]:
  "sd_parent d = sd_parent (h ! p) \<Longrightarrow> ancestry (h[p := d]) q = ancestry h q"
  by (rule ancestry_cong) (simp add: nth_upd)

lemma live_upd:
  assumes "sd_parent d = sd_parent (h ! p)" and "sd_backend d \<noteq> None" and "live h q"
  shows "live (h[p := d]) q"
  using assms by (auto simp: live_def ancestry_upd_same nth_upd)

lemma ancestry_bound: "q \<in> set (ancestry h p) \<Longrightarrow> p < length h \<Longrightarrow> q < length h"
  by (meson ancestry_le le_less_trans)

lemma view_upd_younger [heap_simps]: "q < p \<Longrightarrow> view (h[p := d]) q = view h q"
  using ancestry_le view_upd_other leD by blast

text \<open>The two cases of a live delta: the root shows its backend, a child overlays its parent.\<close>

lemma live_backend: "live h p \<Longrightarrow> \<exists>b. sd_backend (h ! p) = Some b"
  by (auto simp: live_def)

lemma live_parent:
  "heap_ok h \<Longrightarrow> live h p \<Longrightarrow> sd_parent (h ! p) = Some q \<Longrightarrow> q < p \<and> live h q"
  using delta_okD(1) [of h p q] by (auto simp: live_def ancestry_step)

lemma view_root:
  "sd_parent (h ! p) = None \<Longrightarrow> sd_backend (h ! p) = Some b \<Longrightarrow> view h p = backend_get b"
  by (rule ext, subst view.simps) (simp split: option.splits)

lemma view_child:
  assumes "heap_ok h" and "p < length h" and "sd_parent (h ! p) = Some q" and "sd_backend (h ! p) = Some b"
  shows "view h p = (view h q) |` (- set (sd_removed (h ! p))) ++ backend_get b"
proof (rule ext)
  fix key
  show "view h p key = ((view h q) |` (- set (sd_removed (h ! p))) ++ backend_get b) key"
    using assms delta_okD [OF assms(1,2)]
    by (subst view.simps)
       (auto simp: delta_removed_def set_contains_iff restrict_map_def map_add_def split: option.splits)
qed

lemma delta_get_fuel_view:
  "heap_ok h \<Longrightarrow> live h p \<Longrightarrow> p < n \<Longrightarrow> delta_get_fuel n h p key = Returned (view h p key)"
proof (induction n arbitrary: p)
  case 0
  then show ?case by simp
next
  case (Suc n)
  obtain b where b: "sd_backend (h ! p) = Some b" using live_backend [OF Suc.prems(2)] by auto
  have "sd_parent (h ! p) = Some q \<Longrightarrow> delta_get_fuel n h q key = Returned (view h q key)" for q
    using live_parent [OF Suc.prems(1,2), of q] Suc.IH [of q] Suc.prems by simp
  then show ?case
    using b live_parent [OF Suc.prems(1,2)] view.simps [of h p key]
    by (simp add: get_backend_def split: option.splits)
qed

lemma delta_get_view [heap_simps]:
  "heap_ok h \<Longrightarrow> live h p \<Longrightarrow> delta_get h p key = Returned (view h p key)"
  unfolding delta_get_def by (rule delta_get_fuel_view) (simp_all add: live_def)

section \<open>Reads and writes\<close>

text \<open>The bytes one entry of a store occupies.\<close>

fun entry_bytes :: "bytes \<Rightarrow> bytes option \<Rightarrow> int" where
  "entry_bytes key None = 0"
| "entry_bytes key (Some v) = int (length key) + int (length v)"

text \<open>What the parent of \<open>p\<close> shows; the empty store at the root.\<close>

definition parent_view :: "heap \<Rightarrow> ptr \<Rightarrow> bytes \<Rightarrow> bytes option" where
  "parent_view h p = (case sd_parent (h ! p) of None \<Rightarrow> Map.empty | Some q \<Rightarrow> view h q)"

definition own_entry :: "heap \<Rightarrow> ptr \<Rightarrow> bytes \<Rightarrow> bytes option" where
  "own_entry h p key = (case sd_backend (h ! p) of None \<Rightarrow> None | Some b \<Rightarrow> backend_get b key)"

text \<open>A delta shadows a key it has written or removed itself.\<close>

definition shadowed :: "heap \<Rightarrow> ptr \<Rightarrow> bytes \<Rightarrow> bool" where
  "shadowed h p key \<longleftrightarrow> own_entry h p key \<noteq> None \<or> key \<in> set (sd_removed (h ! p))"

lemma view_own:
  assumes "heap_ok h" and "live h p"
  shows "view h p key =
    (case own_entry h p key of
       Some v \<Rightarrow> Some v
     | None \<Rightarrow> if key \<in> set (sd_removed (h ! p)) then None else parent_view h p key)"
proof -
  have p: "p < length h" using assms(2) by (simp add: live_def)
  show ?thesis
    using delta_okD [OF assms(1) p] view.simps [of h p key]
    by (auto simp: own_entry_def parent_view_def delta_removed_def set_contains_iff split: option.splits)
qed

lemma delta_put_eq:
  assumes "heap_ok h" and "live h p" and "\<not> delta_final h p" and "sd_backend (h ! p) = Some b"
  shows "delta_put p k v h =
    (Returned (entry_bytes k (Some v) - entry_bytes k (own_entry h p k) - entry_bytes k (parent_view h p k)),
     h[p := (h ! p)\<lparr>sd_backend := Some (snd (backend_put b k v))\<rparr>])"
proof -
  have ok: "backend_ok b"
    using assms delta_okD(2) [of h p] by (simp add: live_def)
  show ?thesis
  proof (cases "sd_parent (h ! p)")
    case None
    then show ?thesis
      using assms fst_backend_put [OF ok, of k v]
      by (simp add: delta_put_def op_defs on_backend_def own_entry_def parent_view_def case_prod_beta
          split: option.splits)
  next
    case (Some q)
    then have "delta_get h q k = Returned (view h q k)"
      using live_parent [OF assms(1,2)] assms(1) by (simp add: delta_get_view)
    then show ?thesis
      using Some assms fst_backend_put [OF ok, of k v]
      by (simp add: delta_put_def op_defs on_backend_def own_entry_def parent_view_def case_prod_beta
          split: option.splits)
  qed
qed

text \<open>An update of one cell that keeps its parent and leaves it a backend.\<close>

definition cell_update :: "heap \<Rightarrow> ptr \<Rightarrow> state_delta \<Rightarrow> bool" where
  "cell_update h p d \<longleftrightarrow>
     sd_parent d = sd_parent (h ! p) \<and> delta_ok p d \<and> sd_backend d \<noteq> None"

lemma cell_update_heap:
  assumes "heap_ok h" and "live h p" and "cell_update h p d"
  shows "heap_ok (h[p := d])"
    and "live h q \<Longrightarrow> live (h[p := d]) q"
    and "own_entry (h[p := d]) p = own_entry [d] 0"
    and "sd_removed (h[p := d] ! p) = sd_removed d"
    and "parent_view (h[p := d]) p = parent_view h p"
proof -
  have p: "p < length h" using assms(2) by (simp add: live_def)
  show "heap_ok (h[p := d])" "live h q \<Longrightarrow> live (h[p := d]) q"
    using assms by (auto simp: cell_update_def heap_ok_upd intro: live_upd)
  show "own_entry (h[p := d]) p = own_entry [d] 0" "sd_removed (h[p := d] ! p) = sd_removed d"
    using p by (simp_all add: fun_eq_iff own_entry_def)
  show "parent_view (h[p := d]) p = parent_view h p"
    using p assms(3) live_parent [OF assms(1,2)]
    by (auto simp: parent_view_def cell_update_def view_upd_younger split: option.splits)
qed

lemma cell_update_view:
  assumes "heap_ok h" and "live h p" and "cell_update h p d"
  shows "view (h[p := d]) p key =
    (case own_entry [d] 0 key of
       Some v \<Rightarrow> Some v
     | None \<Rightarrow> if key \<in> set (sd_removed d) then None else parent_view h p key)"
  using view_own [of "h[p := d]" p key] cell_update_heap [OF assms] assms(2)
  by (simp split: option.split)

lemma entry_bytes_zero: "entry_bytes k (Some w) = 0 \<longleftrightarrow> k = [] \<and> w = []"
  by (auto simp del: of_nat_add simp flip: of_nat_add)

lemma entry_bytes_None: "k \<noteq> [] \<Longrightarrow> entry_bytes k w = 0 \<longleftrightarrow> w = None"
  using entry_bytes_zero by (cases w) simp_all

lemma own_entry_cell [simp]:
  "own_entry [d] 0 k = (case sd_backend d of None \<Rightarrow> None | Some b \<Rightarrow> backend_get b k)"
  by (simp add: own_entry_def)

lemma put_cell:
  assumes "heap_ok h" and "live h p" and "sd_backend (h ! p) = Some b"
  shows "cell_update h p ((h ! p)\<lparr>sd_backend := Some (snd (backend_put b k v))\<rparr>)"
  using assms delta_okD [of h p] mb.invar_put [of b k v]
  by (auto simp: cell_update_def delta_ok_def live_def split: option.splits)

lemma view_nearest:
  assumes "heap_ok h" and "live h p"
  shows "view h p key =
    (case find (\<lambda>q. shadowed h q key) (ancestry h p) of None \<Rightarrow> None | Some q \<Rightarrow> own_entry h q key)"
  using assms
proof (induction h p rule: ancestry.induct)
  case (1 h p)
  show ?case
  proof (cases "sd_parent (h ! p)")
    case None
    then show ?thesis
      using view_own [OF "1.prems", of key]
      by (auto simp: ancestry_root shadowed_def parent_view_def split: option.splits)
  next
    case (Some q)
    note q = live_parent [OF "1.prems" Some]
    show ?thesis
      using view_own [OF "1.prems", of key] "1.IH" [OF Some] q "1.prems"(1)
      by (auto simp: ancestry_step [OF Some] shadowed_def parent_view_def Some split: option.splits)
  qed
qed

text \<open>
  C12: \<open>state_delta::get\<close> always returns on a live delta, and what it returns is decided by the nearest
  ancestor-or-self that wrote or removed the key: the value that delta holds, or nothing when it
  removed the key or when no delta up to the root mentions it.
\<close>

theorem delta_get_correct:
  assumes "heap_ok h" and "live h p"
  shows "delta_get h p key =
    Returned (case find (\<lambda>q. shadowed h q key) (ancestry h p) of
                None \<Rightarrow> None | Some q \<Rightarrow> own_entry h q key)"
  using assms by (simp add: delta_get_view view_nearest)

lemma delta_put_run:
  assumes "heap_ok h" and "live h p"
  shows "if delta_final h p then delta_put p k v h = (Threw final_error, h)
     else \<exists>n h'. delta_put p k v h = (Returned n, h') \<and> heap_ok h'
       \<and> view h' p = (view h p)(k \<mapsto> v)
       \<and> (\<forall>q. live h q \<longrightarrow> live h' q)
       \<and> (\<forall>q. p \<notin> set (ancestry h q) \<longrightarrow> view h' q = view h q)"
proof (cases "delta_final h p")
  case True
  then show ?thesis by (simp add: delta_put_def op_defs)
next
  case False
  obtain b where b: "sd_backend (h ! p) = Some b" using live_backend [OF assms(2)] by auto
  let ?d = "(h ! p)\<lparr>sd_backend := Some (snd (backend_put b k v))\<rparr>"
  note c = put_cell [OF assms(1,2) b, of k v]
  have ok: "backend_ok b" using assms b delta_okD(2) [of h p] by (simp add: live_def)
  have "view (h[p := ?d]) p key = ((view h p)(k \<mapsto> v)) key" for key
    using cell_update_view [OF assms(1,2) c] view_own [OF assms(1,2)] mb.get_put [OF ok, of k v] b
    by (simp add: own_entry_def del: snd_backend_put split: option.split)
  then show ?thesis
    using False delta_put_eq [OF assms False b, of k v] cell_update_heap(1,2) [OF assms(1,2) c]
    by (auto simp: view_upd_other simp del: snd_backend_put)
qed

text \<open>
  C15: \<open>state_delta::put\<close> on a final delta throws and changes nothing.  On every other live delta it
  returns, changes the store the delta shows at that key only, keeps the heap well-formed and
  every delta live, and leaves the store of every delta that does not descend from it unchanged.
\<close>

theorem delta_put_correct:
  assumes "heap_ok h" and "live h p"
  shows "if delta_final h p then delta_put p k v h = (Threw final_error, h)
     else \<exists>n h'. delta_put p k v h = (Returned n, h') \<and> heap_ok h'
       \<and> view h' p = (view h p)(k \<mapsto> v)
       \<and> (\<forall>q. live h q \<longrightarrow> live h' q)
       \<and> (\<forall>q. p \<notin> set (ancestry h q) \<longrightarrow> view h' q = view h q)"
  using assms by (rule delta_put_run)


text \<open>
  The storage size \<open>put\<close> returns is the change of the bytes the delta shows, except that a second
  write of a key in the same delta (or a write after its removal) subtracts the bytes of the
  parent's value once more.
\<close>

theorem delta_put_size:
  assumes "heap_ok h" and "live h p" and "\<not> delta_final h p"
  shows "fst (delta_put p k v h) =
    Returned ((entry_bytes k (Some v) - entry_bytes k (view h p k))
              - (if shadowed h p k then entry_bytes k (parent_view h p k) else 0))"
proof -
  obtain b where b: "sd_backend (h ! p) = Some b" using live_backend [OF assms(2)] by auto
  show ?thesis
    using view_own [OF assms(1,2), of k]
    by (auto simp: delta_put_eq [OF assms b] shadowed_def split: option.splits)
qed

lemma remove_backend:
  assumes "heap_ok h" and "live h p" and "sd_backend (h ! p) = Some b"
  shows "backend_ok b" and "fst (backend_remove b k) = - entry_bytes k (own_entry h p k)"
  using assms delta_okD(2) [of h p b]
  by (auto simp: live_def fst_backend_remove own_entry_def split: option.splits)

definition remove_size :: "heap \<Rightarrow> ptr \<Rightarrow> bytes \<Rightarrow> int" where
  "remove_size h p k =
     (if entry_bytes k (own_entry h p k) = 0 then - entry_bytes k (parent_view h p k)
      else - entry_bytes k (own_entry h p k))"

definition remove_result :: "heap \<Rightarrow> ptr \<Rightarrow> bytes \<Rightarrow> state_delta" where
  "remove_result h p k =
     (h ! p)\<lparr>sd_backend := map_option (\<lambda>b. snd (backend_remove b k)) (sd_backend (h ! p)),
            sd_removed := if remove_size h p k = 0 then sd_removed (h ! p)
                          else set_insert (sd_removed (h ! p)) k\<rparr>"

lemma remove_cell:
  assumes "heap_ok h" and "live h p"
  shows "cell_update h p (remove_result h p k)"
proof -
  obtain b where b: "sd_backend (h ! p) = Some b" using live_backend [OF assms(2)] by auto
  show ?thesis
    using assms b delta_okD [of h p] mb.invar_remove [of b k]
    by (auto simp: cell_update_def delta_ok_def live_def remove_result_def sorted_set_insert split: option.splits)
qed

lemma delta_remove_eq:
  assumes "heap_ok h" and "live h p" and "\<not> delta_final h p"
  shows "delta_remove p k h = (Returned (remove_size h p k), h[p := remove_result h p k])"
proof -
  obtain b where b: "sd_backend (h ! p) = Some b" using live_backend [OF assms(2)] by auto
  have p: "p < length h" using assms(2) by (simp add: live_def)
  let ?h = "h[p := (h ! p)\<lparr>sd_backend := Some (snd (backend_remove b k))\<rparr>]"
  have get: "delta_get ?h q k = Returned (view h q k)" if "sd_parent (h ! p) = Some q" for q
  proof -
    have c: "cell_update h p ((h ! p)\<lparr>sd_backend := Some (snd (backend_remove b k))\<rparr>)"
      using assms b delta_okD [of h p] mb.invar_remove [of b k]
      by (auto simp: cell_update_def delta_ok_def live_def split: option.splits)
    show ?thesis
      using cell_update_heap(1,2) [OF assms(1,2) c] live_parent [OF assms(1,2) that]
      by (simp add: delta_get_view view_upd_younger)
  qed
  show ?thesis
    using assms(3) b p get remove_backend(2) [OF assms(1,2) b, of k]
    by (auto simp: delta_remove_def op_defs on_backend_def upd_delta_def case_prod_beta remove_size_def
        remove_result_def parent_view_def split: option.splits)
qed

lemma delta_remove_run:
  assumes "heap_ok h" and "live h p" and "k \<noteq> []"
  shows "if delta_final h p then delta_remove p k h = (Threw final_error, h)
     else \<exists>n h'. delta_remove p k h = (Returned n, h') \<and> heap_ok h'
       \<and> view h' p = (view h p)(k := None)
       \<and> (\<forall>q. live h q \<longrightarrow> live h' q)
       \<and> (\<forall>q. p \<notin> set (ancestry h q) \<longrightarrow> view h' q = view h q)"
proof (cases "delta_final h p")
  case True
  then show ?thesis by (simp add: delta_remove_def op_defs)
next
  case False
  obtain b where b: "sd_backend (h ! p) = Some b" using live_backend [OF assms(2)] by auto
  note ok = remove_backend(1) [OF assms(1,2) b]
  note c = remove_cell [OF assms(1,2), of k]
  note zero = entry_bytes_None [OF assms(3)]
  have "view (h[p := remove_result h p k]) p key = ((view h p)(k := None)) key" for key
    using cell_update_view [OF assms(1,2) c] view_own [OF assms(1,2)] mb.get_remove [OF ok, of k] b
    by (auto simp: zero remove_result_def remove_size_def own_entry_def split: option.splits if_splits)
  then show ?thesis
    using False delta_remove_eq [OF assms(1,2) False, of k] cell_update_heap(1,2) [OF assms(1,2) c]
    by (auto simp: view_upd_other)
qed

text \<open>
  C16: \<open>state_delta::remove\<close> on a final delta throws and changes nothing.  On every other live delta the
  removal of a non-empty key returns, removes the key from the store the delta shows and changes
  nothing else of it, keeps the heap well-formed and every delta live, and leaves the store of
  every delta that does not descend from it unchanged.
\<close>

theorem delta_remove_correct:
  assumes "heap_ok h" and "live h p" and "k \<noteq> []"
  shows "if delta_final h p then delta_remove p k h = (Threw final_error, h)
     else \<exists>n h'. delta_remove p k h = (Returned n, h') \<and> heap_ok h'
       \<and> view h' p = (view h p)(k := None)
       \<and> (\<forall>q. live h q \<longrightarrow> live h' q)
       \<and> (\<forall>q. p \<notin> set (ancestry h q) \<longrightarrow> view h' q = view h q)"
  using assms by (rule delta_remove_run)

text \<open>
  The storage size \<open>remove\<close> returns for a non-empty key is the change of the bytes the delta
  shows; only when the delta has itself removed the key before is the parent's value subtracted
  once more.
\<close>

theorem delta_remove_size:
  assumes "heap_ok h" and "live h p" and "\<not> delta_final h p" and "k \<noteq> []"
  shows "fst (delta_remove p k h) =
    Returned (- entry_bytes k (view h p k)
              - (if own_entry h p k = None \<and> k \<in> set (sd_removed (h ! p))
                 then entry_bytes k (parent_view h p k) else 0))"
proof -
  note zero = entry_bytes_None [OF assms(4)]
  show ?thesis
    using view_own [OF assms(1,2), of k]
    by (auto simp: delta_remove_eq [OF assms(1-3)] remove_size_def zero
        split: option.splits)
qed

section \<open>Squash\<close>

lemma upd_delta_simp [simp]: "upd_delta p f h = (Returned (), h[p := f (h ! p)])"
  by (simp add: upd_delta_def)

lemma on_backend_Some [simp]:
  "sd_backend (h ! p) = Some b \<Longrightarrow>
     on_backend p f h = (Returned (fst (f b)), h[p := (h ! p)\<lparr>sd_backend := Some (snd (f b))\<rparr>])"
  by (simp add: on_backend_def case_prod_beta)

text \<open>What the two loops make of the parent's cell.\<close>

definition merge_removed :: "bytes list \<Rightarrow> state_delta \<Rightarrow> state_delta" where
  "merge_removed ks d =
     d\<lparr>sd_backend := map_option (\<lambda>b. foldl (\<lambda>b k. snd (backend_remove b k)) b ks) (sd_backend d),
       sd_removed := if sd_parent d = None then sd_removed d else foldl set_insert (sd_removed d) ks\<rparr>"

definition merge_entries :: "(bytes \<times> bytes) list \<Rightarrow> state_delta \<Rightarrow> state_delta" where
  "merge_entries es d =
     d\<lparr>sd_backend := map_option (\<lambda>b. foldl (\<lambda>b (k, v). snd (backend_put b k v)) b es) (sd_backend d),
       sd_removed := if sd_parent d = None then sd_removed d else foldl set_erase (sd_removed d) (map fst es)\<rparr>"

lemma merge_Nil [simp]: "merge_removed [] d = d" "merge_entries [] d = d"
  by (cases d; simp add: merge_removed_def merge_entries_def option.map_id0 [unfolded id_def])+

lemma delta_update_self [simp]:
  "d\<lparr>sd_removed := sd_removed d\<rparr> = d" "sd_backend d = Some b \<Longrightarrow> d\<lparr>sd_backend := Some b\<rparr> = d"
  by (cases d; simp)+

lemma delta_update_swap:
  "d\<lparr>sd_removed := r, sd_backend := b\<rparr> = d\<lparr>sd_backend := b, sd_removed := r\<rparr>"
  by simp

lemma squash_removed_loop_eq:
  assumes "q < p" and "p < length h" and "sd_backend (h ! q) \<noteq> None"
  shows "squash_removed_loop p q ks h =
    (Returned (), h[q := merge_removed ks (h ! q),
                    p := (h ! p)\<lparr>sd_removed := foldl set_erase (sd_removed (h ! p)) ks\<rparr>])"
  using assms
proof (induction ks arbitrary: h)
  case Nil
  then show ?case
    by (simp add: op_defs)
next
  case (Cons k ks)
  obtain b where b: "sd_backend (h ! q) = Some b" using Cons.prems(3) by auto
  let ?h = "h[q := merge_removed [k] (h ! q), p := (h ! p)\<lparr>sd_removed := set_erase (sd_removed (h ! p)) k\<rparr>]"
  have "squash_removed_loop p q (k # ks) h = squash_removed_loop p q ks ?h"
    using Cons.prems b
    by (cases "sd_parent (h ! q)")
       (simp_all add: op_defs delta_root_def merge_removed_def list_update_swap)
  also have "\<dots> = (Returned (), ?h[q := merge_removed ks (?h ! q),
                    p := (?h ! p)\<lparr>sd_removed := foldl set_erase (sd_removed (?h ! p)) ks\<rparr>])"
    using Cons.prems b by (intro Cons.IH) (simp_all add: merge_removed_def)
  finally show ?case
    using Cons.prems b by (auto simp: merge_removed_def list_update_swap)
qed

lemma squash_entries_loop_eq:
  assumes "q < p" and "p < length h" and "sd_backend (h ! q) \<noteq> None" and "sd_backend (h ! p) = Some c"
  shows "squash_entries_loop p q es h =
    (Returned (), h[q := merge_entries es (h ! q),
                    p := (h ! p)\<lparr>sd_backend := Some (c\<lparr>be_map := foldl map_erase (be_map c) (map fst es)\<rparr>)\<rparr>])"
  using assms
proof (induction es arbitrary: h c)
  case Nil
  then show ?case
    by (simp add: op_defs)
next
  case (Cons e es)
  obtain k v where e: "e = (k, v)" by (cases e)
  obtain b where b: "sd_backend (h ! q) = Some b" using Cons.prems(3) by auto
  let ?c = "c\<lparr>be_map := map_erase (be_map c) k\<rparr>"
  let ?h = "h[q := merge_entries [e] (h ! q), p := (h ! p)\<lparr>sd_backend := Some ?c\<rparr>]"
  have "squash_entries_loop p q (e # es) h = squash_entries_loop p q es ?h"
    using Cons.prems b
    by (cases "sd_parent (h ! q)")
       (simp_all add: e op_defs delta_root_def merge_entries_def delta_update_swap list_update_swap [of p q])
  also have "\<dots> = (Returned (), ?h[q := merge_entries es (?h ! q),
                    p := (?h ! p)\<lparr>sd_backend := Some (?c\<lparr>be_map := foldl map_erase (be_map ?c) (map fst es)\<rparr>)\<rparr>])"
    using Cons.prems b by (intro Cons.IH) (simp_all add: merge_entries_def)
  finally show ?case
    using Cons.prems b by (auto simp: e merge_entries_def list_update_swap)
qed


lemma foldl_erase_self [simp]: "foldl set_erase s s = []" "foldl map_erase m (map fst m) = []"
proof -
  show "foldl set_erase s s = []" by (induction s) auto
  show "foldl map_erase m (map fst m) = []" by (induction m) auto
qed

definition squash_parent :: "state_delta \<Rightarrow> map_backend \<Rightarrow> state_delta \<Rightarrow> state_delta" where
  "squash_parent d b dq = merge_entries (be_map b) (merge_removed (sd_removed d) dq)"

definition squash_child :: "state_delta \<Rightarrow> map_backend \<Rightarrow> state_delta" where
  "squash_child d b = d\<lparr>sd_removed := [], sd_backend := Some (b\<lparr>be_map := []\<rparr>)\<rparr>"

lemma delta_squash_eq:
  assumes "heap_ok h" and "live h p" and "sd_parent (h ! p) = Some q" and "sd_backend (h ! p) = Some b"
  shows "delta_squash p h =
    (Returned (), h[q := squash_parent (h ! p) b (h ! q), p := squash_child (h ! p) b])"
proof -
  have qp: "q < p" "live h q" "p < length h"
    using live_parent [OF assms(1-3)] assms(2) by (auto simp: live_def)
  obtain c where c: "sd_backend (h ! q) = Some c" using live_backend [OF qp(2)] by auto
  let ?h = "h[q := merge_removed (sd_removed (h ! p)) (h ! q), p := (h ! p)\<lparr>sd_removed := []\<rparr>]"
  have "squash_removed_loop p q (sd_removed (h ! p)) h = (Returned (), ?h)"
    using squash_removed_loop_eq [OF qp(1,3)] c by simp
  moreover have "squash_entries_loop p q (be_map b) ?h =
      (Returned (), h[q := squash_parent (h ! p) b (h ! q), p := squash_child (h ! p) b])"
    using squash_entries_loop_eq [OF qp(1), of ?h b "be_map b"] qp c assms(4)
    by (simp add: squash_parent_def squash_child_def merge_removed_def list_update_swap)
  ultimately show ?thesis
    using assms(3,4) qp by (simp add: delta_squash_def op_defs get_backend_def)
qed

lemma foldl_set_insert:
  "sorted_set s \<Longrightarrow> sorted_set (foldl set_insert s ks) \<and> set (foldl set_insert s ks) = set s \<union> set ks"
  by (induction ks arbitrary: s) (auto simp: smap_simps)

lemma foldl_set_erase:
  "sorted_set s \<Longrightarrow> sorted_set (foldl set_erase s ks) \<and> set (foldl set_erase s ks) = set s - set ks"
  by (induction ks arbitrary: s) (auto simp: smap_simps)

text \<open>The merge of a delta into its parent's cell, described by the maps.\<close>

lemma squash_parent_props:
  assumes "delta_ok q dq" and "sd_backend dq = Some c" and "backend_ok b"
  shows "sd_parent (squash_parent d b dq) = sd_parent dq"
    and "\<exists>c'. sd_backend (squash_parent d b dq) = Some c' \<and> backend_ok c'
           \<and> backend_get c' = (backend_get c) |` (- set (sd_removed d)) ++ backend_get b"
    and "sorted_set (sd_removed (squash_parent d b dq))"
    and "sd_parent dq \<noteq> None \<Longrightarrow> set (sd_removed (squash_parent d b dq)) =
           (set (sd_removed dq) \<union> set (sd_removed d)) - dom (backend_get b)"
proof -
  have ok: "backend_ok c" "sorted_set (sd_removed dq)"
    using assms(1,2) by (auto simp: delta_ok_def)
  note rem = mb.get_fold_remove [OF ok(1), of "sd_removed d"]
  note put = mb.get_fold_put [OF conjunct1 [OF rem] mb.entries_distinct [OF assms(3)]]
  show "sd_parent (squash_parent d b dq) = sd_parent dq"
    by (simp add: squash_parent_def merge_entries_def merge_removed_def)
  show "\<exists>c'. sd_backend (squash_parent d b dq) = Some c' \<and> backend_ok c'
      \<and> backend_get c' = (backend_get c) |` (- set (sd_removed d)) ++ backend_get b"
    using put rem assms(2)
    by (simp add: squash_parent_def merge_entries_def merge_removed_def mb.get_entries [OF assms(3)])
  have srt: "sorted_set (foldl set_insert (sd_removed dq) (sd_removed d))"
    using foldl_set_insert [OF ok(2)] by blast
  show "sorted_set (sd_removed (squash_parent d b dq))"
    using ok(2) foldl_set_erase [OF srt] by (simp add: squash_parent_def merge_entries_def merge_removed_def)
  show "sd_parent dq \<noteq> None \<Longrightarrow> set (sd_removed (squash_parent d b dq)) =
      (set (sd_removed dq) \<union> set (sd_removed d)) - dom (backend_get b)"
    using foldl_set_erase [OF srt] foldl_set_insert [OF ok(2)] mb.get_entries [OF assms(3)]
    by (auto simp: squash_parent_def merge_entries_def merge_removed_def dom_map_of_conv_image_fst)
qed


lemma squash_parent_cell:
  assumes "heap_ok h" and "live h p" and "sd_parent (h ! p) = Some q" and "sd_backend (h ! p) = Some b"
  shows "cell_update h q (squash_parent (h ! p) b (h ! q))"
proof -
  have q: "q < p" "live h q" "q < length h" "p < length h"
    using live_parent [OF assms(1-3)] assms(2) by (auto simp: live_def)
  obtain c where c: "sd_backend (h ! q) = Some c" using live_backend [OF q(2)] by auto
  have b: "backend_ok b" using delta_okD(2) [OF assms(1) q(4) assms(4)] .
  show ?thesis
    using squash_parent_props [OF heap_ok_delta [OF assms(1) q(3)] c b, of "h ! p"]
      heap_ok_delta [OF assms(1) q(3)]
    by (auto simp: cell_update_def delta_ok_def)
qed

lemma squash_parent_view:
  assumes "heap_ok h" and "live h p" and "sd_parent (h ! p) = Some q" and "sd_backend (h ! p) = Some b"
  shows "view (h[q := squash_parent (h ! p) b (h ! q)]) q = view h p"
proof (rule ext)
  fix key
  have q: "q < p" "live h q" "q < length h" "p < length h"
    using live_parent [OF assms(1-3)] assms(2) by (auto simp: live_def)
  obtain c where c: "sd_backend (h ! q) = Some c" using live_backend [OF q(2)] by auto
  have b: "backend_ok b" using delta_okD(2) [OF assms(1) q(4) assms(4)] .
  note props = squash_parent_props [OF heap_ok_delta [OF assms(1) q(3)] c b, of "h ! p"]
  obtain c' where c': "sd_backend (squash_parent (h ! p) b (h ! q)) = Some c'"
      "backend_get c' = (backend_get c) |` (- set (sd_removed (h ! p))) ++ backend_get b"
    using props(2) by auto
  have rm: "sd_parent (h ! q) \<noteq> None \<Longrightarrow>
      (key \<in> set (sd_removed (squash_parent (h ! p) b (h ! q)))) =
      (key \<in> (set (sd_removed (h ! q)) \<union> set (sd_removed (h ! p))) - dom (backend_get b))"
    using props(4) by simp
  have "parent_view h q = Map.empty" if "sd_parent (h ! q) = None"
    using that by (simp add: parent_view_def)
  then show "view (h[q := squash_parent (h ! p) b (h ! q)]) q key = view h p key"
    using cell_update_view [OF assms(1) q(2) squash_parent_cell [OF assms], of key]
      view_own [OF assms(1) q(2), of key] view_own [OF assms(1,2), of key] rm
    by (cases "sd_parent (h ! q)")
       (auto simp: c c' assms(3,4) own_entry_def parent_view_def [of h p] map_add_def restrict_map_def
         split: option.splits if_splits)
qed

lemma delta_squash_run:
  assumes "heap_ok h" and "live h p"
  shows "case sd_parent (h ! p) of
      None \<Rightarrow> delta_squash p h = (Returned (), h)
    | Some q \<Rightarrow> \<exists>h'. delta_squash p h = (Returned (), h') \<and> heap_ok h'
        \<and> view h' q = view h p \<and> view h' p = view h p
        \<and> (\<forall>key. \<not> shadowed h' p key)
        \<and> (\<forall>r. live h r \<longrightarrow> live h' r)
        \<and> (\<forall>r. q \<notin> set (ancestry h r) \<longrightarrow> view h' r = view h r)"
proof (cases "sd_parent (h ! p)")
  case None
  then show ?thesis by (simp add: delta_squash_def op_defs)
next
  case (Some q)
  obtain b where b: "sd_backend (h ! p) = Some b" using live_backend [OF assms(2)] by auto
  have q: "q < p" "live h q" "p < length h" using live_parent [OF assms Some] assms(2) by (auto simp: live_def)
  let ?h = "h[q := squash_parent (h ! p) b (h ! q)]"
  let ?h' = "?h[p := squash_child (h ! p) b]"
  note up = cell_update_heap [OF assms(1) q(2) squash_parent_cell [OF assms Some b]]
  have lp: "live ?h p" by (rule up(2) [OF assms(2)])
  have cell: "cell_update ?h p (squash_child (h ! p) b)"
    using q(1) delta_okD(1) [OF assms(1) q(3)] Some
    by (auto simp: cell_update_def squash_child_def delta_ok_def backend_ok_def)
  note down = cell_update_heap [OF up(1) lp cell]
  have vq: "view ?h' q = view h p"
    using squash_parent_view [OF assms Some b] q(1) by (simp add: view_upd_younger)
  have own: "own_entry ?h' p key = None" for key
    using down(3) by (simp add: squash_child_def backend_get_def)
  have "view ?h' p key = view h p key" for key
    using cell_update_view [OF up(1) lp cell, of key] squash_parent_view [OF assms Some b] q(1) Some
    by (simp add: squash_child_def backend_get_def parent_view_def)
  moreover have "view ?h' r = view h r" if "q \<notin> set (ancestry h r)" for r
  proof -
    have "p \<notin> set (ancestry h r)"
      using that ancestry_trans [of p h r q] ancestry_step [OF Some q(1)] by auto
    then show ?thesis using that by (simp add: view_upd_other ancestry_upd_other)
  qed
  ultimately show ?thesis
    using delta_squash_eq [OF assms Some b] down(1,2,4) up(2) vq own Some
    by (auto simp: shadowed_def squash_child_def)
qed

text \<open>
  C17: \<open>squash\<close> of a live delta with a parent returns, and afterwards the parent shows exactly the store
  the delta showed, the delta still shows it and holds no changes of its own; the heap stays
  well-formed, every delta stays live, and only descendants of the parent can see a difference.
  At the root it changes nothing.
\<close>

theorem delta_squash_correct:
  assumes "heap_ok h" and "live h p"
  shows "case sd_parent (h ! p) of
      None \<Rightarrow> delta_squash p h = (Returned (), h)
    | Some q \<Rightarrow> \<exists>h'. delta_squash p h = (Returned (), h') \<and> heap_ok h'
        \<and> view h' q = view h p \<and> view h' p = view h p
        \<and> (\<forall>key. \<not> shadowed h' p key)
        \<and> (\<forall>r. live h r \<longrightarrow> live h' r)
        \<and> (\<forall>r. q \<notin> set (ancestry h r) \<longrightarrow> view h' r = view h r)"
  using assms by (rule delta_squash_run)

section \<open>Commit\<close>

lemma node_stack_ancestry:
  "heap_ok h \<Longrightarrow> p < length h \<Longrightarrow> p < n \<Longrightarrow> node_stack n h p = Returned (ancestry h p)"
proof (induction n arbitrary: p)
  case 0
  then show ?case by simp
next
  case (Suc n)
  show ?case
  proof (cases "sd_parent (h ! p)")
    case None
    then show ?thesis by (simp add: ancestry_root)
  next
    case (Some q)
    moreover have "q < p" using delta_okD(1) [OF Suc.prems(1,2) Some] .
    ultimately show ?thesis using Suc.IH [of q] Suc.prems by (simp add: ancestry_step)
  qed
qed

text \<open>What writing one node to the backend does, and what it leaves of the node.\<close>

definition merge_node :: "map_backend \<Rightarrow> state_delta \<Rightarrow> map_backend" where
  "merge_node backend d =
     foldl (\<lambda>b (k, v). snd (backend_put b k v))
       (foldl (\<lambda>b k. snd (backend_remove b k)) backend (sd_removed d))
       (case sd_backend d of None \<Rightarrow> [] | Some c \<Rightarrow> be_map c)"

definition emptied :: "state_delta \<Rightarrow> state_delta" where
  "emptied d = d\<lparr>sd_backend := map_option (\<lambda>c. c\<lparr>be_map := []\<rparr>) (sd_backend d)\<rparr>"

definition empty_nodes :: "ptr list \<Rightarrow> heap \<Rightarrow> heap" where
  "empty_nodes ps h = foldl (\<lambda>h p. h[p := emptied (h ! p)]) h ps"

lemma emptied_simps [simp]:
  "sd_parent (emptied d) = sd_parent d" "sd_removed (emptied d) = sd_removed d"
  "sd_final (emptied d) = sd_final d" "sd_merkle_root (emptied d) = sd_merkle_root d"
  "sd_backend (emptied d) = map_option (\<lambda>c. c\<lparr>be_map := []\<rparr>) (sd_backend d)"
  "emptied (emptied d) = emptied d"
  by (simp_all add: emptied_def option.map_comp comp_def)

lemma length_empty_nodes [simp]: "length (empty_nodes ps h) = length h"
  unfolding empty_nodes_def by (induction ps arbitrary: h) auto

lemma nth_empty_nodes:
  "x < length h \<Longrightarrow> empty_nodes ps h ! x = (if x \<in> set ps then emptied (h ! x) else h ! x)"
  unfolding empty_nodes_def by (induction ps arbitrary: h) (auto simp: nth_upd)

lemma commit_entries_loop_eq:
  assumes "p < length h" and "sd_backend (h ! p) = Some c"
  shows "commit_entries_loop p es backend h =
    (Returned (foldl (\<lambda>b (k, v). snd (backend_put b k v)) backend es),
     h[p := (h ! p)\<lparr>sd_backend := Some (c\<lparr>be_map := foldl map_erase (be_map c) (map fst es)\<rparr>)\<rparr>])"
  using assms
proof (induction es arbitrary: h c backend)
  case Nil
  then show ?case by (simp add: op_defs)
next
  case (Cons e es)
  obtain k v where e: "e = (k, v)" by (cases e)
  let ?c = "c\<lparr>be_map := map_erase (be_map c) k\<rparr>"
  show ?case
    using Cons.prems Cons.IH [of "h[p := (h ! p)\<lparr>sd_backend := Some ?c\<rparr>]" ?c "snd (backend_put backend k v)"]
    by (simp add: e op_defs)
qed

lemma commit_nodes_loop_eq:
  assumes "distinct ps" and "\<forall>p \<in> set ps. p < length h \<and> sd_backend (h ! p) \<noteq> None"
  shows "commit_nodes_loop ps backend h =
    (Returned (foldl merge_node backend (map (\<lambda>p. h ! p) ps)), empty_nodes ps h)"
  using assms
proof (induction ps arbitrary: h backend)
  case Nil
  then show ?case by (simp add: op_defs empty_nodes_def)
next
  case (Cons p ps)
  then obtain c where c: "p < length h" "sd_backend (h ! p) = Some c" by auto
  let ?h = "h[p := emptied (h ! p)]"
  have other: "map (\<lambda>p. ?h ! p) ps = map (\<lambda>p. h ! p) ps"
    using Cons.prems(1) by (auto simp: nth_upd)
  have "commit_nodes_loop (p # ps) backend h = commit_nodes_loop ps (merge_node backend (h ! p)) ?h"
    using c commit_entries_loop_eq [OF c, of "be_map c"]
    by (simp add: op_defs get_backend_def merge_node_def emptied_def)
  also have "\<dots> = (Returned (foldl merge_node (merge_node backend (h ! p)) (map (\<lambda>p. ?h ! p) ps)), empty_nodes ps ?h)"
    using Cons.prems by (intro Cons.IH) (auto simp: nth_upd)
  finally show ?case unfolding other by (simp add: empty_nodes_def)
qed

lemma merge_node_get:
  assumes "backend_ok backend" and "delta_ok p d" and "sd_backend d = Some c"
  shows "backend_ok (merge_node backend d)
       \<and> backend_get (merge_node backend d) = (backend_get backend) |` (- set (sd_removed d)) ++ backend_get c"
proof -
  have c: "backend_ok c" using assms(2,3) by (simp add: delta_ok_def)
  note rem = mb.get_fold_remove [OF assms(1), of "sd_removed d"]
  note put = mb.get_fold_put [OF conjunct1 [OF rem] mb.entries_distinct [OF c]]
  show ?thesis
    using put rem assms(3) by (simp add: merge_node_def mb.get_entries [OF c])
qed

lemma distinct_ancestry: "distinct (ancestry h p)"
proof (induction h p rule: ancestry.induct)
  case (1 h p)
  then show ?case
    by (subst ancestry.simps) (auto split: option.splits dest: ancestry_le)
qed

lemma ancestry_Nil [simp]: "ancestry h p \<noteq> []"
  by (subst ancestry.simps) simp

lemma last_ancestry_parent: "heap_ok h \<Longrightarrow> p < length h \<Longrightarrow> sd_parent (h ! last (ancestry h p)) = None"
proof (induction h p rule: ancestry.induct)
  case (1 h p)
  show ?case
  proof (cases "sd_parent (h ! p)")
    case None
    then show ?thesis by (simp add: ancestry_root)
  next
    case (Some q)
    moreover have "q < p" using delta_okD(1) [OF "1.prems" Some] .
    ultimately show ?thesis using "1.IH" [OF Some] "1.prems" by (simp add: ancestry_step)
  qed
qed

lemma commit_view:
  assumes "heap_ok h" and "live h p" and "sd_backend (h ! last (ancestry h p)) = Some b"
  shows "backend_ok (foldl merge_node b (map (\<lambda>x. h ! x) (rev (butlast (ancestry h p)))))
       \<and> backend_get (foldl merge_node b (map (\<lambda>x. h ! x) (rev (butlast (ancestry h p))))) = view h p"
  using assms
proof (induction h p rule: ancestry.induct)
  case (1 h p)
  have p: "p < length h" using "1.prems"(2) by (simp add: live_def)
  show ?case
  proof (cases "sd_parent (h ! p)")
    case None
    then show ?thesis
      using "1.prems"(3) delta_okD(2) [OF "1.prems"(1) p] by (simp add: ancestry_root view_root)
  next
    case (Some q)
    note q = live_parent [OF "1.prems"(1,2) Some]
    obtain c where c: "sd_backend (h ! p) = Some c" using live_backend [OF "1.prems"(2)] by auto
    let ?b = "foldl merge_node b (map (\<lambda>x. h ! x) (rev (butlast (ancestry h q))))"
    have ih: "backend_ok ?b \<and> backend_get ?b = view h q"
      using "1.IH" [OF Some _ "1.prems"(1)] q "1.prems"(3) by (simp add: ancestry_step [OF Some])
    then show ?thesis
      using merge_node_get [OF _ heap_ok_delta [OF "1.prems"(1) p] c, of ?b] q
        view_child [OF "1.prems"(1) p Some c]
      by (simp add: ancestry_step [OF Some])
  qed
qed

text \<open>The heap and the backend when \<open>commit\<close> has written all the nodes.\<close>

definition commit_heap :: "ptr \<Rightarrow> heap \<Rightarrow> heap" where
  "commit_heap p h =
     empty_nodes (butlast (ancestry h p))
       (h[last (ancestry h p) := (h ! last (ancestry h p))\<lparr>sd_backend := None\<rparr>])"

definition commit_backend :: "ptr \<Rightarrow> heap \<Rightarrow> map_backend" where
  "commit_backend p h =
     (case sd_backend (h ! last (ancestry h p)) of
        None \<Rightarrow> map_backend_default
      | Some b \<Rightarrow> foldl merge_node b (map (\<lambda>x. h ! x) (rev (butlast (ancestry h p)))))"

lemma ancestry_last:
  "set (ancestry h p) = insert (last (ancestry h p)) (set (butlast (ancestry h p)))"
  "last (ancestry h p) \<notin> set (butlast (ancestry h p))"
proof -
  obtain xs x where xs: "ancestry h p = xs @ [x]"
    using ancestry_Nil by (metis rev_exhaust)
  show "set (ancestry h p) = insert (last (ancestry h p)) (set (butlast (ancestry h p)))"
    by (simp add: xs)
  show "last (ancestry h p) \<notin> set (butlast (ancestry h p))"
    using distinct_ancestry [of h p] by (simp add: xs)
qed

text \<open>A delta below the root: its ancestry ends in another, older cell.\<close>

lemma last_ancestry_less:
  "sd_parent (h ! p) = Some q \<Longrightarrow> q < p \<Longrightarrow> last (ancestry h p) < p \<and> p \<in> set (butlast (ancestry h p))"
  using ancestry_le [of "last (ancestry h q)" h q] by (simp add: ancestry_step)

lemma empty_nodes_rev: "empty_nodes (rev ps) h = empty_nodes ps h"
  by (rule nth_equalityI) (simp_all add: nth_empty_nodes)

lemma commit_heap_nth:
  assumes "p < length h" and "x < length h"
  shows "commit_heap p h ! x =
    (if x = last (ancestry h p) then (h ! x)\<lparr>sd_backend := None\<rparr>
     else if x \<in> set (ancestry h p) then emptied (h ! x) else h ! x)"
  using assms ancestry_last [of h p] by (auto simp: commit_heap_def nth_empty_nodes nth_upd)

lemma length_commit_heap [simp]: "length (commit_heap p h) = length h"
  by (simp add: commit_heap_def)

lemma commit_nodes_run:
  assumes "heap_ok h" and "live h p" and "sd_parent (h ! p) = Some q"
    and "sd_backend (h ! last (ancestry h p)) = Some b"
  shows "commit_nodes_loop (rev (butlast (ancestry h p))) b
           (h[last (ancestry h p) := (h ! last (ancestry h p))\<lparr>sd_backend := None\<rparr>])
         = (Returned (commit_backend p h), commit_heap p h)"
proof -
  let ?r = "last (ancestry h p)" and ?ps = "butlast (ancestry h p)"
  let ?h = "h[?r := (h ! ?r)\<lparr>sd_backend := None\<rparr>]"
  note r = ancestry_last(2) [of h p]
  have sub: "x \<in> set ?ps \<Longrightarrow> x \<in> set (ancestry h p)" for x by (rule in_set_butlastD)
  have nodes: "\<forall>x \<in> set (rev ?ps). x < length ?h \<and> sd_backend (?h ! x) \<noteq> None"
    using assms(2) r sub ancestry_bound [of _ h p] by (auto simp: live_def nth_upd)
  have same: "map (\<lambda>x. ?h ! x) (rev ?ps) = map (\<lambda>x. h ! x) (rev ?ps)"
    using r by (auto simp: nth_upd)
  have "distinct (rev ?ps)"
    using distinct_butlast [OF distinct_ancestry, of h p] by simp
  from commit_nodes_loop_eq [OF this nodes, of b]
  show ?thesis
    unfolding same by (simp add: commit_backend_def commit_heap_def assms(4) empty_nodes_rev)
qed

lemma commit_heap_self:
  assumes "heap_ok h" and "live h p" and "sd_parent (h ! p) = Some q"
  shows "commit_heap p h ! p = emptied (h ! p)"
  using commit_heap_nth [of p h p] last_ancestry_less [OF assms(3)] live_parent [OF assms] assms(2)
  by (auto simp: live_def)

text \<open>The merkle root a commit records: the cached one, or the root over the removed keys alone.\<close>

definition commit_merkle_root :: "(bytes \<Rightarrow> digest) \<Rightarrow> state_delta \<Rightarrow> digest" where
  "commit_merkle_root H d =
     (case sd_merkle_root d of Some m \<Rightarrow> m | None \<Rightarrow> merkle_root H (merkle_leafs [] (sd_removed d)))"

lemma merkle_root_cached [simp]: "sd_merkle_root d = Some m \<Longrightarrow> d\<lparr>sd_merkle_root := Some m\<rparr> = d"
  by (cases d) simp

lemma commit_merkle_root_run:
  assumes "h' ! p = emptied (h ! p)" and "p < length h" and "sd_backend (h ! p) = Some c"
  shows "delta_merkle_root H p h' =
    (if delta_final h p
     then (Returned (commit_merkle_root H (h ! p)),
           h'[p := (emptied (h ! p))\<lparr>sd_merkle_root := Some (commit_merkle_root H (h ! p))\<rparr>])
     else (Threw (Runtime_error ''cannot return merkle root of non-final node''), h'))"
proof (cases "sd_merkle_root (h ! p)")
  case None
  then show ?thesis
    using assms by (simp add: delta_merkle_root_def op_defs delta_final_def commit_merkle_root_def get_backend_def Let_def)
next
  case (Some m)
  then have "h'[p := (emptied (h ! p))\<lparr>sd_merkle_root := Some m\<rparr>] = h'"
    using assms(1) by (metis emptied_simps(4) list_update_id merkle_root_cached)
  then show ?thesis
    using assms Some by (simp add: delta_merkle_root_def op_defs delta_final_def commit_merkle_root_def)
qed

lemma delta_commit_eq:
  assumes "heap_ok h" and "live h p" and "sd_parent (h ! p) = Some q" and "sd_backend (h ! p) = Some c"
  shows "delta_commit H p h =
    (if delta_final h p
     then (Returned (), (commit_heap p h)[p := (h ! p)\<lparr>sd_merkle_root := Some (commit_merkle_root H (h ! p)),
              sd_removed := [],
              sd_backend := Some ((commit_backend p h)\<lparr>be_revision := be_revision c, be_id := be_id c,
                be_merkle_root := commit_merkle_root H (h ! p)\<rparr>),
              sd_parent := None\<rparr>])
     else (Threw (Runtime_error ''cannot return merkle root of non-final node''), commit_heap p h))"
proof -
  let ?r = "last (ancestry h p)"
  have p: "p < length h" using assms(2) by (simp add: live_def)
  obtain b where b: "sd_backend (h ! ?r) = Some b"
    using assms(2) last_in_set [OF ancestry_Nil, of h p] unfolding live_def by blast
  note self = commit_heap_self [OF assms(1-3)]
  have stack: "node_stack (length h) h p = Returned (ancestry h p)"
    using node_stack_ancestry [OF assms(1) p p] .
  have "delta_commit H p h =
    (andThen (delta_merkle_root H p) (\<lambda>m.
       upd_delta p (\<lambda>d. d\<lparr>sd_removed := [],
         sd_backend := Some ((commit_backend p h)\<lparr>be_revision := be_revision c, be_id := be_id c, be_merkle_root := m\<rparr>),
         sd_parent := None\<rparr>))) (commit_heap p h)"
    using assms(3,4) b stack self commit_nodes_run [OF assms(1-3) b]
    by (simp add: delta_commit_def op_defs delta_root_def get_backend_def start_write_batch_def
        end_write_batch_def store_metadata_def set_merkle_root_def set_id_def set_revision_def
        delta_revision_def delta_id_def)
  moreover have "delta_merkle_root H p (commit_heap p h) =
    (if delta_final h p
     then (Returned (commit_merkle_root H (h ! p)),
           (commit_heap p h)[p := (emptied (h ! p))\<lparr>sd_merkle_root := Some (commit_merkle_root H (h ! p))\<rparr>])
     else (Threw (Runtime_error ''cannot return merkle root of non-final node''), commit_heap p h))"
    by (rule commit_merkle_root_run [OF self p assms(4)])
  ultimately show ?thesis
    using p by (simp add: op_defs self emptied_def)
qed


lemma commit_heap_ok: "heap_ok h \<Longrightarrow> p < length h \<Longrightarrow> heap_ok (commit_heap p h)"
  by (auto simp: heap_ok_def commit_heap_nth delta_ok_def backend_ok_def split: option.splits)

lemma delta_commit_run:
  assumes "heap_ok h" and "live h p" and "\<not> delta_root h p" and "delta_final h p"
  shows "\<exists>h'. delta_commit H p h = (Returned (), h') \<and> heap_ok h' \<and> live h' p \<and> delta_root h' p
       \<and> view h' p = view h p
       \<and> delta_id h' p = delta_id h p \<and> delta_revision h' p = delta_revision h p
       \<and> sd_backend (h' ! last (ancestry h p)) = None"
proof -
  obtain q where q: "sd_parent (h ! p) = Some q" using assms(3) by (auto simp: delta_root_def)
  obtain c where c: "sd_backend (h ! p) = Some c" using live_backend [OF assms(2)] by auto
  obtain b where b: "sd_backend (h ! last (ancestry h p)) = Some b"
    using assms(2) last_in_set [OF ancestry_Nil, of h p] unfolding live_def by blast
  have p: "p < length h" using assms(2) by (simp add: live_def)
  let ?b = "(commit_backend p h)\<lparr>be_revision := be_revision c, be_id := be_id c,
                be_merkle_root := commit_merkle_root H (h ! p)\<rparr>"
  let ?d = "(h ! p)\<lparr>sd_merkle_root := Some (commit_merkle_root H (h ! p)), sd_removed := [],
              sd_backend := Some ?b, sd_parent := None\<rparr>"
  let ?h = "(commit_heap p h)[p := ?d]"
  have cb: "backend_ok (commit_backend p h)" "backend_get (commit_backend p h) = view h p"
    using commit_view [OF assms(1,2) b] by (simp_all add: commit_backend_def b)
  have ok: "heap_ok ?h"
    using cb(1) p by (intro heap_ok_upd commit_heap_ok assms(1)) (simp_all add: delta_ok_def backend_ok_def)
  have at: "?h ! p = ?d" using p by simp
  have "live ?h p" using at p by (simp add: live_def ancestry_root)
  moreover have "view ?h p = view h p"
    using view_root [of ?h p ?b] at cb(2) by (simp add: backend_get_def fun_eq_iff)
  moreover have "sd_backend (?h ! last (ancestry h p)) = None"
    using last_ancestry_less [OF q] live_parent [OF assms(1,2) q] p commit_heap_nth [OF p, of "last (ancestry h p)"]
    by auto
  ultimately show ?thesis
    using delta_commit_eq [OF assms(1,2) q c, of H] assms(4) ok at c
    by (auto simp: delta_root_def delta_id_def delta_revision_def get_backend_def)
qed

text \<open>
  C18: \<open>commit\<close> of a live, final delta below the root returns.  The delta becomes the root and shows
  exactly the store it showed before; the id and revision recorded in the new root backend are
  those of the delta, the old root has lost its backend, and the heap stays well-formed.
\<close>

theorem delta_commit_correct:
  assumes "heap_ok h" and "live h p" and "\<not> delta_root h p" and "delta_final h p"
  shows "\<exists>h'. delta_commit H p h = (Returned (), h') \<and> heap_ok h' \<and> live h' p \<and> delta_root h' p
       \<and> view h' p = view h p
       \<and> delta_id h' p = delta_id h p \<and> delta_revision h' p = delta_revision h p
       \<and> sd_backend (h' ! last (ancestry h p)) = None"
  using assms by (rule delta_commit_run)

lemma delta_commit_throws:
  assumes "heap_ok h" and "live h p" and "\<not> delta_root h p" and "\<not> delta_final h p"
  shows "\<exists>h'. delta_commit H p h = (Threw (Runtime_error ''cannot return merkle root of non-final node''), h')
       \<and> \<not> live h' p \<and> (\<forall>x \<in> set (ancestry h p). \<forall>k. own_entry h' x k = None)"
proof -
  obtain q where q: "sd_parent (h ! p) = Some q" using assms(3) by (auto simp: delta_root_def)
  obtain c where c: "sd_backend (h ! p) = Some c" using live_backend [OF assms(2)] by auto
  have p: "p < length h" using assms(2) by (simp add: live_def)
  note nth = commit_heap_nth [OF p]
  have bound: "x \<in> set (ancestry h p) \<Longrightarrow> x < length h" for x
    using ancestry_bound p by blast
  have "ancestry (commit_heap p h) p = ancestry h p"
    using nth bound by (intro ancestry_cong) auto
  moreover have "sd_backend (commit_heap p h ! last (ancestry h p)) = None"
    using nth bound last_in_set [OF ancestry_Nil, of h p] by simp
  ultimately have "\<not> live (commit_heap p h) p"
    using last_in_set [OF ancestry_Nil, of h p] unfolding live_def by metis
  moreover have "\<forall>x \<in> set (ancestry h p). \<forall>k. own_entry (commit_heap p h) x k = None"
    using nth bound by (auto simp: own_entry_def backend_get_def split: option.splits)
  ultimately show ?thesis
    using delta_commit_eq [OF assms(1,2) q c, of H] assms(4) by auto
qed

text \<open>
  \<open>commit\<close> of a delta that is not final throws, but only after the merge has run: the old root has
  lost its backend, so the delta is no longer live, and no delta from it to the root holds an
  entry any more.
\<close>

theorem delta_commit_not_final:
  assumes "heap_ok h" and "live h p" and "\<not> delta_root h p" and "\<not> delta_final h p"
  shows "\<exists>h'. delta_commit H p h = (Threw (Runtime_error ''cannot return merkle root of non-final node''), h')
       \<and> \<not> live h' p \<and> (\<forall>x \<in> set (ancestry h p). \<forall>k. own_entry h' x k = None)"
  using assms by (rule delta_commit_throws)

section \<open>Merkle root\<close>

text \<open>
  The leaves list every written entry and every removed key once, in key order; a removed key is a
  leaf pair with an empty value.
\<close>

fun leaf_pairs :: "bytes list \<Rightarrow> (bytes \<times> bytes) list" where
  "leaf_pairs (k # v # ls) = (k, v) # leaf_pairs ls"
| "leaf_pairs _ = []"

lemma set_leaf_pairs:
  "set (leaf_pairs (merkle_leafs es rs)) = set es \<union> (\<lambda>r. (r, [])) ` set rs"
  by (induction es rs rule: merkle_leafs.induct) auto

lemma length_merkle_leafs: "length (merkle_leafs es rs) = 2 * (length es + length rs)"
  by (induction es rs rule: merkle_leafs.induct) auto

lemma sorted_leaf_pairs:
  "sorted_map es \<Longrightarrow> sorted_set rs \<Longrightarrow> sorted (map fst (leaf_pairs (merkle_leafs es rs)))"
proof (induction es rs rule: merkle_leafs.induct)
  case (1 k v es r rs)
  have sub: "fst ` set (leaf_pairs (merkle_leafs a b)) = map_keys a \<union> set b" for a b
    by (simp add: set_leaf_pairs image_Un image_image map_keys_def)
  show ?case
  proof (cases "k < r")
    case True
    then show ?thesis
      using 1 sub [of es "r # rs"] by (auto simp: image_iff map_keys_def dest: less_imp_le intro: less_imp_le order.strict_trans)
  next
    case False
    then show ?thesis
      using 1 sub [of "(k, v) # es" rs] by (auto dest: less_imp_le)
  qed
next
  case (2 k v es)
  then show ?case by (force simp: set_leaf_pairs map_keys_def)
next
  case (3 r rs)
  then show ?case by (force simp: set_leaf_pairs)
qed simp

text \<open>The changes a delta holds, as the merkle tree sees them.\<close>

definition delta_changes :: "heap \<Rightarrow> ptr \<Rightarrow> (bytes \<times> bytes) list" where
  "delta_changes h p =
     leaf_pairs (merkle_leafs (case sd_backend (h ! p) of None \<Rightarrow> [] | Some b \<Rightarrow> be_map b) (sd_removed (h ! p)))"

fun pairs_leafs :: "(bytes \<times> bytes) list \<Rightarrow> bytes list" where
  "pairs_leafs [] = []"
| "pairs_leafs ((k, v) # ps) = k # v # pairs_leafs ps"

lemma pairs_leafs_merkle: "pairs_leafs (leaf_pairs (merkle_leafs es rs)) = merkle_leafs es rs"
  by (induction es rs rule: merkle_leafs.induct) auto

lemma length_pairs_leafs: "length (pairs_leafs ps) = 2 * length ps"
  by (induction ps rule: pairs_leafs.induct) auto

lemma leaf_pairs_leafs: "leaf_pairs (pairs_leafs ps) = ps"
  by (induction ps rule: pairs_leafs.induct) auto

lemma delta_merkle_root_uncached:
  assumes "delta_final h p" and "sd_merkle_root (h ! p) = None" and "sd_backend (h ! p) \<noteq> None"
  shows "delta_merkle_root H p h =
    (Returned (merkle_root H (pairs_leafs (delta_changes h p))),
     h[p := (h ! p)\<lparr>sd_merkle_root := Some (merkle_root H (pairs_leafs (delta_changes h p)))\<rparr>])"
  using assms
  by (auto simp: delta_merkle_root_def op_defs delta_final_def get_backend_def Let_def delta_changes_def
      pairs_leafs_merkle)

text \<open>
  C19: The merkle root of a final delta is the root over its changes in key order: every written
  entry and every removed key (paired with the empty string) is a leaf pair, the pairs are sorted
  by key, and the call caches the root in the delta and changes nothing else, so that a second
  call returns the same digest.
\<close>

theorem delta_merkle_root_correct:
  assumes "heap_ok h" and "p < length h" and "delta_final h p"
    and "sd_merkle_root (h ! p) = None" and "sd_backend (h ! p) = Some b"
  shows "\<exists>m h'. delta_merkle_root H p h = (Returned m, h') \<and> m = merkle_root H (pairs_leafs (delta_changes h p))
       \<and> h' = h[p := (h ! p)\<lparr>sd_merkle_root := Some m\<rparr>]
       \<and> delta_merkle_root H p h' = (Returned m, h')
       \<and> sorted (map fst (delta_changes h p))
       \<and> set (delta_changes h p) = set (be_map b) \<union> (\<lambda>r. (r, [])) ` set (sd_removed (h ! p))"
proof -
  let ?m = "merkle_root H (pairs_leafs (delta_changes h p))"
  let ?h = "h[p := (h ! p)\<lparr>sd_merkle_root := Some ?m\<rparr>]"
  have "delta_merkle_root H p ?h = (Returned ?m, ?h)"
    using assms(2,3) by (simp add: delta_merkle_root_def op_defs delta_final_def)
  moreover have "sorted (map fst (delta_changes h p))"
    using delta_okD [OF assms(1,2)] assms(5)
    by (simp add: delta_changes_def sorted_leaf_pairs backend_ok_def)
  ultimately show ?thesis
    using delta_merkle_root_uncached [OF assms(3,4)] assms(5) by (simp add: delta_changes_def set_leaf_pairs)
qed


section \<open>Children and clones\<close>

lemma nth_fresh [simp]: "(h @ [d]) ! length h = d"
  by simp

lemma view_append: "live h q \<Longrightarrow> view (h @ [d]) q = view h q"
  using ancestry_bound by (intro view_cong) (auto simp: nth_append live_def)

lemma ancestry_append: "q < length h \<Longrightarrow> ancestry (h @ [d]) q = ancestry h q"
  using ancestry_bound by (intro ancestry_cong) (auto simp: nth_append)

lemma live_append: "live h q \<Longrightarrow> live (h @ [d]) q"
  using ancestry_bound by (auto simp: live_def ancestry_append nth_append)

lemma delta_make_child_run:
  assumes "heap_ok h" and "live h p" and "sd_backend (h ! p) = Some b"
  shows "\<exists>h'. delta_make_child p i h = (Returned (length h), h')
       \<and> heap_ok h' \<and> live h' (length h) \<and> view h' (length h) = view h p
       \<and> delta_parent h' (length h) = Some p \<and> \<not> delta_final h' (length h)
       \<and> (\<forall>k. \<not> shadowed h' (length h) k)
       \<and> delta_revision h' (length h) = Returned (be_revision b + 1)
       \<and> delta_id h' (length h) = Returned (if i = null_id then be_id b else i)
       \<and> (\<forall>q. live h q \<longrightarrow> live h' q \<and> view h' q = view h q)"
proof -
  have p: "p < length h" using assms(2) by (simp add: live_def)
  let ?b = "map_backend_new (if i = null_id then be_id b else i) (be_revision b + 1)"
  let ?d = "state_delta_default\<lparr>sd_parent := Some p, sd_backend := Some ?b\<rparr>"
  let ?h = "h @ [?d]"
  have ok: "heap_ok ?h"
    using p by (intro heap_ok_append assms(1))
      (simp add: delta_ok_def backend_ok_def state_delta_default_def map_backend_new_def)
  have anc: "ancestry ?h (length h) = length h # ancestry h p"
    using p ancestry_step [of ?h "length h" p] by (simp add: ancestry_append)
  have lv: "live ?h (length h)"
    using live_append [OF assms(2), of ?d] p by (auto simp: live_def anc ancestry_append)
  have "view ?h (length h) = view h p"
    using view_child [OF ok, of "length h" p ?b] view_append [OF assms(2), of ?d]
    by (simp add: state_delta_default_def map_backend_new_def backend_get_def fun_eq_iff restrict_map_def map_add_def)
  then show ?thesis
    using ok lv assms(3)
    by (auto simp: delta_make_child_def op_defs delta_id_def delta_revision_def get_backend_def make_shared_def
        delta_parent_def delta_final_def shadowed_def own_entry_def backend_get_def view_append live_append
        map_backend_new_def state_delta_default_def)
qed

text \<open>
  \<open>make_child\<close> of a live delta returns a fresh delta that shows the parent's store, holds no change
  of its own, is not final, has the next revision (wrapping at 64 bits) and the given id, or the
  parent's when the id is the null id; every existing delta keeps its store.
\<close>

theorem delta_make_child_correct:
  assumes "heap_ok h" and "live h p" and "sd_backend (h ! p) = Some b"
  shows "\<exists>h'. delta_make_child p i h = (Returned (length h), h')
       \<and> heap_ok h' \<and> live h' (length h) \<and> view h' (length h) = view h p
       \<and> delta_parent h' (length h) = Some p \<and> \<not> delta_final h' (length h)
       \<and> (\<forall>k. \<not> shadowed h' (length h) k)
       \<and> delta_revision h' (length h) = Returned (be_revision b + 1)
       \<and> delta_id h' (length h) = Returned (if i = null_id then be_id b else i)
       \<and> (\<forall>q. live h q \<longrightarrow> live h' q \<and> view h' q = view h q)"
  using assms by (rule delta_make_child_run)

lemma delta_clone_run:
  assumes "heap_ok h" and "live h p" and "sd_backend (h ! p) = Some b"
  shows "\<exists>h'. delta_clone p i h = (Returned (length h), h')
       \<and> heap_ok h' \<and> live h' (length h) \<and> view h' (length h) = view h p
       \<and> delta_parent h' (length h) = delta_parent h p
       \<and> delta_final h' (length h) = delta_final h p
       \<and> sd_merkle_root (h' ! length h) = sd_merkle_root (h ! p)
       \<and> delta_revision h' (length h) = Returned (be_revision b)
       \<and> delta_id h' (length h) = Returned (if i = null_id then be_id b else i)
       \<and> (\<forall>q. live h q \<longrightarrow> live h' q \<and> view h' q = view h q)"
proof -
  have p: "p < length h" using assms(2) by (simp add: live_def)
  define c where "c = (case sd_merkle_root (h ! p) of
      Some m \<Rightarrow> set_merkle_root (if i \<noteq> null_id then set_id b i else b) m
    | None \<Rightarrow> if i \<noteq> null_id then set_id b i else b)"
  have c: "be_map c = be_map b" "be_revision c = be_revision b" "be_id c = (if i = null_id then be_id b else i)"
    by (simp_all add: c_def set_merkle_root_def set_id_def split: option.split)
  let ?d = "state_delta_default\<lparr>sd_parent := sd_parent (h ! p), sd_removed := sd_removed (h ! p),
          sd_final := sd_final (h ! p), sd_merkle_root := sd_merkle_root (h ! p), sd_backend := Some c\<rparr>"
  let ?h = "h @ [?d]"
  have run: "delta_clone p i h = (Returned (length h), ?h)"
    using assms(3) by (simp add: delta_clone_def op_defs get_backend_def make_shared_def Let_def backend_clone_def c_def)
  have par: "sd_parent (h ! p) = Some q \<Longrightarrow> q < p \<and> live h q" for q
    using live_parent [OF assms(1,2)] .
  have ok: "heap_ok ?h"
    using p heap_ok_delta [OF assms(1) p] assms(3) par c(1)
    by (intro heap_ok_append assms(1)) (fastforce simp: delta_ok_def backend_ok_def split: option.splits)
  have lv: "live ?h (length h)"
  proof (cases "sd_parent (h ! p)")
    case None
    then show ?thesis by (simp add: live_def ancestry_root)
  next
    case (Some q)
    then have "ancestry ?h (length h) = length h # ancestry h q"
      using p par [OF Some] ancestry_step [of ?h "length h" q] by (simp add: ancestry_append)
    then show ?thesis
      using live_append [of h q ?d] par [OF Some] p by (auto simp: live_def ancestry_append)
  qed
  have "view ?h (length h) key = view h p key" for key
    using view_own [OF ok lv, of key] view_own [OF assms(1,2), of key] assms(3) par c(1)
    by (auto simp: own_entry_def parent_view_def backend_get_def view_append split: option.splits)
  then show ?thesis
    using run ok lv c
    by (auto simp: delta_id_def delta_revision_def get_backend_def delta_parent_def delta_final_def
        view_append live_append)
qed

text \<open>
  \<open>clone\<close> of a live delta returns a fresh delta with the same parent that shows the same store,
  with the same revision, finality and cached merkle root, and the given id unless it is the null
  id; every existing delta keeps its store.
\<close>

theorem delta_clone_correct:
  assumes "heap_ok h" and "live h p" and "sd_backend (h ! p) = Some b"
  shows "\<exists>h'. delta_clone p i h = (Returned (length h), h')
       \<and> heap_ok h' \<and> live h' (length h) \<and> view h' (length h) = view h p
       \<and> delta_parent h' (length h) = delta_parent h p
       \<and> delta_final h' (length h) = delta_final h p
       \<and> sd_merkle_root (h' ! length h) = sd_merkle_root (h ! p)
       \<and> delta_revision h' (length h) = Returned (be_revision b)
       \<and> delta_id h' (length h) = Returned (if i = null_id then be_id b else i)
       \<and> (\<forall>q. live h q \<longrightarrow> live h' q \<and> view h' q = view h q)"
  using assms by (rule delta_clone_run)

section \<open>Evaluated instances\<close>

text \<open>
  A root with two entries, an empty child, a second child that overwrites one entry and removes
  the other, and a grandchild.
\<close>

definition sample_cell :: "ptr option \<Rightarrow> (bytes, bytes) smap \<Rightarrow> bytes list \<Rightarrow> u64 \<Rightarrow> bool \<Rightarrow> state_delta" where
  "sample_cell q m rs r f =
     \<lparr>sd_parent = q, sd_backend = Some ((map_backend_new null_id r)\<lparr>be_map := m\<rparr>), sd_removed = rs,
      sd_merkle_root = None, sd_final = f\<rparr>"

definition sample_heap :: heap where
  "sample_heap =
     [sample_cell None [([1], [10]), ([2], [20, 21])] [] 0 True,
      sample_cell (Some 0) [] [] 1 False,
      sample_cell (Some 0) [([2], [7])] [[1]] 1 True,
      sample_cell (Some 2) [([3], [])] [[2]] 2 False]"

lemma sample_nth:
  "length sample_heap = 4"
  "sample_heap ! 0 = sample_cell None [([1], [10]), ([2], [20, 21])] [] 0 True"
  "sample_heap ! 2 = sample_cell (Some 0) [([2], [7])] [[1]] 1 True"
  "sample_heap ! 3 = sample_cell (Some 2) [([3], [])] [[2]] 2 False"
  by (simp_all add: sample_heap_def)

lemma sample_cell_simps [simp]:
  "sd_parent (sample_cell q m rs r f) = q" "sd_removed (sample_cell q m rs r f) = rs"
  "sd_final (sample_cell q m rs r f) = f" "sd_merkle_root (sample_cell q m rs r f) = None"
  "sd_backend (sample_cell q m rs r f) = Some ((map_backend_new null_id r)\<lparr>be_map := m\<rparr>)"
  by (simp_all add: sample_cell_def)

lemma sample_heap_ok: "heap_ok sample_heap"
  by (simp add: heap_ok_def sample_heap_def delta_ok_def backend_ok_def map_backend_new_def
      All_less_Suc numeral_2_eq_2 numeral_3_eq_3)

lemma sample_ancestry: "ancestry sample_heap 2 = [2, 0]" "ancestry sample_heap 3 = [3, 2, 0]"
  by (simp_all add: ancestry.simps sample_nth)

lemma sample_live: "live sample_heap 2" "live sample_heap 3"
  by (simp_all add: live_def sample_ancestry sample_nth)

lemma sample_queries:
  "\<not> delta_final sample_heap 3" "delta_final sample_heap 2"
  "\<not> delta_root sample_heap 3" "\<not> delta_root sample_heap 2"
  "sd_merkle_root (sample_heap ! 2) = None" "2 < length sample_heap"
  by (simp_all add: delta_final_def delta_root_def sample_nth)

lemmas sample_view =
  view_nearest [OF sample_heap_ok sample_live(1)] view_nearest [OF sample_heap_ok sample_live(2)]
  sample_ancestry sample_nth parent_view_def shadowed_def own_entry_def backend_get_def map_backend_new_def

theorem delta_get_correct_witness:
  "delta_get sample_heap 3 [2] = Returned None \<and> delta_get sample_heap 2 [2] = Returned (Some [7])"
  using delta_get_correct [OF sample_heap_ok sample_live(2), of "[2]"]
    delta_get_correct [OF sample_heap_ok sample_live(1), of "[2]"]
  by (simp add: sample_view)

theorem delta_put_correct_witness:
  "view (snd (delta_put 3 [1] [5] sample_heap)) 3 [1] = Some [5]
   \<and> delta_put 2 [1] [5] sample_heap = (Threw final_error, sample_heap)"
  using delta_put_correct [OF sample_heap_ok sample_live(2), of "[1]" "[5]"]
    delta_put_correct [OF sample_heap_ok sample_live(1), of "[1]" "[5]"]
  by (auto simp: sample_queries)

theorem delta_put_size_witness:
  "fst (delta_put 3 [2] [1, 2] sample_heap) = Returned 1"
  using delta_put_size [OF sample_heap_ok sample_live(2) sample_queries(1), of "[2]" "[1, 2]"]
  by (simp add: sample_view)

theorem delta_remove_correct_witness:
  "view (snd (delta_remove 3 [3] sample_heap)) 3 [3] = None
   \<and> delta_remove 2 [2] sample_heap = (Threw final_error, sample_heap)"
  using delta_remove_correct [OF sample_heap_ok sample_live(2), of "[3]"]
    delta_remove_correct [OF sample_heap_ok sample_live(1), of "[2]"]
  by (auto simp: sample_queries)

theorem delta_remove_size_witness:
  "fst (delta_remove 3 [2] sample_heap) = Returned (-2)"
  using delta_remove_size [OF sample_heap_ok sample_live(2) sample_queries(1), of "[2]"]
  by (simp add: sample_view)

theorem delta_squash_correct_witness:
  "\<exists>h'. delta_squash 3 sample_heap = (Returned (), h') \<and> view h' 2 = view sample_heap 3"
  using delta_squash_correct [OF sample_heap_ok sample_live(2)]
  by (auto simp: sample_nth)

theorem delta_commit_correct_witness:
  "\<exists>h'. delta_commit pad_digest 2 sample_heap = (Returned (), h') \<and> delta_root h' 2
     \<and> view h' 2 = view sample_heap 2"
  using delta_commit_correct [OF sample_heap_ok sample_live(1) sample_queries(4,2), of pad_digest]
  by auto

theorem delta_commit_not_final_witness:
  "\<exists>h'. delta_commit pad_digest 3 sample_heap
      = (Threw (Runtime_error ''cannot return merkle root of non-final node''), h') \<and> \<not> live h' 3"
  using delta_commit_not_final [OF sample_heap_ok sample_live(2) sample_queries(3,1), of pad_digest]
  by auto

lemma sample_backend_2:
  "sd_backend (sample_heap ! 2) = Some ((map_backend_new null_id 1)\<lparr>be_map := [([2], [7])]\<rparr>)"
  by (simp add: sample_nth)

lemma sample_changes: "delta_changes sample_heap 2 = [([1], []), ([2], [7])]"
  by (simp add: delta_changes_def sample_nth)

theorem delta_merkle_root_correct_witness:
  "fst (delta_merkle_root pad_digest 2 sample_heap) = Returned (merkle_root pad_digest [[1], [], [2], [7]])"
  using delta_merkle_root_correct [OF sample_heap_ok sample_queries(6,2,5) sample_backend_2, of pad_digest]
  by (auto simp: sample_changes)

text \<open>A delta that stores an empty value where the sample's child removes the key: same changes, same root.\<close>

definition sample_empty_heap :: heap where
  "sample_empty_heap = [sample_cell None [([1], []), ([2], [7])] [] 1 True]"

lemma length_pad_digest: "\<forall>x. length (pad_digest x) = 32"
  by (auto simp: pad_digest_def min_def)


theorem delta_make_child_correct_witness:
  "\<exists>h'. delta_make_child 2 null_id sample_heap = (Returned 4, h') \<and> view h' 4 = view sample_heap 2
     \<and> delta_revision h' 4 = Returned 2"
  using delta_make_child_correct [OF sample_heap_ok sample_live(1) sample_backend_2, of null_id]
  by (auto simp: sample_nth map_backend_new_def)

theorem delta_clone_correct_witness:
  "\<exists>h'. delta_clone 2 null_id sample_heap = (Returned 4, h') \<and> view h' 4 = view sample_heap 2
     \<and> delta_revision h' 4 = Returned 1"
  using delta_clone_correct [OF sample_heap_ok sample_live(1) sample_backend_2, of null_id]
  by (auto simp: sample_nth map_backend_new_def)

end
