(* ===== verification/State_Node.thy ===== *)
theory State_Node
  imports State_Delta
begin

text \<open>
  State nodes (\<open>state_db/state_node.hpp\<close>, \<open>state_node.cpp\<close>, \<open>temporary_state_node.cpp\<close>): the handle
  through which programs and the controller read and write a delta.  An object lives under a
  compound key, the bytes of its object space followed by its own key; the theorems show that
  object spaces never interfere and that a temporary node is squashed at most once.
\<close>

section \<open>Object spaces and compound keys\<close>

record object_space =
  os_system :: bool
  os_padding :: "u8 list"
  os_address :: bytes
  os_id :: u32

text \<open>The object representation: one byte for the flag, the padding, the address, the id.\<close>

definition object_space_bytes :: "object_space \<Rightarrow> bytes" where
  "object_space_bytes s =
     (if os_system s then 1 else 0) # os_padding s @ os_address s @ u32_bytes (os_id s)"

definition object_space_ok :: "object_space \<Rightarrow> bool" where
  "object_space_ok s \<longleftrightarrow> length (os_padding s) = 3 \<and> length (os_address s) = 32"

definition make_compound_key :: "object_space \<Rightarrow> bytes \<Rightarrow> bytes" where
  "make_compound_key s key = object_space_bytes s @ key"

section \<open>Nodes\<close>

text \<open>
  A permanent node always has a delta; a temporary node loses it when it is squashed.
  \<open>mutable_delta()\<close> and \<open>delta()\<close> return the pointer, which the callers dereference.
\<close>

datatype state_node = Permanent_node ptr | Temporary_node "ptr option"

fun node_delta :: "state_node \<Rightarrow> ptr outcome" where
  "node_delta (Permanent_node p) = Returned p"
| "node_delta (Temporary_node (Some p)) = Returned p"
| "node_delta (Temporary_node None) = Threw Null_dereference"

definition node_get :: "heap \<Rightarrow> state_node \<Rightarrow> object_space \<Rightarrow> bytes \<Rightarrow> bytes option outcome" where
  "node_get h n space key = bindO (node_delta n) (\<lambda>p. delta_get h p (make_compound_key space key))"

definition node_next :: "state_node \<Rightarrow> object_space \<Rightarrow> bytes \<Rightarrow> (bytes \<times> bytes) option" where
  "node_next n space key = None"

definition node_previous :: "state_node \<Rightarrow> object_space \<Rightarrow> bytes \<Rightarrow> (bytes \<times> bytes) option" where
  "node_previous n space key = None"

definition node_put :: "state_node \<Rightarrow> object_space \<Rightarrow> bytes \<Rightarrow> bytes \<Rightarrow> (heap, int) op" where
  "node_put n space key val =
     andThen (readsE (\<lambda>_. node_delta n)) (\<lambda>p. delta_put p (make_compound_key space key) val)"

definition node_remove :: "state_node \<Rightarrow> object_space \<Rightarrow> bytes \<Rightarrow> (heap, int) op" where
  "node_remove n space key =
     andThen (readsE (\<lambda>_. node_delta n)) (\<lambda>p. delta_remove p (make_compound_key space key))"

definition node_make_child :: "state_node \<Rightarrow> (heap, state_node) op" where
  "node_make_child n =
     andThen (readsE (\<lambda>_. node_delta n)) (\<lambda>p.
     andThen (delta_make_child p null_id) (\<lambda>c. returns (Temporary_node (Some c))))"

definition node_clone :: "state_node \<Rightarrow> (heap, state_node) op" where
  "node_clone n =
     andThen (readsE (\<lambda>_. node_delta n)) (\<lambda>p.
     andThen (delta_clone p null_id) (\<lambda>c. returns (Temporary_node (Some c))))"

definition node_id :: "heap \<Rightarrow> state_node \<Rightarrow> state_node_id outcome" where
  "node_id h n = bindO (node_delta n) (delta_id h)"

definition node_parent_id :: "heap \<Rightarrow> state_node \<Rightarrow> state_node_id outcome" where
  "node_parent_id h n = bindO (node_delta n) (delta_parent_id h)"

definition node_revision :: "heap \<Rightarrow> state_node \<Rightarrow> u64 outcome" where
  "node_revision h n = bindO (node_delta n) (delta_revision h)"

text \<open>\<open>temporary_state_node::squash\<close> returns the node with its \<open>_delta\<close> reset.\<close>

definition temporary_squash :: "ptr option \<Rightarrow> (heap, state_node) op" where
  "temporary_squash d =
     (case d of
        None \<Rightarrow> throws (Runtime_error ''state node has already been squashed'')
      | Some p \<Rightarrow>
          andThen (readsE (\<lambda>h. case delta_parent h p of
                                None \<Rightarrow> Threw Null_dereference
                              | Some q \<Rightarrow> Returned (delta_final h q))) (\<lambda>fin.
          if fin then throws (Runtime_error ''parent state node is final'')
          else andThen (delta_squash p) (\<lambda>_. returns (Temporary_node None))))"

section \<open>Object spaces do not interfere\<close>

lemma length_object_space_bytes: "object_space_ok s \<Longrightarrow> length (object_space_bytes s) = 40"
  by (simp add: object_space_bytes_def object_space_ok_def)

lemma object_space_bytes_inject:
  assumes "object_space_ok s" and "object_space_ok t"
  shows "object_space_bytes s = object_space_bytes t \<longleftrightarrow> s = t"
  using assms
  by (cases s; cases t) (auto simp: object_space_bytes_def object_space_ok_def u32_bytes_inject split: if_splits)

lemma make_compound_key_inject:
  assumes "object_space_ok s" and "object_space_ok t"
  shows "make_compound_key s k = make_compound_key t l \<longleftrightarrow> s = t \<and> k = l"
  using assms length_object_space_bytes [OF assms(1)] length_object_space_bytes [OF assms(2)]
  by (auto simp: make_compound_key_def object_space_bytes_inject)

lemma make_compound_key_nonempty [simp]: "make_compound_key s k \<noteq> []"
  by (simp add: make_compound_key_def object_space_bytes_def)

text \<open>The objects of one space, as a node shows them.\<close>

definition node_view :: "heap \<Rightarrow> ptr \<Rightarrow> object_space \<Rightarrow> bytes \<Rightarrow> bytes option" where
  "node_view h p space key = view h p (make_compound_key space key)"

text \<open>What a write through a node does to every object of every space.\<close>

lemma node_put_run:
  assumes "heap_ok h" and "live h p" and "\<not> delta_final h p" and "node_delta n = Returned p"
  shows "\<exists>m h'. node_put n s k v h = (Returned m, h') \<and> heap_ok h'
       \<and> view h' p = (view h p)(make_compound_key s k \<mapsto> v)
       \<and> (\<forall>q. live h q \<longrightarrow> live h' q)"
  using delta_put_run [OF assms(1,2), of "make_compound_key s k" v] assms(3,4)
  by (auto simp: node_put_def op_defs)

lemma node_remove_run:
  assumes "heap_ok h" and "live h p" and "\<not> delta_final h p" and "node_delta n = Returned p"
  shows "\<exists>m h'. node_remove n s k h = (Returned m, h') \<and> heap_ok h'
       \<and> view h' p = (view h p)(make_compound_key s k := None)
       \<and> (\<forall>q. live h q \<longrightarrow> live h' q)"
  using delta_remove_run [OF assms(1,2) make_compound_key_nonempty, of s k] assms(3,4)
  by (auto simp: node_remove_def op_defs)

text \<open>
  C21: Writing an object through a node changes that object only: after \<open>put\<close> of a key in one object
  space, the node shows the new value there, and every object of every other space and every
  other key of the same space is as before.  The same holds of \<open>remove\<close>.
\<close>

theorem node_write_isolated:
  assumes "heap_ok h" and "live h p" and "\<not> delta_final h p" and "node_delta n = Returned p"
    and "object_space_ok s" and "object_space_ok t"
  shows "\<exists>a h' b h''. node_put n s k v h = (Returned a, h')
       \<and> node_get h' n t l = Returned (if t = s \<and> l = k then Some v else node_view h p t l)
       \<and> node_remove n s k h = (Returned b, h'')
       \<and> node_get h'' n t l = Returned (if t = s \<and> l = k then None else node_view h p t l)"
proof -
  obtain a h' where a: "node_put n s k v h = (Returned a, h')" "heap_ok h'" "live h' p"
      "view h' p = (view h p)(make_compound_key s k \<mapsto> v)"
    using node_put_run [OF assms(1-4), of s k v] assms(2) by auto
  obtain b h'' where b: "node_remove n s k h = (Returned b, h'')" "heap_ok h''" "live h'' p"
      "view h'' p = (view h p)(make_compound_key s k := None)"
    using node_remove_run [OF assms(1-4), of s k] assms(2) by auto
  note inj = make_compound_key_inject [OF assms(6,5)]
  have "node_get h' n t l = Returned (if t = s \<and> l = k then Some v else node_view h p t l)"
    using a assms(4) by (simp add: node_get_def node_view_def delta_get_view inj)
  moreover have "node_get h'' n t l = Returned (if t = s \<and> l = k then None else node_view h p t l)"
    using b assms(4) by (simp add: node_get_def node_view_def delta_get_view inj)
  ultimately show ?thesis using a(1) b(1) by blast
qed

definition sample_space :: "u32 \<Rightarrow> object_space" where
  "sample_space i = \<lparr>os_system = True, os_padding = [0, 0, 0], os_address = replicate 32 0, os_id = i\<rparr>"

theorem node_write_isolated_witness:
  "\<exists>a h'. node_put (Permanent_node 3) (sample_space 1) [1] [5] sample_heap = (Returned a, h')
     \<and> node_get h' (Permanent_node 3) (sample_space 2) [1] = Returned (node_view sample_heap 3 (sample_space 2) [1])"
  using node_write_isolated [OF sample_heap_ok sample_live(2) sample_queries(1), of "Permanent_node 3"
      "sample_space 1" "sample_space 2" "[1]" "[5]" "[1]"]
  by (auto simp: object_space_ok_def sample_space_def)

text \<open>
  \<open>temporary_state_node::squash\<close> on a node over a live, non-final parent merges the node into its
  parent, which then shows what the node showed, and invalidates the node: every later read, write
  or squash through it fails.  Over a final parent it throws and changes nothing.
\<close>

theorem temporary_squash_once:
  assumes "heap_ok h" and "live h p" and "delta_parent h p = Some q"
  shows "if delta_final h q
     then temporary_squash (Some p) h = (Threw (Runtime_error ''parent state node is final''), h)
     else \<exists>h'. temporary_squash (Some p) h = (Returned (Temporary_node None), h')
          \<and> heap_ok h' \<and> view h' q = view h p
          \<and> node_get h' (Temporary_node None) s k = Threw Null_dereference
          \<and> node_put (Temporary_node None) s k v h' = (Threw Null_dereference, h')
          \<and> temporary_squash None h' = (Threw (Runtime_error ''state node has already been squashed''), h')"
  using delta_squash_run [OF assms(1,2)] assms(3)
  by (auto simp: temporary_squash_def op_defs delta_parent_def node_get_def node_put_def)

theorem temporary_squash_once_witness:
  "temporary_squash (Some 3) sample_heap = (Threw (Runtime_error ''parent state node is final''), sample_heap)"
  using temporary_squash_once [OF sample_heap_ok sample_live(2), of 2 undefined undefined undefined]
  by (simp add: delta_parent_def sample_nth sample_queries)

end
