(* ===== verification/Execution_Context.thy ===== *)
theory Execution_Context
  imports Host_Api Program_Stack Resource_Meter State_Node
begin

text \<open>
  The execution context (\<open>controller/execution_context.hpp\<close>, \<open>execution_context.cpp\<close>): the state a block or
  transaction is applied in, the system calls of programs, the run of native and user programs with
  the frame guard, and the application of operations, transactions and blocks.

  Programs call the context and the context runs programs; the recursion is bounded by the limit of
  the program stack, and so is the fuel of \<open>run_program\<close>: with a stack of 32 frames the 33rd call is
  refused before it runs anything.
\<close>

section \<open>State\<close>

datatype tolerance = Relaxed | Strict

datatype intent = Read_only | Block_application | Transaction_application | Block_proposal

text \<open>
  The members of the context, the deltas its state node works on and the cache of the shared virtual machine.
  Spans and pointers into blocks, transactions and frames are values: what they refer to is not
  changed while they are used.
\<close>

record 'm execution_context =
  xc_heap :: heap
  xc_vm :: "'m module_cache"
  xc_state_node :: "state_node option"
  xc_stack :: program_stack
  xc_transaction :: "transaction option"
  xc_operation :: "operation option"
  xc_resource_meter :: resource_meter
  xc_frame_recorder :: frame_recorder
  xc_intent :: intent
  xc_verified_signatures :: "account list"

text \<open>
  The parameters of the model: the hash, the signature scheme, the WebAssembly interpreter, and the contents
  of uninitialised account variables.
\<close>

record ('m, 'k) node_env =
  ne_hash :: "bytes \<Rightarrow> digest"
  ne_scheme :: signature_scheme
  ne_fizzy :: "('m, 'k) fizzy"
  ne_junk :: "nat \<Rightarrow> account"

definition execution_context_new :: "heap \<Rightarrow> 'm module_cache \<Rightarrow> intent \<Rightarrow> 'm execution_context" where
  "execution_context_new h vm i =
     \<lparr>xc_heap = h, xc_vm = vm, xc_state_node = None, xc_stack = program_stack_new default_stack_limit,
      xc_transaction = None, xc_operation = None, xc_resource_meter = resource_meter_new,
      xc_frame_recorder = frame_recorder_new, xc_intent = i, xc_verified_signatures = []\<rparr>"

definition set_state_node :: "state_node \<Rightarrow> 'm execution_context \<Rightarrow> 'm execution_context" where
  "set_state_node n c = c\<lparr>xc_state_node := Some n\<rparr>"

definition clear_state_node :: "'m execution_context \<Rightarrow> 'm execution_context" where
  "clear_state_node c = c\<lparr>xc_state_node := None\<rparr>"

text \<open>Operations on one member.\<close>

definition on_meter :: "(resource_meter, 'a) op \<Rightarrow> ('m execution_context, 'a) op" where
  "on_meter m c = (case m (xc_resource_meter c) of (r, x) \<Rightarrow> (r, c\<lparr>xc_resource_meter := x\<rparr>))"

definition on_heap :: "(heap, 'a) op \<Rightarrow> ('m execution_context, 'a) op" where
  "on_heap m c = (case m (xc_heap c) of (r, x) \<Rightarrow> (r, c\<lparr>xc_heap := x\<rparr>))"

definition on_stack :: "(program_stack, 'a) op \<Rightarrow> ('m execution_context, 'a) op" where
  "on_stack m c = (case m (xc_stack c) of (r, x) \<Rightarrow> (r, c\<lparr>xc_stack := x\<rparr>))"

text \<open>\<open>assert( _state_node )\<close>, then the node.\<close>

definition the_node :: "('m execution_context, state_node) op" where
  "the_node = readsE (\<lambda>c. case xc_state_node c of None \<Rightarrow> Threw Assertion_failed | Some n \<Rightarrow> Returned n)"

definition the_frame :: "('m execution_context, stack_frame) op" where
  "the_frame = readsE (\<lambda>c. peek_frame (xc_stack c))"

definition read_object :: "state_node \<Rightarrow> object_space \<Rightarrow> bytes \<Rightarrow> ('m execution_context, bytes option) op" where
  "read_object n space key = readsE (\<lambda>c. node_get (xc_heap c) n space key)"

section \<open>Constants\<close>

text \<open>The spaces of the system (\<open>controller/state.cpp\<close>) and the key of the genesis public key.\<close>

definition system_space :: "u32 \<Rightarrow> object_space" where
  "system_space i = \<lparr>os_system = True, os_padding = [0, 0, 0], os_address = replicate 32 0, os_id = i\<rparr>"

definition metadata_space :: object_space where
  "metadata_space = system_space 0"

definition program_data_space :: object_space where
  "program_data_space = system_space 1"

definition transaction_nonce_space :: object_space where
  "transaction_nonce_space = system_space 2"

definition genesis_key :: "(bytes \<Rightarrow> digest) \<Rightarrow> bytes" where
  "genesis_key H = hash_c_string H ''object_key::genesis_key''"

definition coin_account :: account where
  "coin_account = system_program (string_bytes ''coin'')"

definition compute_cost :: u64 where
  "compute_cost = 1"

definition default_account_resources :: u64 where
  "default_account_resources = 1000000000"

definition default_resource_limits :: resource_limits where
  "default_resource_limits =
     \<lparr>disk_storage_limit = 409600, disk_storage_cost = 10, network_bandwidth_limit = 1048576,
      network_bandwidth_cost = 5, compute_bandwidth_limit = 100000000, compute_bandwidth_cost = 1\<rparr>"

definition network_id :: "(bytes \<Rightarrow> digest) \<Rightarrow> digest" where
  "network_id H = hash_c_string H ''respublica''"

section \<open>System calls\<close>

text \<open>The charge at the start of every system call; its error code is ignored.\<close>

definition charge_call :: "('m execution_context, unit) op" where
  "charge_call = andThen (on_meter (use_compute_bandwidth compute_cost)) (\<lambda>_. returns ())"

definition xc_arguments :: "('m execution_context, bytes list) op" where
  "xc_arguments =
     andThen (reads (\<lambda>c. stack_size (xc_stack c))) (\<lambda>n.
     if n = 0 then throws stack_empty_error
     else andThen charge_call (\<lambda>_. andThen the_frame (\<lambda>f. returns (sf_arguments f))))"

definition set_frame :: "(stack_frame \<Rightarrow> stack_frame) \<Rightarrow> ('m execution_context, unit) op" where
  "set_frame f = modifies (\<lambda>c. c\<lparr>xc_stack := upd_frame f (xc_stack c)\<rparr>)"

definition xc_write :: "file_descriptor \<Rightarrow> bytes \<Rightarrow> ('m execution_context, error_code) op" where
  "xc_write fd buffer =
     andThen charge_call (\<lambda>_.
     if fd = Fd_stdout then
       andThen the_frame (\<lambda>_.
       andThen (set_frame (\<lambda>f. f\<lparr>sf_stdout := sf_stdout f @ buffer\<rparr>)) (\<lambda>_. returns (controller_error Controller_ok)))
     else if fd = Fd_stderr then
       andThen the_frame (\<lambda>_.
       andThen (set_frame (\<lambda>f. f\<lparr>sf_stderr := sf_stderr f @ buffer\<rparr>)) (\<lambda>_. returns (controller_error Controller_ok)))
     else returns (controller_error Controller_bad_file_descriptor))"

definition xc_read :: "file_descriptor \<Rightarrow> bytes \<Rightarrow> ('m execution_context, bytes \<times> error_code) op" where
  "xc_read fd buffer =
     andThen charge_call (\<lambda>_.
     if fd = Fd_stdin then
       andThen the_frame (\<lambda>f.
       let n = min (length buffer) (length (sf_stdin f) - sf_stdin_offset f)
       in andThen (set_frame (\<lambda>f. f\<lparr>sf_stdin_offset := sf_stdin_offset f + n\<rparr>)) (\<lambda>_.
          returns (take n (drop (sf_stdin_offset f) (sf_stdin f)) @ drop n buffer, controller_error Controller_ok)))
     else returns (buffer, controller_error Controller_bad_file_descriptor))"

text \<open>
  The program id, 33 bytes, is copied to the start of the 32-byte address of a local object space.  The model
  is the effect on the object representation: what does not fit the address lands in the id that
  follows it, and beyond the id the copy leaves the object.
\<close>

definition object_space_of :: "bytes \<Rightarrow> u32 \<Rightarrow> object_space outcome" where
  "object_space_of program_id i =
     (if 36 < length program_id then Threw Out_of_range
      else let raw = program_id @ drop (length program_id) (replicate 32 0 @ u32_bytes i)
        in Returned \<lparr>os_system = False, os_padding = [0, 0, 0], os_address = take 32 raw, os_id = u32_of_bytes (drop 32 raw)\<rparr>)"

definition create_object_space :: "u32 \<Rightarrow> ('m execution_context, object_space) op" where
  "create_object_space i = andThen the_frame (\<lambda>f. readsE (\<lambda>_. object_space_of (sf_program_id f) i))"

definition xc_get_object :: "u32 \<Rightarrow> bytes \<Rightarrow> ('m execution_context, bytes) op" where
  "xc_get_object i key =
     andThen the_node (\<lambda>n.
     andThen charge_call (\<lambda>_.
     andThen (create_object_space i) (\<lambda>space.
     andThen (read_object n space key) (\<lambda>r.
     returns (case r of None \<Rightarrow> [] | Some v \<Rightarrow> v)))))"

definition xc_get_next_object :: "u32 \<Rightarrow> bytes \<Rightarrow> ('m execution_context, bytes \<times> bytes) op" where
  "xc_get_next_object i key =
     andThen the_node (\<lambda>n.
     andThen charge_call (\<lambda>_.
     andThen (create_object_space i) (\<lambda>space.
     returns (case node_next n space key of None \<Rightarrow> ([], []) | Some r \<Rightarrow> r))))"

definition xc_get_prev_object :: "u32 \<Rightarrow> bytes \<Rightarrow> ('m execution_context, bytes \<times> bytes) op" where
  "xc_get_prev_object i key =
     andThen the_node (\<lambda>n.
     andThen charge_call (\<lambda>_.
     andThen (create_object_space i) (\<lambda>space.
     returns (case node_previous n space key of None \<Rightarrow> ([], []) | Some r \<Rightarrow> r))))"

text \<open>The signed size change is converted to the unsigned amount the meter takes.\<close>

definition charge_disk :: "int \<Rightarrow> ('m execution_context, error_code) op" where
  "charge_disk n = on_meter (use_disk_storage (word_of_int n))"

definition xc_put_object :: "u32 \<Rightarrow> bytes \<Rightarrow> bytes \<Rightarrow> ('m execution_context, error_code) op" where
  "xc_put_object i key val =
     andThen the_node (\<lambda>n.
     andThen charge_call (\<lambda>_.
     andThen (create_object_space i) (\<lambda>space.
     andThen (on_heap (node_put n space key val)) charge_disk)))"

definition xc_remove_object :: "u32 \<Rightarrow> bytes \<Rightarrow> ('m execution_context, error_code) op" where
  "xc_remove_object i key =
     andThen the_node (\<lambda>n.
     andThen charge_call (\<lambda>_.
     andThen (create_object_space i) (\<lambda>space.
     andThen (on_heap (node_remove n space key)) charge_disk)))"

text \<open>
  The signatures of the transaction are verified in order and at most once; \<open>sig_index\<close> is the number of those
  already verified.
\<close>

fun verify_loop :: "signature_scheme \<Rightarrow> digest \<Rightarrow> account \<Rightarrow> authorization list \<Rightarrow> ('m execution_context, bool result) op" where
  "verify_loop sc dig account [] = returns (Inr False)"
| "verify_loop sc dig account (a # as) =
     (if \<not> public_key_verify sc (account_public_key (au_signer a)) (au_signature a) dig
      then returns (Inl (controller_error Controller_invalid_signature))
      else
        andThen (modifies (\<lambda>c. c\<lparr>xc_verified_signatures := xc_verified_signatures c @ [au_signer a]\<rparr>)) (\<lambda>_.
        if account = au_signer a then returns (Inr True) else verify_loop sc dig account as))"

definition check_signatures :: "signature_scheme \<Rightarrow> account \<Rightarrow> ('m execution_context, bool result) op" where
  "check_signatures sc account =
     andThen (readsE (\<lambda>c. case xc_transaction c of
        None \<Rightarrow> Threw (Runtime_error ''transaction required for check authority'') | Some t \<Rightarrow> Returned t)) (\<lambda>t.
     andThen (reads xc_verified_signatures) (\<lambda>verified.
     if account \<in> set verified then returns (Inr True)
     else verify_loop sc (tx_id t) account (drop (length verified) (tx_authorizations t))))"

type_synonym 'm runner = "account \<Rightarrow> bytes \<Rightarrow> bytes list \<Rightarrow> ('m execution_context, program_frame result) op"

definition xc_check_authority :: "signature_scheme \<Rightarrow> 'm runner \<Rightarrow> account \<Rightarrow> ('m execution_context, bool result) op" where
  "xc_check_authority sc run_strict account =
     andThen the_node (\<lambda>_.
     andThen charge_call (\<lambda>_.
     andThen (reads xc_intent) (\<lambda>i.
     if i = Read_only then returns (Inl (controller_error Controller_read_only_context))
     else if account_view_is_program account then
       andThen (run_strict account (u32_bytes 0) []) (\<lambda>r.
       case r of
         Inl e \<Rightarrow> returns (Inl e)
       | Inr output \<Rightarrow>
           if length (pf_stdout output) \<noteq> 1 then returns (Inl (controller_error Controller_unexpected_object))
           else andThen (readsE (\<lambda>_. bit_cast_bool (pf_stdout output))) (\<lambda>b. returns (Inr b)))
     else check_signatures sc account)))"

definition xc_get_caller :: "('m execution_context, bytes) op" where
  "xc_get_caller =
     andThen charge_call (\<lambda>_.
     andThen (reads (\<lambda>c. stack_size (xc_stack c))) (\<lambda>n.
     if n = 1 then returns [] else andThen the_frame (\<lambda>f. returns (sf_program_id f))))"

definition frame_output :: "program_frame \<Rightarrow> program_output" where
  "frame_output f = \<lparr>po_code = pf_code f, po_stdout = pf_stdout f, po_stderr = pf_stderr f\<rparr>"

definition xc_call_program ::
  "'m runner \<Rightarrow> account \<Rightarrow> bytes \<Rightarrow> bytes list \<Rightarrow> ('m execution_context, program_output result) op" where
  "xc_call_program run_relaxed account stdin arguments =
     andThen charge_call (\<lambda>_.
     andThen (run_relaxed account stdin arguments) (\<lambda>r.
     returns (case r of Inl e \<Rightarrow> Inl e | Inr f \<Rightarrow> Inr (frame_output f))))"

definition get_meter_ticks :: "'m execution_context \<Rightarrow> u64 outcome" where
  "get_meter_ticks c = remaining_compute_bandwidth (xc_resource_meter c)"

definition use_meter_ticks :: "u64 \<Rightarrow> ('m execution_context, error_code) op" where
  "use_meter_ticks ticks = on_meter (use_compute_bandwidth ticks)"

text \<open>The context as the system interface of the programs it runs.\<close>

definition xc_system :: "signature_scheme \<Rightarrow> 'm runner \<Rightarrow> 'm runner \<Rightarrow> 'm execution_context system_interface" where
  "xc_system sc run_strict run_relaxed =
     \<lparr>si_arguments = xc_arguments, si_write = xc_write, si_read = xc_read, si_get_object = xc_get_object,
      si_get_next_object = xc_get_next_object, si_get_prev_object = xc_get_prev_object,
      si_put_object = xc_put_object, si_remove_object = xc_remove_object,
      si_check_authority = xc_check_authority sc run_strict, si_get_caller = xc_get_caller,
      si_call_program = xc_call_program run_relaxed\<rparr>"

section \<open>Running programs\<close>

definition execute_native_program ::
  "('m, 'k) node_env \<Rightarrow> 'm execution_context system_interface \<Rightarrow> account \<Rightarrow> ('m execution_context, error_code) op" where
  "execute_native_program env sys account =
     noexcept
       (if account = coin_account
        then andThen the_frame (\<lambda>f. coin_run (ne_junk env) sys (sf_arguments f))
        else returns (controller_error Controller_invalid_program))"

definition execute_user_program ::
  "('m, 'k) node_env \<Rightarrow> 'm execution_context system_interface \<Rightarrow> account \<Rightarrow> ('m execution_context, error_code) op" where
  "execute_user_program env sys account =
     noexcept
       (andThen the_node (\<lambda>n.
        andThen (read_object n program_data_space account) (\<lambda>program_data.
        case program_data of
          None \<Rightarrow> returns (controller_error Controller_invalid_program)
        | Some pd \<Rightarrow>
            if length pd < 32 then throws Assertion_failed
            else
              virtual_machine_run (ne_fizzy env) xc_vm (\<lambda>vm c. c\<lparr>xc_vm := vm\<rparr>)
                (host_api_of sys get_meter_ticks use_meter_ticks) (drop 32 pd) (take 32 pd))))"

text \<open>The frame guard pops the frame on every way out of its scope.\<close>

definition frame_guard :: "('m execution_context, 'a) op \<Rightarrow> ('m execution_context, 'a) op" where
  "frame_guard m c = (case m c of (r, c') \<Rightarrow> (r, c'\<lparr>xc_stack := snd (pop_frame (xc_stack c'))\<rparr>))"

definition make_frame :: "account \<Rightarrow> bytes \<Rightarrow> bytes list \<Rightarrow> error_code \<Rightarrow> ('m execution_context, program_frame) op" where
  "make_frame account stdin arguments code =
     andThen the_frame (\<lambda>f.
     andThen (reads (\<lambda>c. stack_size (xc_stack c))) (\<lambda>depth.
     let frame = \<lparr>pf_arguments = arguments, pf_stdin = stdin, pf_code = ec_value code, pf_stdout = sf_stdout f,
                  pf_stderr = sf_stderr f, pf_id = account, pf_depth = word_of_nat depth\<rparr>
     in andThen (set_frame (\<lambda>f. f\<lparr>sf_stdout := [], sf_stderr := []\<rparr>)) (\<lambda>_.
        andThen (modifies (\<lambda>c. c\<lparr>xc_frame_recorder := recorder_add frame (xc_frame_recorder c)\<rparr>)) (\<lambda>_.
        returns frame))))"

text \<open>
  The body of \<open>run_program\<close> once the frame is pushed, over the interface the program is given.
\<close>

definition run_frame ::
  "('m, 'k) node_env \<Rightarrow> 'm execution_context system_interface \<Rightarrow> tolerance \<Rightarrow> account \<Rightarrow> bytes \<Rightarrow> bytes list
    \<Rightarrow> ('m execution_context, program_frame result) op" where
  "run_frame env sys T account stdin arguments =
     (let finish = (\<lambda>category code.
          if is_error code \<and> (T = Strict \<or> ec_category code \<noteq> category) then returns (Inl code)
          else andThen (make_frame account stdin arguments code) (\<lambda>frame. returns (Inr frame)))
      in case account_get_type account of
           Account_program \<Rightarrow> andThen (execute_user_program env sys account) (finish Vm_program_category)
         | Account_native_program \<Rightarrow> andThen (execute_native_program env sys account) (finish Program_category)
         | _ \<Rightarrow> returns (Inl (controller_error Controller_invalid_program)))"

definition push_and_run ::
  "('m execution_context, program_frame result) op \<Rightarrow> account \<Rightarrow> bytes \<Rightarrow> bytes list
    \<Rightarrow> ('m execution_context, program_frame result) op" where
  "push_and_run body account stdin arguments =
     andThen the_node (\<lambda>_.
     andThen (on_stack (\<lambda>s. case push_frame (stack_frame_new account arguments stdin) s of (e, s') \<Rightarrow> (Returned e, s'))) (\<lambda>error.
     if is_error error then returns (Inl error) else frame_guard body))"

fun run_program ::
  "nat \<Rightarrow> ('m, 'k) node_env \<Rightarrow> tolerance \<Rightarrow> account \<Rightarrow> bytes \<Rightarrow> bytes list
    \<Rightarrow> ('m execution_context, program_frame result) op" where
  "run_program 0 env T account stdin arguments = push_and_run (throws Diverges) account stdin arguments"
| "run_program (Suc n) env T account stdin arguments =
     push_and_run
       (run_frame env (xc_system (ne_scheme env) (run_program n env Strict) (run_program n env Relaxed)) T account stdin arguments)
       account stdin arguments"

text \<open>Enough for every nesting the stack allows.\<close>

definition call_fuel :: nat where
  "call_fuel = default_stack_limit"

definition check_authority :: "('m, 'k) node_env \<Rightarrow> account \<Rightarrow> ('m execution_context, bool result) op" where
  "check_authority env = xc_check_authority (ne_scheme env) (run_program call_fuel env Strict)"

section \<open>Operations, transactions, blocks\<close>

definition apply_upload_program :: "('m, 'k) node_env \<Rightarrow> upload_program \<Rightarrow> ('m execution_context, error_code) op" where
  "apply_upload_program env u =
     andThen the_node (\<lambda>n.
     andThen (read_object n program_data_space (up_id u)) (\<lambda>present.
     andThen (check_authority env (if present \<noteq> None then up_id u else user_account_of (up_id u))) (\<lambda>authorized.
     case authorized of
       Inl e \<Rightarrow> returns e
     | Inr False \<Rightarrow> returns (controller_error Controller_authorization_failure)
     | Inr True \<Rightarrow>
         andThen (on_heap (node_put n program_data_space (up_id u) (hash (ne_hash env) (up_bytecode u) @ up_bytecode u))) (\<lambda>_.
         returns (controller_error Controller_ok)))))"

definition apply_call_program :: "('m, 'k) node_env \<Rightarrow> call_program \<Rightarrow> ('m execution_context, error_code) op" where
  "apply_call_program env p =
     andThen (run_program call_fuel env Strict (cp_id p) (pi_stdin (cp_input p)) (pi_arguments (cp_input p))) (\<lambda>r.
     returns (case r of Inl e \<Rightarrow> e | Inr _ \<Rightarrow> controller_error Controller_ok))"

fun apply_operation :: "('m, 'k) node_env \<Rightarrow> operation \<Rightarrow> ('m execution_context, error_code) op" where
  "apply_operation env (Upload_program u) = apply_upload_program env u"
| "apply_operation env (Call_program p) = apply_call_program env p"

fun operations_loop :: "('m, 'k) node_env \<Rightarrow> operation list \<Rightarrow> ('m execution_context, error_code) op" where
  "operations_loop env [] = returns (controller_error Controller_ok)"
| "operations_loop env (p # ps) =
     andThen (modifies (\<lambda>c. c\<lparr>xc_operation := Some p\<rparr>)) (\<lambda>_.
     andThen (apply_operation env p) (\<lambda>error.
     if is_error error then returns error else operations_loop env ps))"

definition account_resources :: "account \<Rightarrow> u64" where
  "account_resources account = default_account_resources"

definition consume_account_resources :: "account \<Rightarrow> u64 \<Rightarrow> ('m execution_context, error_code) op" where
  "consume_account_resources account resources = returns (controller_error Controller_ok)"

definition account_nonce :: "account \<Rightarrow> ('m execution_context, u64) op" where
  "account_nonce account =
     andThen the_node (\<lambda>n.
     andThen (read_object n transaction_nonce_space account) (\<lambda>r.
     readsE (\<lambda>_. case r of None \<Rightarrow> Returned 0 | Some nonce_bytes \<Rightarrow> bit_cast_u64 nonce_bytes)))"

definition set_account_nonce :: "account \<Rightarrow> u64 \<Rightarrow> ('m execution_context, error_code) op" where
  "set_account_nonce account nonce =
     andThen the_node (\<lambda>n.
     andThen (on_heap (node_put n transaction_nonce_space account (u64_bytes nonce))) charge_disk)"

definition make_session :: "u64 \<Rightarrow> ('m execution_context, unit) op" where
  "make_session resources =
     modifies (\<lambda>c. c\<lparr>xc_resource_meter := set_session (Some (resource_session_new resources)) (xc_resource_meter c),
                     xc_frame_recorder := recorder_set_session (Some []) (xc_frame_recorder c)\<rparr>)"

text \<open>The last owner of the session goes away: the weak pointers of the meter and the recorder expire.\<close>

definition drop_session :: "'m execution_context \<Rightarrow> 'm execution_context" where
  "drop_session c =
     c\<lparr>xc_resource_meter := set_session None (xc_resource_meter c),
       xc_frame_recorder := recorder_set_session None (xc_frame_recorder c)\<rparr>"

definition scoped_session :: "('m execution_context, 'a) op \<Rightarrow> ('m execution_context, 'a) op" where
  "scoped_session m c = (case m c of (r, c') \<Rightarrow> (r, drop_session c'))"

definition require_authority ::
  "('m, 'k) node_env \<Rightarrow> account \<Rightarrow> ('m execution_context, 'a result) op \<Rightarrow> ('m execution_context, 'a result) op" where
  "require_authority env account rest =
     andThen (check_authority env account) (\<lambda>authorized.
     case authorized of
       Inl e \<Rightarrow> returns (Inl e)
     | Inr False \<Rightarrow> returns (Inl (controller_error Controller_authorization_failure))
     | Inr True \<Rightarrow> rest)"

definition squash_node :: "state_node \<Rightarrow> ('m execution_context, unit) op" where
  "squash_node n =
     (case n of
        Temporary_node d \<Rightarrow> andThen (on_heap (temporary_squash d)) (\<lambda>n'. modifies (\<lambda>c. c\<lparr>xc_state_node := Some n'\<rparr>))
      | Permanent_node p \<Rightarrow> throws Null_dereference)"

text \<open>The lambda that applies the operations in a child node and merges it when all of them succeed.\<close>

definition run_operations :: "('m, 'k) node_env \<Rightarrow> state_node \<Rightarrow> transaction \<Rightarrow> ('m execution_context, error_code) op" where
  "run_operations env block_node t =
     andThen (on_heap (node_make_child block_node)) (\<lambda>transaction_node.
     andThen (modifies (\<lambda>c. c\<lparr>xc_state_node := Some transaction_node\<rparr>)) (\<lambda>_.
     andThen (operations_loop env (tx_operations t)) (\<lambda>error.
     if is_error error then returns error
     else andThen (squash_node transaction_node) (\<lambda>_. returns (controller_error Controller_ok)))))"

definition use_payee_nonce :: "transaction \<Rightarrow> bool" where
  "use_payee_nonce t \<longleftrightarrow> (\<exists>b \<in> set (tx_payee t). b \<noteq> 0)"

definition nonce_account :: "transaction \<Rightarrow> account" where
  "nonce_account t = (if use_payee_nonce t then tx_payee t else tx_payer t)"

definition transaction_receipt_of ::
  "transaction \<Rightarrow> error_code \<Rightarrow> program_frame list \<Rightarrow> u64 \<Rightarrow> resource_state \<Rightarrow> resource_state \<Rightarrow> transaction_receipt" where
  "transaction_receipt_of t error frames used initial remaining =
     \<lparr>tr_id = tx_id t, tr_reverted = (ec_value error \<noteq> 0), tr_payer = tx_payer t, tr_payee = tx_payee t, tr_frames = frames,
      tr_resource_limit = tx_resource_limit t, tr_resource_used = used,
      tr_disk_storage_used = disk_storage initial - disk_storage remaining,
      tr_network_bandwidth_used = network_bandwidth initial - network_bandwidth remaining,
      tr_compute_bandwidth_used = compute_bandwidth initial - compute_bandwidth remaining\<rparr>"

text \<open>From the charge of the network bandwidth to the receipt.\<close>

definition finish_transaction ::
  "('m, 'k) node_env \<Rightarrow> transaction \<Rightarrow> resource_state \<Rightarrow> ('m execution_context, transaction_receipt result) op" where
  "finish_transaction env t initial =
     andThen the_node (\<lambda>block_node.
     andThen (run_operations env block_node t) (\<lambda>error.
     andThen (modifies (\<lambda>c. c\<lparr>xc_state_node := Some block_node\<rparr>)) (\<lambda>_.
     andThen (readsE (\<lambda>c. case rm_session (xc_resource_meter c) of
        None \<Rightarrow> Threw Null_dereference | Some s \<Rightarrow> Returned (session_used_resources s))) (\<lambda>used.
     andThen (reads (\<lambda>c. rm_remaining (xc_resource_meter c))) (\<lambda>remaining.
     andThen (reads (\<lambda>c. fr_frames (xc_frame_recorder c))) (\<lambda>frames.
     andThen (modifies (\<lambda>c. drop_session (c\<lparr>xc_frame_recorder := (xc_frame_recorder c)\<lparr>fr_frames := []\<rparr>\<rparr>))) (\<lambda>_.
     andThen (consume_account_resources (tx_payer t) used) (\<lambda>e.
     if is_error e then returns (Inl e)
     else returns (Inr (transaction_receipt_of t error frames used initial remaining))))))))))"

definition apply_transaction :: "('m, 'k) node_env \<Rightarrow> transaction \<Rightarrow> ('m execution_context, transaction_receipt result) op" where
  "apply_transaction env t =
     andThen the_node (\<lambda>_.
     andThen (modifies (\<lambda>c. c\<lparr>xc_transaction := Some t, xc_verified_signatures := []\<rparr>)) (\<lambda>_.
     andThen (reads (\<lambda>c. rm_remaining (xc_resource_meter c))) (\<lambda>initial.
     scoped_session
       (andThen (make_session (tx_resource_limit t)) (\<lambda>_.
        if account_resources (tx_payer t) < tx_resource_limit t
        then returns (Inl (controller_error Controller_insufficient_resources))
        else
          require_authority env (tx_payer t)
            ((if use_payee_nonce t then require_authority env (tx_payee t) else (\<lambda>rest. rest))
              (andThen (account_nonce (nonce_account t)) (\<lambda>nonce.
               if nonce + 1 \<noteq> tx_nonce t then returns (Inl (controller_error Controller_invalid_nonce))
               else
                 andThen (set_account_nonce (nonce_account t) (tx_nonce t)) (\<lambda>error.
                 if is_error error then returns (Inl error)
                 else
                   andThen (on_meter (use_network_bandwidth (word_of_nat (transaction_size t)))) (\<lambda>error.
                   if is_error error then returns (Inl error)
                   else finish_transaction env t initial)))))))))) "

fun transactions_loop ::
  "('m, 'k) node_env \<Rightarrow> transaction list \<Rightarrow> ('m execution_context, transaction_receipt list result) op" where
  "transactions_loop env [] = returns (Inr [])"
| "transactions_loop env (t # ts) =
     andThen (apply_transaction env t) (\<lambda>r.
     case r of
       Inl e \<Rightarrow> returns (Inl e)
     | Inr receipt \<Rightarrow>
         andThen (transactions_loop env ts) (\<lambda>rs.
         returns (case rs of Inl e \<Rightarrow> Inl e | Inr receipts \<Rightarrow> Inr (receipt # receipts))))"

definition block_receipt_of ::
  "block \<Rightarrow> transaction_receipt list \<Rightarrow> program_frame list \<Rightarrow> resource_state \<Rightarrow> resource_state \<Rightarrow> block_receipt" where
  "block_receipt_of b receipts frames start end_resources =
     (let disk = disk_storage start - disk_storage end_resources;
          network = network_bandwidth start - network_bandwidth end_resources;
          compute = compute_bandwidth start - compute_bandwidth end_resources
      in \<lparr>br_id = bl_id b, br_height = bl_height b, br_frames = frames, br_disk_storage_used = disk,
          br_network_bandwidth_used = network, br_compute_bandwidth_used = compute, br_state_merkle_root = zero_digest,
          br_transaction_receipts = receipts, br_disk_storage_charged = disk, br_network_bandwidth_charged = network,
          br_compute_bandwidth_charged = compute\<rparr>)"

definition apply_block :: "('m, 'k) node_env \<Rightarrow> block \<Rightarrow> ('m execution_context, block_receipt result) op" where
  "apply_block env b =
     andThen the_node (\<lambda>n.
     andThen (modifies (\<lambda>c. c\<lparr>xc_resource_meter := set_resource_limits default_resource_limits (xc_resource_meter c)\<rparr>)) (\<lambda>_.
     andThen (reads (\<lambda>c. rm_remaining (xc_resource_meter c))) (\<lambda>start.
     andThen (read_object n metadata_space (genesis_key (ne_hash env))) (\<lambda>key.
     case key of
       None \<Rightarrow> throws (Runtime_error ''genesis address not found'')
     | Some k \<Rightarrow>
         if k \<noteq> account_public_key (bl_signer b) then returns (Inl (controller_error Controller_invalid_signature))
         else
           andThen (transactions_loop env (bl_transactions b)) (\<lambda>r.
           case r of
             Inl e \<Rightarrow> returns (Inl e)
           | Inr receipts \<Rightarrow>
               andThen (reads (\<lambda>c. rm_remaining (xc_resource_meter c))) (\<lambda>end_resources.
               andThen (reads (\<lambda>c. fr_frames (xc_frame_recorder c))) (\<lambda>frames.
               andThen (modifies (\<lambda>c. c\<lparr>xc_frame_recorder := (xc_frame_recorder c)\<lparr>fr_frames := []\<rparr>\<rparr>)) (\<lambda>_.
               returns (Inr (block_receipt_of b receipts frames start end_resources))))))))))"

end
