(* ===== verification/Delta_Index.thy ===== *)
theory Delta_Index
  imports State_Node
begin

text \<open>
  The index of permanent state nodes (\<open>state_db/delta_index.hpp\<close>, \<open>delta_index.cpp\<close>), the permanent
  node (\<open>permanent_state_node.cpp\<close>) and the database (\<open>database.cpp\<close>).  The index is a
  \<open>boost::multi_index_container\<close> of delta pointers with a unique key (the id) and a non-unique key
  (the parent's id); the container is a parameter of the model, a record of its operations, and
  the locale \<open>delta_container\<close> states the documented laws the index relies on.
\<close>

section \<open>The container\<close>

record 'c multi_index =
  mi_empty :: 'c
  mi_find :: "heap \<Rightarrow> 'c \<Rightarrow> state_node_id \<Rightarrow> ptr option"
  mi_insert :: "heap \<Rightarrow> 'c \<Rightarrow> ptr \<Rightarrow> bool \<times> 'c"
  mi_erase :: "'c \<Rightarrow> ptr \<Rightarrow> 'c"
  mi_lower_bound :: "heap \<Rightarrow> 'c \<Rightarrow> state_node_id \<Rightarrow> ptr list"

text \<open>
  \<open>mi_lower_bound\<close> is the sequence an iteration of the parent index visits from
  \<open>lower_bound( id )\<close> to its end.  Keys are read through the heap, since the key extractors call
  \<open>state_delta::id\<close> and \<open>state_delta::parent_id\<close>.
\<close>

section \<open>The index\<close>

type_synonym comparator = "ptr option set \<Rightarrow> ptr \<Rightarrow> ptr \<Rightarrow> ptr option"
type_synonym genesis_init = "state_node \<Rightarrow> (heap, unit) op"

datatype fork_resolution_algorithm = Fifo

record 'c delta_index =
  di_init :: genesis_init
  di_comp :: comparator
  di_index :: 'c
  di_root :: "ptr option"
  di_head :: "ptr option"
  di_fork_heads :: "ptr option set"

record 'c state_db =
  db_heap :: heap
  db_index :: "'c delta_index"

text \<open>A call that only touches the deltas, and an assignment to members of the index.\<close>

definition in_heap :: "(heap, 'a) op \<Rightarrow> ('c state_db, 'a) op" where
  "in_heap m s = (case m (db_heap s) of (r, h) \<Rightarrow> (r, s\<lparr>db_heap := h\<rparr>))"

definition upd_index :: "('c delta_index \<Rightarrow> 'c delta_index) \<Rightarrow> ('c state_db, unit) op" where
  "upd_index f s = (Returned (), s\<lparr>db_index := f (db_index s)\<rparr>)"

definition not_open_error :: exn where
  "not_open_error = Runtime_error ''database is not open''"

definition fifo_comparator :: comparator where
  "fifo_comparator heads head_block new_block = Some head_block"

definition delta_index_new :: "'c multi_index \<Rightarrow> 'c delta_index" where
  "delta_index_new mi =
     \<lparr>di_init = (\<lambda>_. throws Null_dereference), di_comp = (\<lambda>_ _ _. None), di_index = mi_empty mi,
      di_root = None, di_head = None, di_fork_heads = {}\<rparr>"

definition is_open :: "'c delta_index \<Rightarrow> bool" where
  "is_open d \<longleftrightarrow> di_root d \<noteq> None \<and> di_head d \<noteq> None"

definition index_open_comp :: "'c multi_index \<Rightarrow> genesis_init \<Rightarrow> comparator \<Rightarrow> ('c state_db, unit) op" where
  "index_open_comp mi init cmp =
     andThen (upd_index (\<lambda>d. d\<lparr>di_init := init, di_comp := cmp\<rparr>)) (\<lambda>_.
     andThen (in_heap (make_shared state_delta_default)) (\<lambda>root_delta.
     andThen (readsE (\<lambda>s. delta_revision (db_heap s) root_delta)) (\<lambda>r.
     andThen (if r = 0 then in_heap (init (Temporary_node (Some root_delta))) else returns ()) (\<lambda>_.
     andThen (in_heap (delta_finalize root_delta)) (\<lambda>_ s.
     upd_index (\<lambda>d. d\<lparr>di_index := snd (mi_insert mi (db_heap s) (di_index d) root_delta),
                       di_fork_heads := insert (Some root_delta) (di_fork_heads d),
                       di_root := Some root_delta,
                       di_head := Some root_delta\<rparr>) s)))))"

definition index_open ::
    "'c multi_index \<Rightarrow> genesis_init \<Rightarrow> fork_resolution_algorithm \<Rightarrow> ('c state_db, unit) op" where
  "index_open mi init algo =
     index_open_comp mi init (case algo of Fifo \<Rightarrow> fifo_comparator)"

definition index_close :: "'c multi_index \<Rightarrow> ('c state_db, unit) op" where
  "index_close mi =
     upd_index (\<lambda>d. d\<lparr>di_index := mi_empty mi, di_fork_heads := {}, di_root := None, di_head := None\<rparr>)"

text \<open>Members of the open index: the root and head pointers, once \<open>is_open()\<close> has been tested.\<close>

definition open_root :: "'c state_db \<Rightarrow> ptr outcome" where
  "open_root s =
     (if is_open (db_index s) then Returned (the (di_root (db_index s))) else Threw not_open_error)"

definition open_head :: "'c state_db \<Rightarrow> ptr outcome" where
  "open_head s =
     (if is_open (db_index s) then Returned (the (di_head (db_index s))) else Threw not_open_error)"

definition index_reset :: "'c multi_index \<Rightarrow> ('c state_db, unit) op" where
  "index_reset mi =
     andThen (readsE open_root) (\<lambda>r.
     andThen (in_heap (delta_clear r)) (\<lambda>_ s.
     index_open_comp mi (di_init (db_index s)) (di_comp (db_index s)) s))"

definition index_get :: "'c multi_index \<Rightarrow> 'c state_db \<Rightarrow> state_node_id \<Rightarrow> ptr option outcome" where
  "index_get mi s i =
     (if is_open (db_index s) then Returned (mi_find mi (db_heap s) (di_index (db_index s)) i)
      else Threw not_open_error)"

text \<open>The loop of \<open>at_revision\<close> walks up the parents; the fuel is the number of cells.\<close>

fun at_revision_loop :: "nat \<Rightarrow> heap \<Rightarrow> ptr option \<Rightarrow> u64 \<Rightarrow> ptr option outcome" where
  "at_revision_loop 0 h d r = Threw Diverges"
| "at_revision_loop (Suc n) h None r = Threw Null_dereference"
| "at_revision_loop (Suc n) h (Some p) r =
     bindO (delta_revision h p) (\<lambda>r'.
     if r < r' then at_revision_loop n h (delta_parent h p) r else Returned (Some p))"

definition index_at_revision ::
    "'c multi_index \<Rightarrow> 'c state_db \<Rightarrow> u64 \<Rightarrow> state_node_id \<Rightarrow> ptr option outcome" where
  "index_at_revision mi s r child_id =
     bindO (open_root s) (\<lambda>root.
     bindO (delta_revision (db_heap s) root) (\<lambda>root_r.
     if r < root_r then Threw (Runtime_error ''cannot ask for node with revision less than root.'')
     else if r = root_r then Returned (Some root)
     else
       bindO (index_get mi s child_id) (\<lambda>d.
       bindO (open_head s) (\<lambda>head.
       at_revision_loop (Suc (length (db_heap s))) (db_heap s)
         (case d of None \<Rightarrow> Some head | Some p \<Rightarrow> Some p) r))))"

definition index_add :: "'c multi_index \<Rightarrow> ptr \<Rightarrow> ('c state_db, unit) op" where
  "index_add mi p s =
     (case mi_insert mi (db_heap s) (di_index (db_index s)) p of (inserted, c) \<Rightarrow>
        if inserted then upd_index (\<lambda>d. d\<lparr>di_index := c\<rparr>) s
        else throws (Runtime_error ''could not add state delta'') s)"

definition index_finalize :: "ptr \<Rightarrow> ('c state_db, unit) op" where
  "index_finalize p =
     andThen (readsE open_head) (\<lambda>head.
     andThen (readsE (\<lambda>s. delta_revision (db_heap s) p)) (\<lambda>r.
     andThen (readsE (\<lambda>s. delta_revision (db_heap s) head)) (\<lambda>head_r.
     andThen
       (if head_r < r then upd_index (\<lambda>d. d\<lparr>di_head := Some p\<rparr>)
        else if r = head_r then
          (\<lambda>s. case di_comp (db_index s) (di_fork_heads (db_index s)) head p of
             Some new_head \<Rightarrow> upd_index (\<lambda>d. d\<lparr>di_head := Some new_head\<rparr>) s
           | None \<Rightarrow> upd_index (\<lambda>d. d\<lparr>di_fork_heads := di_fork_heads d - {Some head},
                                       di_head := delta_parent (db_heap s) head\<rparr>) s)
        else returns ()) (\<lambda>_ s.
     upd_index (\<lambda>d. d\<lparr>di_fork_heads :=
       insert (di_head d) (di_fork_heads d - {delta_parent (db_heap s) p})\<rparr>) s))))"

text \<open>
  \<open>remove\<close>, first loop: the ids of the node and of its descendants, in breadth-first order.  The
  inner loop runs over the parent index from \<open>lower_bound\<close> while the parent's id matches.
\<close>

fun remove_children_loop ::
    "heap \<Rightarrow> state_node_id \<Rightarrow> state_node_id list \<Rightarrow> ptr list \<Rightarrow> state_node_id list \<Rightarrow> state_node_id list outcome" where
  "remove_children_loop h x whitelist [] queue = Returned queue"
| "remove_children_loop h x whitelist (p # ps) queue =
     bindO (delta_parent_id h p) (\<lambda>pid.
     if pid = x then
       bindO (delta_id h p) (\<lambda>i.
       remove_children_loop h x whitelist ps (if i \<in> set whitelist then queue else queue @ [i]))
     else Returned queue)"

fun remove_queue_loop ::
    "'c multi_index \<Rightarrow> nat \<Rightarrow> heap \<Rightarrow> 'c \<Rightarrow> state_node_id \<Rightarrow> state_node_id list \<Rightarrow> nat \<Rightarrow> state_node_id list
       \<Rightarrow> state_node_id list outcome" where
  "remove_queue_loop mi 0 h c head_id whitelist i queue = Threw Diverges"
| "remove_queue_loop mi (Suc n) h c head_id whitelist i queue =
     (if i < length queue then
        if queue ! i = head_id then Threw (Runtime_error ''cannot discard an ancestor of head'')
        else
          bindO (remove_children_loop h (queue ! i) whitelist (mi_lower_bound mi h c (queue ! i)) queue) (\<lambda>queue'.
          remove_queue_loop mi n h c head_id whitelist (Suc i) queue')
      else Returned queue)"

text \<open>
  Second loop: a found element is erased, and then read through the iterator that pointed at it.
  Erasing invalidates that iterator.
\<close>

fun remove_erase_loop :: "'c multi_index \<Rightarrow> state_node_id list \<Rightarrow> ('c state_db, unit) op" where
  "remove_erase_loop mi [] = returns ()"
| "remove_erase_loop mi (i # is) =
     andThen (reads (\<lambda>s. mi_find mi (db_heap s) (di_index (db_index s)) i)) (\<lambda>itr.
     case itr of
       None \<Rightarrow> remove_erase_loop mi is
     | Some p \<Rightarrow>
         andThen (upd_index (\<lambda>d. d\<lparr>di_index := mi_erase mi (di_index d) p\<rparr>)) (\<lambda>_.
         throws Invalid_iterator))"

definition index_remove :: "'c multi_index \<Rightarrow> ptr \<Rightarrow> state_node_id list \<Rightarrow> ('c state_db, unit) op" where
  "index_remove mi p whitelist =
     andThen (readsE open_root) (\<lambda>root.
     andThen (readsE (\<lambda>s. delta_id (db_heap s) p)) (\<lambda>i.
     andThen (readsE (\<lambda>s. delta_id (db_heap s) root)) (\<lambda>root_id.
     if i = root_id then throws (Runtime_error ''cannot discard root node'')
     else
       andThen (readsE open_head) (\<lambda>head.
       andThen (readsE (\<lambda>s. delta_id (db_heap s) head)) (\<lambda>head_id.
       andThen (readsE (\<lambda>s. remove_queue_loop mi (Suc (Suc (length (db_heap s)))) (db_heap s)
                              (di_index (db_index s)) head_id whitelist 0 [i])) (\<lambda>queue.
       andThen (remove_erase_loop mi queue) (\<lambda>_ s.
       upd_index (\<lambda>d. d\<lparr>di_fork_heads := di_fork_heads d - {delta_parent (db_heap s) p}\<rparr>) s)))))))"

text \<open>
  \<open>commit\<close>: \<open>_index.modify\<close> applies \<open>state_delta::commit\<close> to the element found by its id, which is the
  committed delta itself.
\<close>

definition index_commit ::
    "(bytes \<Rightarrow> digest) \<Rightarrow> 'c multi_index \<Rightarrow> ptr \<Rightarrow> ('c state_db, unit) op" where
  "index_commit H mi p =
     andThen (readsE open_root) (\<lambda>old_root.
     andThen (readsE (\<lambda>s. delta_id (db_heap s) p)) (\<lambda>i.
     andThen (readsE (\<lambda>s. delta_id (db_heap s) old_root)) (\<lambda>root_id.
     if i = root_id then returns ()
     else
       andThen (upd_index (\<lambda>d. d\<lparr>di_root := Some p\<rparr>)) (\<lambda>_.
       andThen (readsE (\<lambda>s. case mi_find mi (db_heap s) (di_index (db_index s)) i of
                              None \<Rightarrow> Threw Invalid_iterator | Some n \<Rightarrow> Returned n)) (\<lambda>n.
       andThen (in_heap (delta_commit H n)) (\<lambda>_.
       andThen (readsE (\<lambda>s. delta_id (db_heap s) p)) (\<lambda>new_id.
       index_remove mi old_root [new_id])))))))"

section \<open>Permanent nodes\<close>

text \<open>
  A permanent node holds its delta and a weak pointer to the index; \<open>alive\<close> says whether the index
  still exists when the pointer is locked.
\<close>

definition permanent_final :: "'c state_db \<Rightarrow> ptr \<Rightarrow> bool" where
  "permanent_final s p = delta_final (db_heap s) p"

definition permanent_finalize :: "bool \<Rightarrow> ptr \<Rightarrow> ('c state_db, unit) op" where
  "permanent_finalize alive p =
     andThen (in_heap (delta_finalize p)) (\<lambda>_.
     if alive then index_finalize p else throws not_open_error)"

definition permanent_discard :: "'c multi_index \<Rightarrow> bool \<Rightarrow> ptr \<Rightarrow> ('c state_db, unit) op" where
  "permanent_discard mi alive p = (if alive then index_remove mi p [] else throws not_open_error)"

definition permanent_commit ::
    "(bytes \<Rightarrow> digest) \<Rightarrow> 'c multi_index \<Rightarrow> bool \<Rightarrow> ptr \<Rightarrow> ('c state_db, unit) op" where
  "permanent_commit H mi alive p =
     (if alive then andThen (in_heap (delta_commit H p)) (\<lambda>_. index_commit H mi p)
      else throws not_open_error)"

definition permanent_make_child ::
    "'c multi_index \<Rightarrow> bool \<Rightarrow> ptr \<Rightarrow> state_node_id \<Rightarrow> ('c state_db, state_node) op" where
  "permanent_make_child mi alive p child_id =
     andThen (in_heap (delta_make_child p child_id)) (\<lambda>c.
     if alive then andThen (index_add mi c) (\<lambda>_. returns (Permanent_node c)) else throws not_open_error)"

definition permanent_clone ::
    "'c multi_index \<Rightarrow> bool \<Rightarrow> ptr \<Rightarrow> state_node_id \<Rightarrow> ('c state_db, state_node) op" where
  "permanent_clone mi alive p new_id =
     andThen (in_heap (delta_clone p new_id)) (\<lambda>c.
     if alive then andThen (index_add mi c) (\<lambda>_. returns (Permanent_node c)) else throws not_open_error)"

definition permanent_merkle_root :: "(bytes \<Rightarrow> digest) \<Rightarrow> ptr \<Rightarrow> ('c state_db, digest) op" where
  "permanent_merkle_root H p = in_heap (delta_merkle_root H p)"

section \<open>The database\<close>

definition database_new :: "'c multi_index \<Rightarrow> heap \<Rightarrow> 'c state_db" where
  "database_new mi h = \<lparr>db_heap = h, db_index = delta_index_new mi\<rparr>"

definition database_open ::
    "'c multi_index \<Rightarrow> genesis_init \<Rightarrow> fork_resolution_algorithm \<Rightarrow> ('c state_db, unit) op" where
  "database_open mi init algo = index_open mi init algo"

definition database_close :: "'c multi_index \<Rightarrow> ('c state_db, unit) op" where
  "database_close mi = index_close mi"

definition database_reset :: "'c multi_index \<Rightarrow> ('c state_db, unit) op" where
  "database_reset mi = index_reset mi"

definition database_get :: "'c multi_index \<Rightarrow> 'c state_db \<Rightarrow> state_node_id \<Rightarrow> state_node option outcome" where
  "database_get mi s i = bindO (index_get mi s i) (\<lambda>d. Returned (map_option Permanent_node d))"

definition database_at_revision ::
    "'c multi_index \<Rightarrow> 'c state_db \<Rightarrow> u64 \<Rightarrow> state_node_id \<Rightarrow> state_node option outcome" where
  "database_at_revision mi s r i =
     bindO (index_at_revision mi s r i) (\<lambda>d. Returned (map_option Permanent_node d))"

definition database_root :: "'c state_db \<Rightarrow> state_node option" where
  "database_root s = map_option Permanent_node (di_root (db_index s))"

definition database_head :: "'c state_db \<Rightarrow> state_node option" where
  "database_head s = map_option Permanent_node (di_head (db_index s))"

definition database_fork_heads :: "'c state_db \<Rightarrow> state_node option set" where
  "database_fork_heads s = map_option Permanent_node ` di_fork_heads (db_index s)"

section \<open>The laws of the container\<close>

text \<open>
  What the index relies on.  \<open>elems\<close> are the contained pointers; \<open>ordered h c\<close> says that the
  container is ordered by the keys its elements have in the heap \<open>h\<close>, which stays true as long as
  no key of an element changes.
\<close>

locale delta_container =
  fixes mi :: "'c multi_index"
    and elems :: "'c \<Rightarrow> ptr set"
    and ordered :: "heap \<Rightarrow> 'c \<Rightarrow> bool"
  assumes elems_empty: "elems (mi_empty mi) = {}"
    and ordered_empty: "ordered h (mi_empty mi)"
    and elems_finite: "finite (elems c)"
    and ordered_keys: "ordered h c \<Longrightarrow> p \<in> elems c \<Longrightarrow>
      (\<exists>i. delta_id h p = Returned i) \<and> (\<exists>j. delta_parent_id h p = Returned j)"
    and ordered_unique: "ordered h c \<Longrightarrow> p \<in> elems c \<Longrightarrow> q \<in> elems c \<Longrightarrow>
      delta_id h p = delta_id h q \<Longrightarrow> p = q"
    and ordered_cong: "ordered h c \<Longrightarrow>
      \<forall>p \<in> elems c. delta_id h' p = delta_id h p \<and> delta_parent_id h' p = delta_parent_id h p \<Longrightarrow>
      ordered h' c"
    and find_iff: "ordered h c \<Longrightarrow>
      mi_find mi h c i = Some p \<longleftrightarrow> p \<in> elems c \<and> delta_id h p = Returned i"
    and insert_new: "ordered h c \<Longrightarrow> delta_id h p = Returned i \<Longrightarrow> delta_parent_id h p = Returned j \<Longrightarrow>
      mi_find mi h c i = None \<Longrightarrow>
      \<exists>c'. mi_insert mi h c p = (True, c') \<and> elems c' = insert p (elems c) \<and> ordered h c'"
    and insert_old: "ordered h c \<Longrightarrow> delta_id h p = Returned i \<Longrightarrow> mi_find mi h c i = Some q \<Longrightarrow>
      mi_insert mi h c p = (False, c)"
    and erase_elems: "elems (mi_erase mi c p) = elems c - {p}"
    and erase_ordered: "ordered h c \<Longrightarrow> ordered h (mi_erase mi c p)"
    and lower_bound: "ordered h c \<Longrightarrow>
      \<exists>ms rest. mi_lower_bound mi h c x = ms @ rest \<and> distinct ms
        \<and> set ms = {p \<in> elems c. delta_parent_id h p = Returned x}
        \<and> (\<forall>q \<in> set rest. q \<in> elems c \<and> delta_parent_id h q \<noteq> Returned x)"

text \<open>An implementation of the laws: the elements in order of insertion.\<close>

definition list_find :: "heap \<Rightarrow> ptr list \<Rightarrow> state_node_id \<Rightarrow> ptr option" where
  "list_find h ps i = find (\<lambda>p. delta_id h p = Returned i) ps"

definition list_insert :: "heap \<Rightarrow> ptr list \<Rightarrow> ptr \<Rightarrow> bool \<times> ptr list" where
  "list_insert h ps p =
     (if \<exists>q \<in> set ps. delta_id h q = delta_id h p then (False, ps) else (True, ps @ [p]))"

definition list_lower_bound :: "heap \<Rightarrow> ptr list \<Rightarrow> state_node_id \<Rightarrow> ptr list" where
  "list_lower_bound h ps x =
     filter (\<lambda>p. delta_parent_id h p = Returned x) ps
       @ filter (\<lambda>p. case delta_parent_id h p of Returned y \<Rightarrow> x < y | Threw _ \<Rightarrow> False) ps"

definition list_index :: "ptr list multi_index" where
  "list_index = \<lparr>mi_empty = [], mi_find = list_find, mi_insert = list_insert,
     mi_erase = (\<lambda>ps p. filter (\<lambda>q. q \<noteq> p) ps), mi_lower_bound = list_lower_bound\<rparr>"

definition list_ordered :: "heap \<Rightarrow> ptr list \<Rightarrow> bool" where
  "list_ordered h ps \<longleftrightarrow>
     distinct ps
     \<and> (\<forall>p \<in> set ps. (\<exists>i. delta_id h p = Returned i) \<and> (\<exists>j. delta_parent_id h p = Returned j))
     \<and> (\<forall>p \<in> set ps. \<forall>q \<in> set ps. delta_id h p = delta_id h q \<longrightarrow> p = q)"

lemma list_find_Some:
  "list_ordered h c \<Longrightarrow> list_find h c i = Some p \<longleftrightarrow> p \<in> set c \<and> delta_id h p = Returned i"
  unfolding list_find_def find_Some_iff
proof
  assume c: "list_ordered h c" and p: "p \<in> set c \<and> delta_id h p = Returned i"
  then obtain k where k: "k < length c" "c ! k = p" by (auto simp: in_set_conv_nth)
  have "delta_id h (c ! j) \<noteq> Returned i" if "j < k" for j
    using c p k that unfolding list_ordered_def
    by (metis (no_types, lifting) less_trans nat_neq_iff nth_eq_iff_index_eq nth_mem)
  then show "\<exists>k < length c. delta_id h (c ! k) = Returned i \<and> p = c ! k
      \<and> (\<forall>j < k. delta_id h (c ! j) \<noteq> Returned i)"
    using k p by auto
qed (auto simp: in_set_conv_nth)

lemma list_find_None: "list_find h c i = None \<longleftrightarrow> (\<forall>p \<in> set c. delta_id h p \<noteq> Returned i)"
  by (auto simp: list_find_def find_None_iff)

interpretation lx: delta_container list_index set list_ordered
proof
  fix h c x
  assume "list_ordered h c"
  then show "\<exists>ms rest. mi_lower_bound list_index h c x = ms @ rest \<and> distinct ms
      \<and> set ms = {p \<in> set c. delta_parent_id h p = Returned x}
      \<and> (\<forall>q \<in> set rest. q \<in> set c \<and> delta_parent_id h q \<noteq> Returned x)"
    by (intro exI [of _ "filter (\<lambda>p. delta_parent_id h p = Returned x) c"]
          exI [of _ "filter (\<lambda>p. case delta_parent_id h p of Returned y \<Rightarrow> x < y | Threw _ \<Rightarrow> False) c"])
       (auto simp: list_index_def list_lower_bound_def list_ordered_def split: outcome.splits)
next
  fix h c p i j
  assume "list_ordered h c" "delta_id h p = Returned i" "delta_parent_id h p = Returned j"
    "mi_find list_index h c i = None"
  then show "\<exists>c'. mi_insert list_index h c p = (True, c') \<and> set c' = insert p (set c) \<and> list_ordered h c'"
    by (auto simp: list_index_def list_insert_def list_find_None list_ordered_def)
next
  fix h c p i q
  assume "list_ordered h c" "delta_id h p = Returned i" "mi_find list_index h c i = Some q"
  then show "mi_insert list_index h c p = (False, c)"
    by (auto simp: list_index_def list_insert_def list_find_Some)
next
  fix h c i p
  assume "list_ordered h c"
  then show "mi_find list_index h c i = Some p \<longleftrightarrow> p \<in> set c \<and> delta_id h p = Returned i"
    by (simp add: list_index_def list_find_Some)
next
  fix h c h'
  assume o: "list_ordered h c"
    and k: "\<forall>p \<in> set c. delta_id h' p = delta_id h p \<and> delta_parent_id h' p = delta_parent_id h p"
  then show "list_ordered h' c" unfolding list_ordered_def by (metis (no_types, lifting))
qed (auto simp: list_index_def list_ordered_def)

section \<open>The invariant of an open database\<close>

definition delta_rev :: "heap \<Rightarrow> ptr \<Rightarrow> nat" where
  "delta_rev h p = (case sd_backend (h ! p) of None \<Rightarrow> 0 | Some b \<Rightarrow> unat (be_revision b))"

text \<open>
  The indexed deltas form a tree: the root has no parent, every other one has an indexed parent
  whose revision is one less and an id other than the null id, and all are live.
\<close>

definition tree_nodes :: "heap \<Rightarrow> ptr set \<Rightarrow> ptr \<Rightarrow> bool" where
  "tree_nodes h S r \<longleftrightarrow>
     r \<in> S \<and> sd_parent (h ! r) = None \<and> (\<forall>p \<in> S. live h p)
     \<and> (\<forall>p \<in> S. p \<noteq> r \<longrightarrow> delta_id h p \<noteq> Returned null_id
            \<and> (\<exists>q \<in> S. sd_parent (h ! p) = Some q \<and> delta_rev h p = Suc (delta_rev h q)))"

definition head_ok :: "heap \<Rightarrow> ptr set \<Rightarrow> ptr \<Rightarrow> bool" where
  "head_ok h S tip \<longleftrightarrow>
     tip \<in> S \<and> delta_final h tip \<and> (\<forall>p \<in> S. delta_final h p \<longrightarrow> delta_rev h p \<le> delta_rev h tip)"

definition db_ok :: "('c \<Rightarrow> ptr set) \<Rightarrow> (heap \<Rightarrow> 'c \<Rightarrow> bool) \<Rightarrow> 'c state_db \<Rightarrow> bool" where
  "db_ok elems ordered s \<longleftrightarrow>
     heap_ok (db_heap s) \<and> ordered (db_heap s) (di_index (db_index s))
     \<and> (\<exists>r tip. di_root (db_index s) = Some r \<and> di_head (db_index s) = Some tip
          \<and> tree_nodes (db_heap s) (elems (di_index (db_index s))) r
          \<and> head_ok (db_heap s) (elems (di_index (db_index s))) tip)"

abbreviation nodes :: "('c \<Rightarrow> ptr set) \<Rightarrow> 'c state_db \<Rightarrow> ptr set" where
  "nodes elems s \<equiv> elems (di_index (db_index s))"

text \<open>The parts of a cell that the index and the tree depend on.\<close>

definition same_shape :: "state_delta \<Rightarrow> state_delta \<Rightarrow> bool" where
  "same_shape d e \<longleftrightarrow>
     sd_parent d = sd_parent e
     \<and> map_option (\<lambda>b. (be_id b, be_revision b)) (sd_backend d) = map_option (\<lambda>b. (be_id b, be_revision b)) (sd_backend e)"

lemma same_shape_refl [simp]: "same_shape d d"
  by (simp add: same_shape_def)

lemma same_shape_backend: "same_shape d e \<Longrightarrow> sd_backend d = None \<longleftrightarrow> sd_backend e = None"
  by (auto simp: same_shape_def)

lemma same_shape_keys:
  assumes "same_shape (h' ! p) (h ! p)"
  shows "delta_id h' p = delta_id h p" and "delta_revision h' p = delta_revision h p"
    and "delta_rev h' p = delta_rev h p"
  using assms
  by (cases "sd_backend (h ! p)"; cases "sd_backend (h' ! p)";
      simp add: same_shape_def delta_id_def delta_revision_def delta_rev_def get_backend_def)+

lemma same_shape_parent_id:
  assumes "same_shape (h' ! p) (h ! p)" and "\<forall>q. sd_parent (h ! p) = Some q \<longrightarrow> same_shape (h' ! q) (h ! q)"
  shows "delta_parent_id h' p = delta_parent_id h p"
proof -
  have "sd_parent (h' ! p) = sd_parent (h ! p)" using assms(1) by (simp add: same_shape_def)
  then show ?thesis
    using assms(2) same_shape_keys(1) [of h' _ h] by (cases "sd_parent (h ! p)") (simp_all add: delta_parent_id_def)
qed

lemma same_shape_live:
  assumes "\<forall>x < length h. same_shape (h' ! x) (h ! x)" and "length h \<le> length h'" and "live h p"
  shows "live h' p" and "ancestry h' p = ancestry h p"
proof -
  have b: "x \<in> set (ancestry h p) \<Longrightarrow> same_shape (h' ! x) (h ! x)" for x
    using assms(1,3) ancestry_bound by (auto simp: live_def)
  then show a: "ancestry h' p = ancestry h p"
    by (intro ancestry_cong) (auto simp: same_shape_def)
  then show "live h' p"
    using assms(2,3) b same_shape_backend by (fastforce simp: live_def)
qed

text \<open>Updates that keep the shape of every cell keep the tree.\<close>

lemma tree_nodes_cong:
  assumes "tree_nodes h S r" and "\<forall>x < length h. same_shape (h' ! x) (h ! x)" and "length h \<le> length h'"
  shows "tree_nodes h' S r"
proof -
  have b: "p \<in> S \<Longrightarrow> p < length h" for p using assms(1) by (auto simp: tree_nodes_def live_def)
  have par: "p \<in> S \<Longrightarrow> sd_parent (h' ! p) = sd_parent (h ! p)" for p
    using assms(2) b by (auto simp: same_shape_def)
  have rv: "p \<in> S \<Longrightarrow> delta_rev h' p = delta_rev h p" for p
    using assms(2) b same_shape_keys(3) by blast
  have ids: "p \<in> S \<Longrightarrow> delta_id h' p = delta_id h p" for p
    using assms(2) b same_shape_keys(1) by blast
  show ?thesis
    using assms(1) same_shape_live(1) [OF assms(2,3)] by (auto simp: tree_nodes_def par rv ids)
qed

lemma tree_ancestry:
  assumes "heap_ok h" and "tree_nodes h S r" and "p \<in> S"
  shows "set (ancestry h p) \<subseteq> S \<and> last (ancestry h p) = r"
  using assms
proof (induction h p rule: ancestry.induct)
  case (1 h p)
  show ?case
  proof (cases "p = r")
    case True
    then show ?thesis using "1.prems" by (auto simp: tree_nodes_def ancestry_root)
  next
    case False
    then obtain q where q: "q \<in> S" "sd_parent (h ! p) = Some q"
      using "1.prems" unfolding tree_nodes_def by blast
    have lp: "live h p" using "1.prems" by (simp add: tree_nodes_def)
    have "q < p" using live_parent [OF "1.prems"(1) lp q(2)] by simp
    then show ?thesis
      using "1.IH" [OF q(2) _ "1.prems"(1,2) q(1)] "1.prems"(3) by (simp add: ancestry_step [OF q(2)])
  qed
qed

lemma tree_parent_id:
  assumes "tree_nodes h S r" and "p \<in> S" and "p \<noteq> r"
  obtains q where "q \<in> S" and "sd_parent (h ! p) = Some q" and "delta_parent_id h p = delta_id h q"
  using assms unfolding tree_nodes_def by (auto simp: delta_parent_id_def)

lemma in_heap_simp [simp]: "in_heap m s = (fst (m (db_heap s)), s\<lparr>db_heap := snd (m (db_heap s))\<rparr>)"
  by (simp add: in_heap_def case_prod_beta)

lemma upd_index_simp [simp]: "upd_index f s = (Returned (), s\<lparr>db_index := f (db_index s)\<rparr>)"
  by (simp add: upd_index_def)

context delta_container
begin

lemma ordered_shape:
  assumes "ordered h c" and "\<forall>x < length h. same_shape (h' ! x) (h ! x)" and "\<forall>p \<in> elems c. p < length h"
    and "heap_ok h"
  shows "ordered h' c"
proof (rule ordered_cong [OF assms(1)], intro ballI conjI)
  fix p assume p: "p \<in> elems c"
  then have "same_shape (h' ! p) (h ! p)" using assms(2,3) by simp
  moreover have "sd_parent (h ! p) = Some q \<Longrightarrow> q < length h" for q
    using delta_okD(1) [OF assms(4), of p q] assms(3) p by fastforce
  ultimately show "delta_id h' p = delta_id h p" "delta_parent_id h' p = delta_parent_id h p"
    using assms(2) by (auto intro: same_shape_keys same_shape_parent_id)
qed

lemma db_ok_bound: "db_ok elems ordered s \<Longrightarrow> p \<in> nodes elems s \<Longrightarrow> live (db_heap s) p"
  by (auto simp: db_ok_def tree_nodes_def)

lemma db_ok_is_open: "db_ok elems ordered s \<Longrightarrow> is_open (db_index s)"
  by (auto simp: db_ok_def is_open_def)

text \<open>The initial database: the root is the only node, final, and the head.\<close>

lemma db_ok_single:
  assumes "heap_ok h" and "p < length h" and "sd_parent (h ! p) = None" and "sd_backend (h ! p) = Some b"
    and "delta_final h p" and "mi_insert mi h (mi_empty mi) p = (x, c)"
  shows "db_ok elems ordered \<lparr>db_heap = h, db_index = \<lparr>di_init = i, di_comp = f, di_index = c,
           di_root = Some p, di_head = Some p, di_fork_heads = hs\<rparr>\<rparr> \<and> elems c = {p}"
proof -
  have k: "delta_id h p = Returned (be_id b)" "delta_parent_id h p = Returned null_id"
    using assms(3,4) by (simp_all add: delta_id_def delta_parent_id_def get_backend_def)
  have "mi_find mi h (mi_empty mi) (be_id b) = None"
    using find_iff [OF ordered_empty] elems_empty by (metis empty_iff not_None_eq)
  then have c: "elems c = {p}" "ordered h c"
    using insert_new [OF ordered_empty k] assms(6) elems_empty by auto
  have "live h p" using assms(2-4) by (simp add: live_def ancestry_root)
  then show ?thesis
    using assms c by (simp add: db_ok_def tree_nodes_def head_ok_def)
qed

end

lemma delta_make_child_eq:
  assumes "sd_backend (h ! p) = Some b"
  shows "delta_make_child p i h =
    (Returned (length h),
     h @ [state_delta_default\<lparr>sd_parent := Some p,
            sd_backend := Some (map_backend_new (if i = null_id then be_id b else i) (be_revision b + 1))\<rparr>])"
  using assms by (simp add: delta_make_child_def op_defs delta_id_def delta_revision_def get_backend_def make_shared_def)

lemma head_ok_cong:
  assumes "head_ok h S t" and "\<forall>p \<in> S. delta_final h' p = delta_final h p \<and> delta_rev h' p = delta_rev h p"
  shows "head_ok h' S t"
  using assms by (auto simp: head_ok_def)

lemma unat_suc: "unat (r :: u64) + 1 < 2 ^ 64 \<Longrightarrow> unat (r + 1) = Suc (unat r)"
  by (simp add: unat_word_ariths)

context delta_container
begin

text \<open>A heap that keeps the shape of every cell and the finality of every node keeps the invariant.\<close>

lemma db_ok_heap:
  assumes "db_ok elems ordered s" and "heap_ok h'" and "length (db_heap s) \<le> length h'"
    and "\<forall>x < length (db_heap s). same_shape (h' ! x) (db_heap s ! x)"
    and "\<forall>p \<in> nodes elems s. delta_final h' p = delta_final (db_heap s) p"
  shows "db_ok elems ordered (s\<lparr>db_heap := h'\<rparr>)"
proof -
  have b: "\<forall>p \<in> nodes elems s. p < length (db_heap s)"
    using db_ok_bound [OF assms(1)] by (auto simp: live_def)
  then have "\<forall>p \<in> nodes elems s. delta_final h' p = delta_final (db_heap s) p
      \<and> delta_rev h' p = delta_rev (db_heap s) p"
    using assms(4,5) same_shape_keys(3) by blast
  then show ?thesis
    using assms b ordered_shape [of "db_heap s" _ h'] tree_nodes_cong [OF _ assms(4,3)] head_ok_cong
    unfolding db_ok_def by auto
qed

lemma permanent_make_child_run:
  assumes "db_ok elems ordered s" and "p \<in> nodes elems s" and "sd_backend (db_heap s ! p) = Some b"
    and "unat (be_revision b) + 1 < 2 ^ 64" and "ci = (if i = null_id then be_id b else i)"
  shows "\<exists>r s'. permanent_make_child mi True p i s = (r, s') \<and> db_ok elems ordered s'
       \<and> (\<forall>q \<in> nodes elems s. view (db_heap s') q = view (db_heap s) q)
       \<and> (if \<exists>q \<in> nodes elems s. delta_id (db_heap s) q = Returned ci
          then r = Threw (Runtime_error ''could not add state delta'') \<and> db_index s' = db_index s
          else r = Returned (Permanent_node (length (db_heap s)))
             \<and> nodes elems s' = insert (length (db_heap s)) (nodes elems s)
             \<and> index_get mi s' ci = Returned (Some (length (db_heap s)))
             \<and> view (db_heap s') (length (db_heap s)) = view (db_heap s) p
             \<and> \<not> delta_final (db_heap s') (length (db_heap s)))"
proof -
  let ?h = "db_heap s" and ?c = "di_index (db_index s)" and ?n = "length (db_heap s)"
  let ?d = "state_delta_default\<lparr>sd_parent := Some p, sd_backend := Some (map_backend_new ci (be_revision b + 1))\<rparr>"
  let ?h' = "?h @ [?d]"
  have hok: "heap_ok ?h" and ord: "ordered ?h ?c" using assms(1) by (auto simp: db_ok_def)
  have lv: "live ?h p" using db_ok_bound [OF assms(1,2)] .
  have run: "delta_make_child p i ?h = (Returned ?n, ?h')"
    using delta_make_child_eq [OF assms(3)] assms(5) by simp
  then have ok': "heap_ok ?h'" "live ?h' ?n" "view ?h' ?n = view ?h p" "\<not> delta_final ?h' ?n"
      "\<forall>q. live ?h q \<longrightarrow> view ?h' q = view ?h q"
    using delta_make_child_run [OF hok lv assms(3), of i] by auto
  have shape: "\<forall>x < ?n. same_shape (?h' ! x) (?h ! x)" by (simp add: nth_append)
  have b: "\<forall>q \<in> elems ?c. q < ?n" using db_ok_bound [OF assms(1)] by (auto simp: live_def)
  have ord': "ordered ?h' ?c" by (rule ordered_shape [OF ord shape b hok])
  have ids: "q \<in> elems ?c \<Longrightarrow> delta_id ?h' q = delta_id ?h q" for q
    using b shape same_shape_keys(1) by blast
  have views: "\<forall>q \<in> elems ?c. view ?h' q = view ?h q" using ok'(5) db_ok_bound [OF assms(1)] by blast
  have dbh: "db_ok elems ordered (s\<lparr>db_heap := ?h'\<rparr>)"
    using b by (intro db_ok_heap [OF assms(1) ok'(1)] shape) (auto simp: delta_final_def nth_append)
  have nid: "delta_id ?h' ?n = Returned ci"
    by (simp add: delta_id_def get_backend_def map_backend_new_def)
  have pid: "delta_parent_id ?h' ?n = Returned (be_id b)"
    using assms(3) lv by (simp add: delta_parent_id_def delta_id_def get_backend_def nth_append live_def)
  show ?thesis
  proof (cases "\<exists>q \<in> elems ?c. delta_id ?h q = Returned ci")
    case True
    then obtain q where "mi_find mi ?h' ?c ci = Some q"
      using find_iff [OF ord'] ids by metis
    then have "mi_insert mi ?h' ?c ?n = (False, ?c)" by (rule insert_old [OF ord' nid])
    then show ?thesis
      using True run dbh views by (simp add: permanent_make_child_def op_defs index_add_def)
  next
    case False
    then have "mi_find mi ?h' ?c ci = None"
      using find_iff [OF ord'] ids by (metis not_None_eq)
    then obtain c' where c': "mi_insert mi ?h' ?c ?n = (True, c')" "elems c' = insert ?n (elems ?c)" "ordered ?h' c'"
      using insert_new [OF ord' nid pid] by auto
    let ?s = "s\<lparr>db_heap := ?h', db_index := (db_index s)\<lparr>di_index := c'\<rparr>\<rparr>"
    have rv: "delta_rev ?h' ?n = Suc (delta_rev ?h' p)"
      using assms(3,4) lv unat_suc [of "be_revision b"]
      by (simp add: delta_rev_def map_backend_new_def nth_append live_def)
    have "ci \<noteq> null_id"
      using False assms(2,3,5) by (auto simp: delta_id_def get_backend_def split: if_splits)
    then have "tree_nodes ?h' (elems ?c) r \<Longrightarrow> tree_nodes ?h' (insert ?n (elems ?c)) r" for r
      using ok'(2) rv assms(2) b nid unfolding tree_nodes_def by auto
    moreover have "head_ok ?h' (elems ?c) t \<Longrightarrow> head_ok ?h' (insert ?n (elems ?c)) t" for t
      using ok'(4) by (auto simp: head_ok_def)
    ultimately have db': "db_ok elems ordered ?s"
      using dbh c' unfolding db_ok_def by auto
    have "permanent_make_child mi True p i s = (Returned (Permanent_node ?n), ?s)"
      using run c'(1) by (simp add: permanent_make_child_def op_defs index_add_def)
    moreover have "index_get mi ?s ci = Returned (Some ?n)"
      using find_iff [OF c'(3), of ci ?n] c'(2) nid db_ok_is_open [OF db'] by (simp add: index_get_def)
    ultimately show ?thesis
      using False db' c'(2) ok'(3,4) views by auto
  qed
qed

end

lemma finalize_shape:
  "\<forall>x < length h. same_shape (h[p := (h ! p)\<lparr>sd_final := True\<rparr>] ! x) (h ! x)"
  by (auto simp: nth_upd same_shape_def)

lemma heap_ok_finalize: "heap_ok h \<Longrightarrow> heap_ok (h[p := (h ! p)\<lparr>sd_final := True\<rparr>])"
  by (rule heap_ok_upd) (use heap_ok_delta [of h p] in \<open>auto simp: delta_ok_def\<close>)

lemma delta_revision_rev: "live h p \<Longrightarrow> \<exists>r. delta_revision h p = Returned r \<and> unat r = delta_rev h p"
  using live_backend [of h p] by (auto simp: delta_revision_def get_backend_def delta_rev_def)

lemma tree_rev_root:
  assumes "heap_ok h" and "tree_nodes h S r" and "p \<in> S"
  shows "delta_rev h r \<le> delta_rev h p"
  using assms(3)
proof (induction p rule: less_induct)
  case (less p)
  show ?case
  proof (cases "p = r")
    case False
    then obtain q where q: "q \<in> S" "sd_parent (h ! p) = Some q" "delta_rev h p = Suc (delta_rev h q)"
      using assms(2) less.prems unfolding tree_nodes_def by blast
    have "live h p" using assms(2) less.prems by (simp add: tree_nodes_def)
    then show ?thesis
      using less.IH [OF _ q(1)] live_parent [OF assms(1) _ q(2)] q(3) by simp
  qed simp
qed

context delta_container
begin

lemma permanent_finalize_run:
  assumes "db_ok elems ordered s" and "p \<in> nodes elems s" and "di_comp (db_index s) = fifo_comparator"
    and "di_head (db_index s) = Some t"
  shows "\<exists>s'. permanent_finalize True p s = (Returned (), s') \<and> db_ok elems ordered s'
       \<and> nodes elems s' = nodes elems s \<and> delta_final (db_heap s') p
       \<and> di_head (db_index s') = Some (if delta_rev (db_heap s) t < delta_rev (db_heap s) p then p else t)
       \<and> di_root (db_index s') = di_root (db_index s)
       \<and> di_fork_heads (db_index s') =
           insert (di_head (db_index s')) (di_fork_heads (db_index s) - {delta_parent (db_heap s) p})"
proof -
  let ?h = "db_heap s" and ?c = "di_index (db_index s)"
  let ?h' = "?h[p := (?h ! p)\<lparr>sd_final := True\<rparr>]"
  have hok: "heap_ok ?h" and ord: "ordered ?h ?c" and tr: "\<exists>r. di_root (db_index s) = Some r \<and> tree_nodes ?h (elems ?c) r"
    and hd: "head_ok ?h (elems ?c) t"
    using assms(1,4) by (auto simp: db_ok_def)
  note sh = finalize_shape [of ?h p]
  have b: "\<forall>q \<in> elems ?c. q < length ?h" using db_ok_bound [OF assms(1)] by (auto simp: live_def)
  have ord': "ordered ?h' ?c" by (rule ordered_shape [OF ord sh b hok])
  have tr': "\<exists>r. di_root (db_index s) = Some r \<and> tree_nodes ?h' (elems ?c) r"
    using tr tree_nodes_cong [OF _ sh] by auto
  have t: "t \<in> elems ?c" using hd by (simp add: head_ok_def)
  have lv: "live ?h' q" if "q \<in> elems ?c" for q
    using same_shape_live(1) [OF sh _ db_ok_bound [OF assms(1) that]] by simp
  have rv: "q \<in> elems ?c \<Longrightarrow> delta_rev ?h' q = delta_rev ?h q" for q
    using b sh same_shape_keys(3) by blast
  obtain rp rt where r: "delta_revision ?h' p = Returned rp" "unat rp = delta_rev ?h p"
      "delta_revision ?h' t = Returned rt" "unat rt = delta_rev ?h t"
    using delta_revision_rev [OF lv [OF assms(2)]] delta_revision_rev [OF lv [OF t]] rv assms(2) t by auto
  have fin: "delta_final ?h' q \<longleftrightarrow> q = p \<or> delta_final ?h q" if "q \<in> elems ?c" for q
    using that b by (auto simp: delta_final_def nth_upd)
  let ?t = "if delta_rev ?h t < delta_rev ?h p then p else t"
  have hd': "head_ok ?h' (elems ?c) ?t"
    using hd assms(2) by (force simp: head_ok_def rv fin)
  have par: "delta_parent ?h' p = delta_parent ?h p"
    by (simp add: delta_parent_def nth_upd)
  have "is_open (db_index s)" by (rule db_ok_is_open [OF assms(1)])
  then have "permanent_finalize True p s =
      (Returned (), s\<lparr>db_heap := ?h', db_index := (db_index s)\<lparr>di_head := Some ?t,
         di_fork_heads := insert (Some ?t) (di_fork_heads (db_index s) - {delta_parent ?h p})\<rparr>\<rparr>)"
    using r assms(3,4)
    by (auto simp: permanent_finalize_def index_finalize_def op_defs delta_finalize_def open_head_def word_less_nat_alt
        fifo_comparator_def par)
  then show ?thesis
    using heap_ok_finalize [OF hok] ord' tr' hd' fin [OF assms(2)] assms(2)
    by (auto simp: db_ok_def)
qed

text \<open>The walk of \<open>at_revision\<close>.\<close>

lemma at_revision_loop_run:
  assumes "heap_ok h" and "tree_nodes h S r" and "p \<in> S" and "p < n" and "delta_rev h r \<le> unat k"
  shows "\<exists>q \<in> set (ancestry h p). at_revision_loop n h (Some p) k = Returned (Some q)
           \<and> delta_rev h q = min (unat k) (delta_rev h p)"
  using assms(3,4)
proof (induction n arbitrary: p)
  case 0
  then show ?case by simp
next
  case (Suc n)
  have lp: "live h p" using assms(2) Suc.prems by (simp add: tree_nodes_def)
  obtain rp where rp: "delta_revision h p = Returned rp" "unat rp = delta_rev h p"
    using delta_revision_rev [OF lp] by auto
  show ?case
  proof (cases "k < rp")
    case False
    then show ?thesis
      using rp by (intro bexI [of _ p]) (simp_all add: word_less_nat_alt)
  next
    case True
    then have "p \<noteq> r" using assms(5) rp by (auto simp: word_less_nat_alt)
    then obtain q where q: "q \<in> S" "sd_parent (h ! p) = Some q" "delta_rev h p = Suc (delta_rev h q)"
      using assms(2) Suc.prems(1) unfolding tree_nodes_def by blast
    have qp: "q < p" using live_parent [OF assms(1) lp q(2)] by simp
    obtain x where "x \<in> set (ancestry h q)" "at_revision_loop n h (Some q) k = Returned (Some x)"
        "delta_rev h x = min (unat k) (delta_rev h q)"
      using Suc.IH [OF q(1)] qp Suc.prems(2) by auto
    then show ?thesis
      using rp True q qp by (intro bexI [of _ x]) (auto simp: delta_parent_def word_less_nat_alt ancestry_step)
  qed
qed

lemma index_at_revision_run:
  assumes "db_ok elems ordered s" and "di_root (db_index s) = Some r" and "di_head (db_index s) = Some t"
    and "p = (case mi_find mi (db_heap s) (di_index (db_index s)) i of Some q \<Rightarrow> q | None \<Rightarrow> t)"
    and "delta_rev (db_heap s) r \<le> unat k"
  shows "\<exists>q \<in> set (ancestry (db_heap s) p). index_at_revision mi s k i = Returned (Some q)
           \<and> delta_rev (db_heap s) q = min (unat k) (delta_rev (db_heap s) p)"
proof -
  let ?h = "db_heap s" and ?S = "nodes elems s"
  have hok: "heap_ok ?h" and ord: "ordered ?h (di_index (db_index s))" and tr: "tree_nodes ?h ?S r"
    and hd: "t \<in> ?S" using assms(1-3) by (auto simp: db_ok_def head_ok_def)
  have pS: "p \<in> ?S" using assms(4) hd find_iff [OF ord] by (auto split: option.splits)
  have lr: "live ?h r" using tr by (auto simp: tree_nodes_def)
  obtain rr where rr: "delta_revision ?h r = Returned rr" "unat rr = delta_rev ?h r"
    using delta_revision_rev [OF lr] by auto
  have op: "is_open (db_index s)" by (rule db_ok_is_open [OF assms(1)])
  have anc: "r \<in> set (ancestry ?h p)"
    using tree_ancestry [OF hok tr pS] last_in_set [OF ancestry_Nil, of ?h p] by metis
  have le: "delta_rev ?h r \<le> delta_rev ?h p"
    by (rule tree_rev_root [OF hok tr pS])
  show ?thesis
  proof (cases "k = rr")
    case True
    then show ?thesis
      using anc le rr op assms(2) by (intro bexI [of _ r]) (auto simp: index_at_revision_def open_root_def)
  next
    case False
    then have "\<not> k < rr" "k \<noteq> rr" using assms(5) rr by (auto simp: word_less_nat_alt)
    then have "index_at_revision mi s k i = at_revision_loop (Suc (length ?h)) ?h (Some p) k"
      using op assms(2-4) rr
      by (auto simp: index_at_revision_def open_root_def open_head_def index_get_def split: option.splits)
    then show ?thesis
      using at_revision_loop_run [OF hok tr pS _ assms(5), of "Suc (length ?h)"] db_ok_bound [OF assms(1) pS]
      by (auto simp: live_def)
  qed
qed

end

section \<open>Discarding nodes\<close>

text \<open>The nodes \<open>remove\<close> is to discard: the node and, transitively, its children off the whitelist.\<close>

definition node_key :: "heap \<Rightarrow> ptr \<Rightarrow> state_node_id" where
  "node_key h p = (case delta_id h p of Returned i \<Rightarrow> i | Threw _ \<Rightarrow> null_id)"

inductive_set discarded :: "heap \<Rightarrow> ptr set \<Rightarrow> state_node_id list \<Rightarrow> ptr \<Rightarrow> ptr set"
  for h S W p where
  discard_self: "p \<in> discarded h S W p"
| discard_child: "q \<in> discarded h S W p \<Longrightarrow> x \<in> S \<Longrightarrow> sd_parent (h ! x) = Some q \<Longrightarrow>
    node_key h x \<notin> set W \<Longrightarrow> x \<in> discarded h S W p"

lemma discarded_nodes: "x \<in> discarded h S W p \<Longrightarrow> p \<in> S \<Longrightarrow> x \<in> S"
  by (induction rule: discarded.induct) auto

lemma discarded_ge:
  assumes "heap_ok h" and "\<forall>x \<in> S. x < length h" and "x \<in> discarded h S W p"
  shows "p \<le> x"
  using assms(3)
proof (induction rule: discarded.induct)
  case discard_self
  then show ?case by simp
next
  case (discard_child q x)
  then have "q < x" using delta_okD(1) [OF assms(1), of x q] assms(2) by simp
  then show ?case using discard_child.IH by simp
qed

text \<open>The inner loop appends the ids of the children that are not on the whitelist.\<close>

lemma remove_children_run:
  assumes "\<forall>p \<in> set ms. delta_parent_id h p = Returned x \<and> delta_id h p = Returned (node_key h p)"
    and "\<forall>q \<in> set rest. \<exists>j. delta_parent_id h q = Returned j \<and> j \<noteq> x"
  shows "remove_children_loop h x W (ms @ rest) queue =
    Returned (queue @ filter (\<lambda>i. i \<notin> set W) (map (node_key h) ms))"
  using assms
proof (induction ms arbitrary: queue)
  case Nil
  then show ?case by (cases rest) auto
next
  case (Cons p ms)
  then show ?case by simp
qed

text \<open>The state of the outer loop after \<open>i\<close> rounds, in terms of pointers.\<close>

definition queue_inv ::
    "heap \<Rightarrow> ptr set \<Rightarrow> state_node_id list \<Rightarrow> ptr \<Rightarrow> ptr \<Rightarrow> nat \<Rightarrow> ptr list \<Rightarrow> bool" where
  "queue_inv h S W p t i xs \<longleftrightarrow>
     distinct xs \<and> set xs \<subseteq> discarded h S W p \<and> take 1 xs = [p] \<and> t \<notin> set (take i xs)
     \<and> (\<forall>x \<in> set (take i xs). \<forall>y \<in> S. sd_parent (h ! y) = Some x \<and> node_key h y \<notin> set W \<longrightarrow> y \<in> set xs)
     \<and> (\<forall>y \<in> set xs. y \<noteq> p \<longrightarrow> (\<exists>x \<in> set (take i xs). sd_parent (h ! y) = Some x))"

lemma queue_inv_final:
  assumes "queue_inv h S W p t i xs" and "length xs \<le> i"
  shows "set xs = discarded h S W p" and "t \<notin> discarded h S W p"
proof -
  have tk: "take i xs = xs" using assms(2) by simp
  have "x \<in> set xs" if "x \<in> discarded h S W p" for x
    using that
  proof (induction rule: discarded.induct)
    case discard_self
    have "p \<in> set (take 1 xs)" using assms(1) by (simp add: queue_inv_def)
    then show ?case by (rule in_set_takeD)
  next
    case (discard_child q x)
    then show ?case using assms(1) tk by (auto simp: queue_inv_def)
  qed
  then show "set xs = discarded h S W p" using assms(1) by (auto simp: queue_inv_def)
  then show "t \<notin> discarded h S W p" using assms(1) tk by (simp add: queue_inv_def)
qed

lemma queue_inv_step:
  assumes "queue_inv h S W p t i xs" and "i < length xs" and "xs ! i \<noteq> t" and "distinct ms"
    and "set ms = {y \<in> S. sd_parent (h ! y) = Some (xs ! i)}"
    and "heap_ok h" and "\<forall>x \<in> S. x < length h" and "p < length h"
  shows "queue_inv h S W p t (Suc i) (xs @ filter (\<lambda>y. node_key h y \<notin> set W) ms)"
proof -
  let ?q = "xs ! i" and ?ys = "filter (\<lambda>y. node_key h y \<notin> set W) ms"
  have d: "distinct xs" and sub: "set xs \<subseteq> discarded h S W p" using assms(1) by (auto simp: queue_inv_def)
  have q: "?q \<in> discarded h S W p" using sub assms(2) by (meson nth_mem subsetD)
  have tk: "take (Suc i) (xs @ ?ys) = take i xs @ [?q]"
    using assms(2) by (simp add: take_Suc_conv_app_nth)
  have new: "y \<notin> set xs" if "y \<in> set ms" for y
  proof
    assume y: "y \<in> set xs"
    have yq: "sd_parent (h ! y) = Some ?q" "y \<in> S" using that assms(5) by auto
    show False
    proof (cases "y = p")
      case True
      then have "?q < p" using delta_okD(1) [OF assms(6,8)] yq(1) by simp
      then show False using discarded_ge [OF assms(6,7) q] by simp
    next
      case False
      then have "?q \<in> set (take i xs)" using assms(1) y yq(1) by (auto simp: queue_inv_def)
      then show False using d assms(2) by (auto simp: in_set_conv_nth nth_eq_iff_index_eq)
    qed
  qed
  have ysub: "set ?ys \<subseteq> discarded h S W p"
    using assms(5) discarded.discard_child [OF q] by auto
  have "take 1 (xs @ ?ys) = [p]" using assms(1) by (cases xs) (auto simp: queue_inv_def)
  then show ?thesis
    unfolding queue_inv_def tk
    using assms(1,3,4,5) d sub ysub new unfolding queue_inv_def by auto
qed


context delta_container
begin

lemma node_key_id: "ordered h c \<Longrightarrow> p \<in> elems c \<Longrightarrow> delta_id h p = Returned (node_key h p)"
  using ordered_keys [of h c p] by (auto simp: node_key_def)

lemma node_key_inject:
  "ordered h c \<Longrightarrow> p \<in> elems c \<Longrightarrow> q \<in> elems c \<Longrightarrow> node_key h p = node_key h q \<longleftrightarrow> p = q"
  using node_key_id ordered_unique by metis

text \<open>The elements the parent index holds under the id of a node are the children of that node.\<close>

lemma children_iff:
  assumes "ordered h c" and "tree_nodes h (elems c) r" and "q \<in> elems c" and "q \<noteq> r" and "x \<in> elems c"
  shows "delta_parent_id h x = Returned (node_key h q) \<longleftrightarrow> sd_parent (h ! x) = Some q"
proof (cases "x = r")
  case True
  then have "sd_parent (h ! x) = None" using assms(2) by (simp add: tree_nodes_def)
  moreover have "node_key h q \<noteq> null_id"
    using assms(2-4) node_key_id [OF assms(1,3)] by (auto simp: tree_nodes_def)
  ultimately show ?thesis by (simp add: delta_parent_id_def)
next
  case False
  then obtain y where y: "y \<in> elems c" "sd_parent (h ! x) = Some y" "delta_parent_id h x = delta_id h y"
    using tree_parent_id [OF assms(2,5)] by blast
  then show ?thesis
    using node_key_id [OF assms(1) y(1)] node_key_inject [OF assms(1,3) y(1)] by auto
qed

text \<open>One round of the outer loop.\<close>

lemma remove_queue_step:
  assumes "heap_ok h" and "ordered h c" and "tree_nodes h (elems c) r" and "p \<in> elems c" and "p \<noteq> r"
    and "queue_inv h (elems c) W p t i xs" and "i < length xs" and "xs ! i \<noteq> t"
  shows "\<exists>ms. remove_children_loop h (node_key h (xs ! i)) W (mi_lower_bound mi h c (node_key h (xs ! i)))
             (map (node_key h) xs) = Returned (map (node_key h) (xs @ ms))
           \<and> queue_inv h (elems c) W p t (Suc i) (xs @ ms)"
proof -
  let ?q = "xs ! i"
  have bound: "\<forall>x \<in> elems c. x < length h" using assms(3) by (auto simp: tree_nodes_def live_def)
  have qD: "?q \<in> discarded h (elems c) W p"
    using assms(6,7) by (auto simp: queue_inv_def dest: nth_mem)
  then have qS: "?q \<in> elems c" by (rule discarded_nodes [OF _ assms(4)])
  have "r \<le> p"
    using tree_ancestry [OF assms(1,3,4)] ancestry_le [of r h p] last_in_set [OF ancestry_Nil, of h p] by auto
  then have qr: "?q \<noteq> r" using discarded_ge [OF assms(1) bound qD] assms(5) by auto
  obtain ms rest where lb: "mi_lower_bound mi h c (node_key h ?q) = ms @ rest" "distinct ms"
      "set ms = {x \<in> elems c. delta_parent_id h x = Returned (node_key h ?q)}"
      "\<forall>x \<in> set rest. x \<in> elems c \<and> delta_parent_id h x \<noteq> Returned (node_key h ?q)"
    using lower_bound [OF assms(2), of "node_key h ?q"] by auto
  have ms: "set ms = {x \<in> elems c. sd_parent (h ! x) = Some ?q}"
    using lb(3) children_iff [OF assms(2,3) qS qr] by auto
  have "remove_children_loop h (node_key h ?q) W (ms @ rest) (map (node_key h) xs)
      = Returned (map (node_key h) (xs @ filter (\<lambda>y. node_key h y \<notin> set W) ms))"
    using lb(3,4) node_key_id [OF assms(2)] ordered_keys [OF assms(2)]
    by (subst remove_children_run) (fastforce simp: filter_map comp_def)+
  moreover have "queue_inv h (elems c) W p t (Suc i) (xs @ filter (\<lambda>y. node_key h y \<notin> set W) ms)"
    using assms(4) bound by (intro queue_inv_step [OF assms(6-8) lb(2) ms assms(1)]) auto
  ultimately show ?thesis using lb(1) by auto
qed

lemma remove_queue_run:
  assumes "heap_ok h" and "ordered h c" and "tree_nodes h (elems c) r" and "p \<in> elems c" and "p \<noteq> r"
    and "t \<in> elems c" and "queue_inv h (elems c) W p t i xs" and "card (elems c) < n + i" and "i \<le> length xs"
  shows "if t \<in> discarded h (elems c) W p
     then remove_queue_loop mi n h c (node_key h t) W i (map (node_key h) xs)
            = Threw (Runtime_error ''cannot discard an ancestor of head'')
     else \<exists>ys. remove_queue_loop mi n h c (node_key h t) W i (map (node_key h) xs) = Returned (map (node_key h) ys)
            \<and> distinct ys \<and> set ys = discarded h (elems c) W p \<and> take 1 ys = [p]"
  using assms(7-9)
proof (induction n arbitrary: i xs)
  case 0
  have "set xs \<subseteq> elems c"
    using 0 discarded_nodes [OF _ assms(4)] by (auto simp: queue_inv_def)
  then have "length xs \<le> card (elems c)"
    using 0 distinct_card [of xs] card_mono [OF elems_finite, of "set xs" c] by (simp add: queue_inv_def)
  then show ?case using 0 by simp
next
  case (Suc n)
  have bound: "\<forall>x \<in> elems c. x < length h" using assms(3) by (auto simp: tree_nodes_def live_def)
  show ?case
  proof (cases "i < length xs")
    case False
    then show ?thesis
      using queue_inv_final [OF Suc.prems(1)] Suc.prems(1) by (auto simp: queue_inv_def)
  next
    case True
    let ?q = "xs ! i"
    have qD: "?q \<in> discarded h (elems c) W p"
      using Suc.prems(1) True by (auto simp: queue_inv_def dest: nth_mem)
    then have qS: "?q \<in> elems c" by (rule discarded_nodes [OF _ assms(4)])
    show ?thesis
    proof (cases "?q = t")
      case True
      then show ?thesis using qD \<open>i < length xs\<close> by simp
    next
      case False
      obtain ms where st: "remove_children_loop h (node_key h ?q) W (mi_lower_bound mi h c (node_key h ?q))
            (map (node_key h) xs) = Returned (map (node_key h) (xs @ ms))"
          "queue_inv h (elems c) W p t (Suc i) (xs @ ms)"
        using remove_queue_step [OF assms(1-5) Suc.prems(1) True False] by blast
      have "node_key h ?q \<noteq> node_key h t"
        using False node_key_inject [OF assms(2) qS assms(6)] by simp
      then have eq: "remove_queue_loop mi (Suc n) h c (node_key h t) W i (map (node_key h) xs)
          = remove_queue_loop mi n h c (node_key h t) W (Suc i) (map (node_key h) (xs @ ms))"
        using True st(1) by simp
      show ?thesis
        unfolding eq using Suc.prems(2) True by (intro Suc.IH [OF st(2)]) simp_all
    qed
  qed
qed


lemma queue_inv_start:
  "t \<in> S \<Longrightarrow> queue_inv h S W p t 0 [p]"
  by (simp add: queue_inv_def discarded.discard_self)

lemma card_nodes: "db_ok elems ordered s \<Longrightarrow> card (nodes elems s) \<le> length (db_heap s)"
  using db_ok_bound card_mono [of "{..<length (db_heap s)}" "nodes elems s"] by (force simp: live_def)

lemma index_remove_run:
  assumes "db_ok elems ordered s" and "p \<in> nodes elems s"
    and "di_root (db_index s) = Some r" and "di_head (db_index s) = Some t"
  shows "index_remove mi p W s =
    (if p = r then (Threw (Runtime_error ''cannot discard root node''), s)
     else if t \<in> discarded (db_heap s) (nodes elems s) W p
          then (Threw (Runtime_error ''cannot discard an ancestor of head''), s)
     else (Threw Invalid_iterator,
           s\<lparr>db_index := (db_index s)\<lparr>di_index := mi_erase mi (di_index (db_index s)) p\<rparr>\<rparr>))"
proof -
  let ?h = "db_heap s" and ?c = "di_index (db_index s)"
  have hok: "heap_ok ?h" and ord: "ordered ?h ?c" and tr: "tree_nodes ?h (elems ?c) r" and tS: "t \<in> elems ?c"
    and rS: "r \<in> elems ?c"
    using assms by (auto simp: db_ok_def tree_nodes_def head_ok_def)
  note ids = node_key_id [OF ord]
  have op: "is_open (db_index s)" by (rule db_ok_is_open [OF assms(1)])
  show ?thesis
  proof (cases "p = r")
    case True
    then show ?thesis using ids [OF rS] op assms(3) by (simp add: index_remove_def op_defs open_root_def)
  next
    case False
    let ?q = "remove_queue_loop mi (Suc (Suc (length ?h))) ?h ?c (node_key ?h t) W 0 (map (node_key ?h) [p])"
    have start: "index_remove mi p W s =
        andThen (readsE (\<lambda>_. ?q)) (\<lambda>queue. andThen (remove_erase_loop mi queue) (\<lambda>_ s.
          upd_index (\<lambda>d. d\<lparr>di_fork_heads := di_fork_heads d - {delta_parent (db_heap s) p}\<rparr>) s)) s"
      using ids [OF rS] ids [OF tS] ids [OF assms(2)] node_key_inject [OF ord assms(2) rS] False op assms(3,4)
      by (simp add: index_remove_def op_defs open_root_def open_head_def del: remove_queue_loop.simps)
    have "if t \<in> discarded ?h (elems ?c) W p
      then ?q = Threw (Runtime_error ''cannot discard an ancestor of head'')
      else \<exists>ys. ?q = Returned (map (node_key ?h) ys) \<and> distinct ys
             \<and> set ys = discarded ?h (elems ?c) W p \<and> take 1 ys = [p]"
      using card_nodes [OF assms(1)]
      by (intro remove_queue_run [OF hok ord tr assms(2) False tS queue_inv_start [OF tS]]) simp_all
    moreover have "andThen (readsE (\<lambda>_. Returned (map (node_key ?h) ys))) (\<lambda>queue. andThen (remove_erase_loop mi queue) (\<lambda>_ s.
          upd_index (\<lambda>d. d\<lparr>di_fork_heads := di_fork_heads d - {delta_parent (db_heap s) p}\<rparr>) s)) s
        = (Threw Invalid_iterator, s\<lparr>db_index := (db_index s)\<lparr>di_index := mi_erase mi ?c p\<rparr>\<rparr>)"
      if "take 1 ys = [p]" for ys
      using that find_iff [OF ord, of "node_key ?h p" p] ids [OF assms(2)] assms(2)
      by (cases ys) (auto simp: op_defs)
    ultimately show ?thesis
      using False start by (auto simp: op_defs simp del: remove_queue_loop.simps)
  qed
qed

text \<open>Committing a node below the root runs into the old root, which has no backend any more.\<close>

lemma permanent_commit_run:
  assumes "db_ok elems ordered s" and "p \<in> nodes elems s"
  shows "fst (permanent_commit H mi True p s) =
    Threw (if delta_root (db_heap s) p then Runtime_error ''cannot commit root''
           else if delta_final (db_heap s) p then Null_dereference
           else Runtime_error ''cannot return merkle root of non-final node'')"
proof -
  let ?h = "db_heap s"
  obtain r where r: "di_root (db_index s) = Some r" "tree_nodes ?h (nodes elems s) r" and hok: "heap_ok ?h"
    using assms(1) by (auto simp: db_ok_def)
  have lv: "live ?h p" by (rule db_ok_bound [OF assms])
  have op: "is_open (db_index s)" by (rule db_ok_is_open [OF assms(1)])
  show ?thesis
  proof (cases "delta_root ?h p")
    case True
    then show ?thesis by (simp add: permanent_commit_def op_defs delta_commit_def)
  next
    case False
    show ?thesis
    proof (cases "delta_final ?h p")
      case True
      obtain h' where h': "delta_commit H p ?h = (Returned (), h')" "live h' p"
          "sd_backend (h' ! last (ancestry ?h p)) = None"
        using delta_commit_run [OF hok lv False True, of H] by auto
      have "last (ancestry ?h p) = r" using tree_ancestry [OF hok r(2) assms(2)] by simp
      then have "delta_id h' r = Threw Null_dereference"
        using h'(3) by (simp add: delta_id_def get_backend_def)
      moreover obtain i where "delta_id h' p = Returned i"
        using live_backend [OF h'(2)] by (auto simp: delta_id_def get_backend_def)
      ultimately show ?thesis
        using h'(1) False True op r(1)
        by (simp add: permanent_commit_def index_commit_def op_defs open_root_def)
    next
      case nf: False
      then show ?thesis
        using delta_commit_throws [OF hok lv False nf, of H] False
        by (auto simp: permanent_commit_def op_defs split: outcome.splits prod.splits)
    qed
  qed
qed

end

section \<open>The database\<close>

lemma database_open_run:
  assumes "delta_container mi elems ordered"
    and "init (Temporary_node (Some (length h))) (h @ [state_delta_default]) = (Returned (), h')"
    and "heap_ok h'" and "length h < length h'"
    and "sd_parent (h' ! length h) = None" and "sd_backend (h' ! length h) = Some b"
  shows "\<exists>s. database_open mi init Fifo (database_new mi h) = (Returned (), s) \<and> db_ok elems ordered s
       \<and> nodes elems s = {length h}
       \<and> database_root s = Some (Permanent_node (length h))
       \<and> database_head s = Some (Permanent_node (length h))
       \<and> delta_final (db_heap s) (length h) \<and> di_comp (db_index s) = fifo_comparator
       \<and> db_heap s = h'[length h := (h' ! length h)\<lparr>sd_final := True\<rparr>]"
proof -
  let ?p = "length h"
  let ?h = "h'[?p := (h' ! ?p)\<lparr>sd_final := True\<rparr>]"
  obtain x c where ins: "mi_insert mi ?h (mi_empty mi) ?p = (x, c)" by fastforce
  have fin: "delta_final ?h ?p" "sd_parent (?h ! ?p) = None" "sd_backend (?h ! ?p) = Some b"
    using assms(4-6) by (simp_all add: delta_final_def)
  note ok = delta_container.db_ok_single [OF assms(1) heap_ok_finalize [OF assms(3)] _ fin(2,3,1) ins,
      of init fifo_comparator "{Some ?p}"]
  have r: "delta_revision (h @ [state_delta_default]) ?p = Returned 0"
    by (simp add: delta_revision_def get_backend_def state_delta_default_def map_backend_default_def)
  have "database_open mi init Fifo (database_new mi h) =
      (Returned (), \<lparr>db_heap = ?h, db_index = \<lparr>di_init = init, di_comp = fifo_comparator, di_index = c,
         di_root = Some ?p, di_head = Some ?p, di_fork_heads = {Some ?p}\<rparr>\<rparr>)"
    using assms(2) r ins
    by (simp add: database_open_def index_open_def index_open_comp_def op_defs database_new_def delta_index_new_def
        make_shared_def delta_finalize_def)
  then show ?thesis
    using ok assms(4) fin(1) by (simp add: database_root_def database_head_def)
qed

text \<open>
  Opening a fresh database runs the genesis function on a temporary node over an empty root
  and establishes the invariant: the root delta is final, it is the only indexed node, and it is
  both \<open>root()\<close> and \<open>head()\<close>.  The genesis function is assumed to return a well-formed heap in
  which the root delta still has its backend and no parent.
\<close>

theorem database_open_ok:
  assumes "delta_container mi elems ordered"
    and "init (Temporary_node (Some (length h))) (h @ [state_delta_default]) = (Returned (), h')"
    and "heap_ok h'" and "length h < length h'"
    and "sd_parent (h' ! length h) = None" and "sd_backend (h' ! length h) = Some b"
  shows "\<exists>s. database_open mi init Fifo (database_new mi h) = (Returned (), s) \<and> db_ok elems ordered s
       \<and> nodes elems s = {length h}
       \<and> database_root s = Some (Permanent_node (length h))
       \<and> database_head s = Some (Permanent_node (length h))
       \<and> delta_final (db_heap s) (length h) \<and> di_comp (db_index s) = fifo_comparator"
  using database_open_run [where init = init and h = h, OF assms] by blast

text \<open>
  C22: Creating a permanent child of an indexed node keeps the database invariant and the store of
  every indexed node.  If an indexed node already has the new id, the call throws and the index is
  unchanged; otherwise the fresh node is indexed under its id, shows its parent's store and is not
  final.
\<close>

theorem permanent_make_child_ok:
  assumes "delta_container mi elems ordered" and "db_ok elems ordered s" and "p \<in> nodes elems s"
    and "sd_backend (db_heap s ! p) = Some b" and "unat (be_revision b) + 1 < 2 ^ 64"
    and "ci = (if i = null_id then be_id b else i)"
  shows "\<exists>r s'. permanent_make_child mi True p i s = (r, s') \<and> db_ok elems ordered s'
       \<and> (\<forall>q \<in> nodes elems s. view (db_heap s') q = view (db_heap s) q)
       \<and> (if \<exists>q \<in> nodes elems s. delta_id (db_heap s) q = Returned ci
          then r = Threw (Runtime_error ''could not add state delta'') \<and> db_index s' = db_index s
          else r = Returned (Permanent_node (length (db_heap s)))
             \<and> nodes elems s' = insert (length (db_heap s)) (nodes elems s)
             \<and> index_get mi s' ci = Returned (Some (length (db_heap s)))
             \<and> view (db_heap s') (length (db_heap s)) = view (db_heap s) p
             \<and> \<not> delta_final (db_heap s') (length (db_heap s)))"
  by (rule delta_container.permanent_make_child_run [OF assms])

text \<open>
  C23: Finalizing an indexed node keeps the database invariant, so the head stays a final node of
  maximal revision.  The head moves to the node exactly when its revision is greater than the
  head's; in a tie the older head stays.
\<close>

theorem permanent_finalize_ok:
  assumes "delta_container mi elems ordered" and "db_ok elems ordered s" and "p \<in> nodes elems s"
    and "di_comp (db_index s) = fifo_comparator" and "di_head (db_index s) = Some t"
  shows "\<exists>s'. permanent_finalize True p s = (Returned (), s') \<and> db_ok elems ordered s'
       \<and> nodes elems s' = nodes elems s \<and> delta_final (db_heap s') p
       \<and> di_head (db_index s') = Some (if delta_rev (db_heap s) t < delta_rev (db_heap s) p then p else t)
       \<and> di_root (db_index s') = di_root (db_index s)
       \<and> di_fork_heads (db_index s') =
           insert (di_head (db_index s')) (di_fork_heads (db_index s) - {delta_parent (db_heap s) p})"
  by (rule delta_container.permanent_finalize_run [OF assms])

text \<open>
  \<open>at_revision\<close> of a revision not below the root's always returns an ancestor (or the node itself)
  of the node with the given id, or of the head when there is no such node: the one with exactly
  that revision, or the node itself when the revision is beyond it.
\<close>

theorem index_at_revision_ok:
  assumes "delta_container mi elems ordered" and "db_ok elems ordered s"
    and "di_root (db_index s) = Some r" and "di_head (db_index s) = Some t"
    and "p = (case mi_find mi (db_heap s) (di_index (db_index s)) i of Some q \<Rightarrow> q | None \<Rightarrow> t)"
    and "delta_rev (db_heap s) r \<le> unat k"
  shows "\<exists>q \<in> set (ancestry (db_heap s) p). index_at_revision mi s k i = Returned (Some q)
           \<and> delta_rev (db_heap s) q = min (unat k) (delta_rev (db_heap s) p)"
  by (rule delta_container.index_at_revision_run [OF assms])

text \<open>
  The breadth-first search of \<open>delta_index::remove\<close> ends and is exact: it throws when the head is
  among the nodes to discard, and otherwise collects the ids of the node and of all its indexed
  descendants off the whitelist, each once.
\<close>

theorem remove_queue_ok:
  assumes "delta_container mi elems ordered" and "db_ok elems ordered s" and "p \<in> nodes elems s"
    and "di_root (db_index s) = Some r" and "di_head (db_index s) = Some t" and "p \<noteq> r"
  shows "if t \<in> discarded (db_heap s) (nodes elems s) W p
     then remove_queue_loop mi (Suc (Suc (length (db_heap s)))) (db_heap s) (di_index (db_index s))
            (node_key (db_heap s) t) W 0 (map (node_key (db_heap s)) [p])
          = Threw (Runtime_error ''cannot discard an ancestor of head'')
     else \<exists>ys. remove_queue_loop mi (Suc (Suc (length (db_heap s)))) (db_heap s) (di_index (db_index s))
            (node_key (db_heap s) t) W 0 (map (node_key (db_heap s)) [p])
          = Returned (map (node_key (db_heap s)) ys)
          \<and> distinct ys \<and> set ys = discarded (db_heap s) (nodes elems s) W p \<and> take 1 ys = [p]"
proof -
  have ok: "heap_ok (db_heap s)" "ordered (db_heap s) (di_index (db_index s))"
      "tree_nodes (db_heap s) (nodes elems s) r" "t \<in> nodes elems s"
    using assms(2,4,5) by (auto simp: db_ok_def head_ok_def)
  note inv = delta_container.queue_inv_start [OF assms(1) ok(4)]
  show ?thesis
    using delta_container.card_nodes [OF assms(1,2)]
    by (intro delta_container.remove_queue_run [OF assms(1) ok(1-3) assms(3,6) ok(4) inv]) simp_all
qed

text \<open>
  Discarding an indexed node never returns.  It throws for the root and for an ancestor of the
  head, leaving the database as it was; in every other case it erases the node from the index and
  then reads the erased element through its invalidated iterator.
\<close>

theorem permanent_discard_undefined:
  assumes "delta_container mi elems ordered" and "db_ok elems ordered s" and "p \<in> nodes elems s"
    and "di_root (db_index s) = Some r" and "di_head (db_index s) = Some t"
  shows "permanent_discard mi True p s =
    (if p = r then (Threw (Runtime_error ''cannot discard root node''), s)
     else if t \<in> discarded (db_heap s) (nodes elems s) [] p
          then (Threw (Runtime_error ''cannot discard an ancestor of head''), s)
     else (Threw Invalid_iterator,
           s\<lparr>db_index := (db_index s)\<lparr>di_index := mi_erase mi (di_index (db_index s)) p\<rparr>\<rparr>))"
  using delta_container.index_remove_run [OF assms(1-5), of "[]"] by (simp add: permanent_discard_def)

text \<open>
  C24: Committing an indexed permanent node never returns.  The root and non-final nodes are refused
  with an exception, and for every final node below the root the commit of the delta succeeds
  first and the index then dereferences the old root's backend, which that commit has taken away.
\<close>

theorem permanent_commit_undefined:
  assumes "delta_container mi elems ordered" and "db_ok elems ordered s" and "p \<in> nodes elems s"
  shows "fst (permanent_commit H mi True p s) =
    Threw (if delta_root (db_heap s) p then Runtime_error ''cannot commit root''
           else if delta_final (db_heap s) p then Null_dereference
           else Runtime_error ''cannot return merkle root of non-final node'')"
  by (rule delta_container.permanent_commit_run [OF assms])

section \<open>Evaluated instances of the database\<close>

text \<open>A root, a final child that is the head, and a child of the head that is not final.\<close>

definition sample_node :: "ptr option \<Rightarrow> state_node_id \<Rightarrow> u64 \<Rightarrow> bool \<Rightarrow> state_delta" where
  "sample_node q i r f =
     \<lparr>sd_parent = q, sd_backend = Some (map_backend_new i r), sd_removed = [], sd_merkle_root = None, sd_final = f\<rparr>"

definition sample_db :: "ptr list state_db" where
  "sample_db =
     \<lparr>db_heap = [sample_node None null_id 0 True, sample_node (Some 0) [9] 1 False,
                 sample_node (Some 0) [1] 1 True, sample_node (Some 2) [2] 2 False],
      db_index = \<lparr>di_init = (\<lambda>_. returns ()), di_comp = fifo_comparator, di_index = [0, 2, 3],
                  di_root = Some 0, di_head = Some 2, di_fork_heads = {Some 2}\<rparr>\<rparr>"

lemma sample_node_simps [simp]:
  "sd_parent (sample_node q i r f) = q" "sd_removed (sample_node q i r f) = []"
  "sd_final (sample_node q i r f) = f" "sd_merkle_root (sample_node q i r f) = None"
  "sd_backend (sample_node q i r f) = Some (map_backend_new i r)"
  by (simp_all add: sample_node_def)

lemma sample_db_simps [simp]:
  "di_comp (db_index sample_db) = fifo_comparator" "di_index (db_index sample_db) = [0, 2, 3]"
  "di_root (db_index sample_db) = Some 0" "di_head (db_index sample_db) = Some 2"
  "length (db_heap sample_db) = 4" "db_heap sample_db ! 0 = sample_node None null_id 0 True"
  "db_heap sample_db ! 2 = sample_node (Some 0) [1] 1 True"
  "db_heap sample_db ! 3 = sample_node (Some 2) [2] 2 False"
  by (simp_all add: sample_db_def)

lemma null_id_short [simp]: "[a] \<noteq> null_id" "null_id \<noteq> [a]"
  by (auto simp: null_id_def dest: arg_cong [where f = length])

lemma sample_db_ok: "db_ok set list_ordered sample_db"
proof -
  have "heap_ok (db_heap sample_db)"
    by (simp add: heap_ok_def sample_db_def delta_ok_def backend_ok_def map_backend_new_def
        All_less_Suc numeral_2_eq_2 numeral_3_eq_3)
  moreover have "list_ordered (db_heap sample_db) [0, 2, 3]"
    by (simp add: list_ordered_def delta_id_def delta_parent_id_def get_backend_def map_backend_new_def)
  moreover have "ancestry (db_heap sample_db) 0 = [0]" "ancestry (db_heap sample_db) 2 = [2, 0]"
      "ancestry (db_heap sample_db) 3 = [3, 2, 0]"
    by (simp_all add: ancestry.simps)
  then have "tree_nodes (db_heap sample_db) {0, 2, 3} 0"
    by (simp add: tree_nodes_def live_def delta_rev_def delta_id_def get_backend_def map_backend_new_def)
  moreover have "head_ok (db_heap sample_db) {0, 2, 3} 2"
    by (simp add: head_ok_def delta_final_def delta_rev_def map_backend_new_def)
  ultimately show ?thesis by (simp add: db_ok_def)
qed

theorem database_open_ok_witness:
  "\<exists>s. database_open list_index (\<lambda>_. returns ()) Fifo (database_new list_index []) = (Returned (), s)
     \<and> nodes set s = {0} \<and> database_head s = Some (Permanent_node 0)"
  using database_open_ok [OF lx.delta_container_axioms, of "\<lambda>_. returns ()" "[]" "[state_delta_default]" map_backend_default]
  by (auto simp: returns_def heap_ok_def delta_ok_def state_delta_default_def backend_ok_def map_backend_default_def)

theorem permanent_make_child_ok_witness:
  "\<exists>s'. permanent_make_child list_index True 2 [5] sample_db = (Returned (Permanent_node 4), s')
     \<and> index_get list_index s' [5] = Returned (Some 4)"
  using permanent_make_child_ok [OF lx.delta_container_axioms sample_db_ok, of 2 "map_backend_new [1] 1" "[5]" "[5]"]
  by (auto simp: map_backend_new_def delta_id_def get_backend_def)

theorem permanent_finalize_ok_witness:
  "\<exists>s'. permanent_finalize True 3 sample_db = (Returned (), s') \<and> di_head (db_index s') = Some 3"
  using permanent_finalize_ok [OF lx.delta_container_axioms sample_db_ok, of 3 2]
  by (auto simp: delta_rev_def map_backend_new_def)

theorem index_at_revision_ok_witness:
  "\<exists>q \<in> set (ancestry (db_heap sample_db) 3). index_at_revision list_index sample_db 1 [2] = Returned (Some q)
     \<and> delta_rev (db_heap sample_db) q = 1"
  using index_at_revision_ok [OF lx.delta_container_axioms sample_db_ok, of 0 2 3 "[2]" 1]
  by (auto simp: delta_rev_def map_backend_new_def list_index_def list_find_def delta_id_def get_backend_def)

lemma sample_discarded: "2 \<notin> discarded (db_heap sample_db) {0, 2, 3} [] 3"
proof
  assume "2 \<in> discarded (db_heap sample_db) {0, 2, 3} [] 3"
  moreover have "heap_ok (db_heap sample_db)" using sample_db_ok by (simp add: db_ok_def)
  ultimately have "3 \<le> (2 :: nat)" by (intro discarded_ge) auto
  then show False by simp
qed

theorem remove_queue_ok_witness:
  "\<exists>ys. remove_queue_loop list_index 6 (db_heap sample_db) [0, 2, 3] (node_key (db_heap sample_db) 2) [] 0
        (map (node_key (db_heap sample_db)) [3]) = Returned (map (node_key (db_heap sample_db)) ys)
     \<and> distinct ys \<and> take 1 ys = [3]"
  using remove_queue_ok [OF lx.delta_container_axioms sample_db_ok, of 3 0 2 "[]"] sample_discarded
  by (auto simp del: remove_queue_loop.simps simp: numeral_eq_Suc)

theorem permanent_discard_undefined_witness:
  "fst (permanent_discard list_index True 3 sample_db) = Threw Invalid_iterator"
  using permanent_discard_undefined [OF lx.delta_container_axioms sample_db_ok, of 3 0 2] sample_discarded
  by simp

theorem permanent_commit_undefined_witness:
  "fst (permanent_commit pad_digest list_index True 2 sample_db) = Threw Null_dereference"
  using permanent_commit_undefined [OF lx.delta_container_axioms sample_db_ok, of 2 pad_digest]
  by (simp add: delta_root_def delta_final_def)

end
