(* ===== verification/Controller.thy ===== *)
theory Controller
  imports Execution_Context Delta_Index
begin

text \<open>
  The controller (\<open>controller/controller.cpp\<close>): it owns the database and the virtual machine, checks blocks and
  transactions, applies them in an execution context on a fresh node, finalizes the node and
  answers queries on the head.
\<close>

section \<open>State\<close>

record ('c, 'm) controller =
  ct_db :: "'c state_db"
  ct_vm :: "'m module_cache"
  ct_read_compute_bandwidth_limit :: u64

record genesis_entry =
  ge_space :: object_space
  ge_key :: bytes
  ge_value :: bytes

record head_info =
  hi_id :: digest
  hi_height :: u64
  hi_previous :: digest
  hi_last_irreversible_block :: u64
  hi_state_merkle_root :: digest
  hi_time :: u64

definition controller_new :: "'c multi_index \<Rightarrow> u64 \<Rightarrow> ('c, 'm) controller" where
  "controller_new mi limit =
     \<lparr>ct_db = database_new mi [], ct_vm = module_cache_new default_module_cache_size, ct_read_compute_bandwidth_limit = limit\<rparr>"

definition on_db :: "('c state_db, 'a) op \<Rightarrow> (('c, 'm) controller, 'a) op" where
  "on_db m s = (case m (ct_db s) of (r, db) \<Rightarrow> (r, s\<lparr>ct_db := db\<rparr>))"

text \<open>
  A call on a local execution context, which shares the deltas of the database and the virtual machine; \<open>setup\<close> is
  what is done to the context before the call.
\<close>

definition in_context ::
    "intent \<Rightarrow> ('m execution_context \<Rightarrow> 'm execution_context) \<Rightarrow> ('m execution_context, 'a) op \<Rightarrow> (('c, 'm) controller, 'a) op" where
  "in_context i setup m s =
     (case m (setup (execution_context_new (db_heap (ct_db s)) (ct_vm s) i)) of
        (r, c) \<Rightarrow> (r, s\<lparr>ct_db := (ct_db s)\<lparr>db_heap := xc_heap c\<rparr>, ct_vm := xc_vm c\<rparr>))"

text \<open>The call \<open>context.set_state_node( _db.head() )\<close>: without a head the context keeps its null node.\<close>

definition at_head :: "('c, 'm) controller \<Rightarrow> 'm execution_context \<Rightarrow> 'm execution_context" where
  "at_head s c = c\<lparr>xc_state_node := database_head (ct_db s)\<rparr>"

section \<open>Opening and closing\<close>

fun genesis_loop :: "genesis_entry list \<Rightarrow> state_node \<Rightarrow> (heap, unit) op" where
  "genesis_loop [] root = returns ()"
| "genesis_loop (e # es) root =
     andThen (readsE (\<lambda>h. node_get h root (ge_space e) (ge_key e))) (\<lambda>present.
     if present \<noteq> None then throws (Runtime_error ''encountered unexpected object in initial state'')
     else andThen (node_put root (ge_space e) (ge_key e) (ge_value e)) (\<lambda>_. genesis_loop es root))"

definition genesis_function :: "(bytes \<Rightarrow> digest) \<Rightarrow> genesis_entry list \<Rightarrow> genesis_init" where
  "genesis_function H data root =
     andThen (genesis_loop data root) (\<lambda>_.
     andThen (readsE (\<lambda>h. node_get h root metadata_space (genesis_key H))) (\<lambda>key.
     if key = None then throws (Runtime_error ''could not find genesis public key in database'') else returns ()))"

definition controller_open ::
    "('m, 'k) node_env \<Rightarrow> 'c multi_index \<Rightarrow> genesis_entry list \<Rightarrow> fork_resolution_algorithm \<Rightarrow> bool \<Rightarrow> (('c, 'm) controller, unit) op" where
  "controller_open env mi data algo reset =
     andThen (on_db (database_open mi (genesis_function (ne_hash env) data) algo)) (\<lambda>_.
     if reset then on_db (database_reset mi) else returns ())"

definition controller_close :: "'c multi_index \<Rightarrow> (('c, 'm) controller, unit) op" where
  "controller_close mi = on_db (database_close mi)"

section \<open>Blocks\<close>

definition xc_head :: "(bytes \<Rightarrow> digest) \<Rightarrow> ('m execution_context, head_info) op" where
  "xc_head H =
     andThen the_node (\<lambda>n.
     case n of
       Temporary_node d \<Rightarrow> throws (Runtime_error ''head state node unexpectedly temporary'')
     | Permanent_node p \<Rightarrow>
         andThen (readsE (\<lambda>c. node_id (xc_heap c) n)) (\<lambda>i.
         andThen (readsE (\<lambda>c. node_revision (xc_heap c) n)) (\<lambda>r.
         andThen (readsE (\<lambda>c. node_parent_id (xc_heap c) n)) (\<lambda>previous.
         andThen (on_heap (delta_merkle_root H p)) (\<lambda>m.
         returns \<lparr>hi_id = i, hi_height = r, hi_previous = previous, hi_last_irreversible_block = 0,
                  hi_state_merkle_root = m, hi_time = 0\<rparr>)))))"

text \<open>Points in time are nanoseconds since the epoch; the cast to milliseconds truncates towards zero.\<close>

definition to_milliseconds :: "int \<Rightarrow> int" where
  "to_milliseconds n = (if 0 \<le> n then n div 1000000 else - (- n div 1000000))"

definition time_delta :: int where
  "time_delta = 5000000000"

definition time_upper_bound :: "int \<Rightarrow> u64" where
  "time_upper_bound now = word_of_int (to_milliseconds (now + time_delta))"

text \<open>The answer for a block without a known parent.\<close>

definition missing_parent :: "block \<Rightarrow> (('c, 'm) controller, error_code) op" where
  "missing_parent b =
     andThen (readsE (\<lambda>s. case database_root (ct_db s) of None \<Rightarrow> Threw Null_dereference | Some n \<Rightarrow> Returned n)) (\<lambda>root.
     andThen (readsE (\<lambda>s. node_revision (db_heap (ct_db s)) root)) (\<lambda>r.
     if bl_height b < r then returns (controller_error Controller_pre_irreversibility_block)
     else
       andThen (readsE (\<lambda>s. node_id (db_heap (ct_db s)) root)) (\<lambda>i.
       returns (controller_error (if bl_id b \<noteq> i then Controller_unknown_previous_block else Controller_ok)))))"

text \<open>The checks of a block against its parent \<open>p\<close>: the lower bound on its time, or the error.\<close>

definition check_parent :: "('m, 'k) node_env \<Rightarrow> block \<Rightarrow> ptr \<Rightarrow> (('c, 'm) controller, u64 result) op" where
  "check_parent env b p =
     (if bl_previous b = null_id then
        returns (if bl_height b \<noteq> 1 then Inl (controller_error Controller_unexpected_height) else Inr 0)
      else
        andThen (on_db (permanent_merkle_root (ne_hash env) p)) (\<lambda>m.
        if bl_state_merkle_root b \<noteq> m then returns (Inl (controller_error Controller_state_merkle_mismatch))
        else
          andThen (in_context Read_only (set_state_node (Permanent_node p)) (xc_head (ne_hash env))) (\<lambda>parent_info.
          returns (if bl_height b \<noteq> hi_height parent_info + 1 then Inl (controller_error Controller_unexpected_height)
                   else Inr (hi_time parent_info)))))"

definition default_irreversible_threshold :: u64 where
  "default_irreversible_threshold = 60"

text \<open>The continuation after a successful application: finalize, read the merkle root, commit what became irreversible.\<close>

definition finish_block ::
    "('m, 'k) node_env \<Rightarrow> 'c multi_index \<Rightarrow> block \<Rightarrow> state_node \<Rightarrow> block_receipt \<Rightarrow> (('c, 'm) controller, block_receipt result) op" where
  "finish_block env mi b block_node receipt =
     andThen (readsE (\<lambda>_. node_delta block_node)) (\<lambda>p.
     andThen (readsE (\<lambda>s. node_revision (db_heap (ct_db s)) block_node)) (\<lambda>r.
     let irreversible_block = (if default_irreversible_threshold < r then r - default_irreversible_threshold else 0)
     in andThen (on_db (permanent_finalize True p)) (\<lambda>_.
        andThen (on_db (permanent_merkle_root (ne_hash env) p)) (\<lambda>m.
        andThen (readsE (\<lambda>s. case database_root (ct_db s) of
           None \<Rightarrow> Threw Null_dereference | Some n \<Rightarrow> node_revision (db_heap (ct_db s)) n)) (\<lambda>root_r.
        andThen
          (if root_r < irreversible_block then
             andThen (readsE (\<lambda>s. database_at_revision mi (ct_db s) irreversible_block (bl_id b))) (\<lambda>node.
             andThen (readsE (\<lambda>_. case node of None \<Rightarrow> Threw Null_dereference | Some n \<Rightarrow> node_delta n)) (\<lambda>q.
             on_db (permanent_commit (ne_hash env) mi True q)))
           else returns ()) (\<lambda>_.
        returns (Inr (receipt\<lparr>br_state_merkle_root := m\<rparr>))))))))"

text \<open>From the creation of the node of the block on.\<close>

definition process_child ::
    "('m, 'k) node_env \<Rightarrow> 'c multi_index \<Rightarrow> block \<Rightarrow> int \<Rightarrow> ptr \<Rightarrow> state_node \<Rightarrow> (('c, 'm) controller, block_receipt result) op" where
  "process_child env mi b now p block_node =
     andThen (check_parent env b p) (\<lambda>checked.
     case checked of
       Inl e \<Rightarrow> returns (Inl e)
     | Inr time_lower_bound \<Rightarrow>
         if time_upper_bound now < bl_timestamp b \<or> bl_timestamp b \<le> time_lower_bound
         then returns (Inl (controller_error Controller_timestamp_out_of_bounds))
         else
           andThen (in_context Block_application (set_state_node block_node) (apply_block env b)) (\<lambda>r.
           case r of
             Inl e \<Rightarrow> returns (Inl e)
           | Inr receipt \<Rightarrow> finish_block env mi b block_node receipt))"

definition process_block ::
    "('m, 'k) node_env \<Rightarrow> 'c multi_index \<Rightarrow> block \<Rightarrow> int \<Rightarrow> (('c, 'm) controller, block_receipt result) op" where
  "process_block env mi b now =
     (if \<not> block_validate (ne_hash env) (ne_scheme env) b then returns (Inl (controller_error Controller_malformed_block))
      else
        andThen (readsE (\<lambda>s. database_get mi (ct_db s) (bl_id b))) (\<lambda>block_node.
        andThen (readsE (\<lambda>s. database_get mi (ct_db s) (bl_previous b))) (\<lambda>parent_node.
        if block_node \<noteq> None then returns (Inl (controller_error Controller_ok))
        else
          case parent_node of
            None \<Rightarrow> andThen (missing_parent b) (\<lambda>e. returns (Inl e))
          | Some parent \<Rightarrow>
              andThen (readsE (\<lambda>_. node_delta parent)) (\<lambda>p.
              andThen (reads (\<lambda>s. permanent_final (ct_db s) p)) (\<lambda>parent_final.
              if \<not> parent_final then returns (Inl (controller_error Controller_unknown_previous_block))
              else andThen (on_db (permanent_make_child mi True p (bl_id b))) (process_child env mi b now p))))))"

section \<open>Transactions and queries\<close>

definition process_transaction ::
    "('m, 'k) node_env \<Rightarrow> transaction \<Rightarrow> (('c, 'm) controller, transaction_receipt result) op" where
  "process_transaction env t =
     (if \<not> transaction_validate (ne_hash env) t then returns (Inl (controller_error Controller_malformed_transaction))
      else if network_id (ne_hash env) \<noteq> tx_network_id t then returns (Inl (controller_error Controller_network_id_mismatch))
      else
        andThen (readsE (\<lambda>s. case database_head (ct_db s) of None \<Rightarrow> Threw Null_dereference | Some n \<Rightarrow> Returned n)) (\<lambda>head.
        andThen (on_db (in_heap (node_make_child head))) (\<lambda>child.
        in_context Transaction_application
          (\<lambda>c. (set_state_node child c)
             \<lparr>xc_resource_meter := set_resource_limits default_resource_limits (xc_resource_meter c)\<rparr>)
          (apply_transaction env t))))"

definition controller_network_id :: "('m, 'k) node_env \<Rightarrow> digest" where
  "controller_network_id env = network_id (ne_hash env)"

definition controller_head :: "('m, 'k) node_env \<Rightarrow> (('c, 'm) controller, head_info) op" where
  "controller_head env s = in_context Read_only (at_head s) (xc_head (ne_hash env)) s"

definition controller_resource_limits :: "('c, 'm) controller \<Rightarrow> resource_limits" where
  "controller_resource_limits s = default_resource_limits"

definition controller_account_resources :: "account \<Rightarrow> ('c, 'm) controller \<Rightarrow> u64" where
  "controller_account_resources account s = account_resources account"

text \<open>The limits of a read are zero but for the compute bandwidth.\<close>

definition read_limits :: "u64 \<Rightarrow> resource_limits" where
  "read_limits limit =
     \<lparr>disk_storage_limit = 0, disk_storage_cost = 0, network_bandwidth_limit = 0, network_bandwidth_cost = 0,
      compute_bandwidth_limit = limit, compute_bandwidth_cost = 0\<rparr>"

definition read_program ::
    "('m, 'k) node_env \<Rightarrow> account \<Rightarrow> program_input \<Rightarrow> (('c, 'm) controller, program_output result) op" where
  "read_program env account input s =
     andThen
       (in_context Read_only
         (\<lambda>c. (at_head s c)\<lparr>xc_resource_meter :=
                 set_resource_limits (read_limits (ct_read_compute_bandwidth_limit s)) (xc_resource_meter c)\<rparr>)
         (run_program call_fuel env Relaxed account (pi_stdin input) (pi_arguments input)))
       (\<lambda>output. returns (case output of Inl e \<Rightarrow> Inl e | Inr f \<Rightarrow> Inr (frame_output f))) s"

definition controller_account_nonce :: "account \<Rightarrow> (('c, 'm) controller, u64) op" where
  "controller_account_nonce account s = in_context Read_only (at_head s) (account_nonce account) s"

end
