(* ===== verification/Execution_Invariants.thy ===== *)
theory Execution_Invariants
  imports Execution_Context
begin

text \<open>
  What programs can and cannot do to the execution context: the relation \<open>xc_rel\<close> that every system call and
  every run of a program respects, whatever the program is.  It bounds the writes to the object
  spaces of the programs that run, keeps the rest of the state, the frames below and the place of the
  state node, never gives resources back, and with it every run comes to an end.
\<close>

section \<open>Writing through a node\<close>

text \<open>
  What happens to the deltas when a program writes through a node on delta \<open>p\<close>: only that delta changes, and not
  even that when it is final; it keeps its place in the tree and its identity, and outside the spaces \<open>W\<close> it
  shows what it showed.
\<close>

definition cell_rel :: "(object_space \<Rightarrow> bool) \<Rightarrow> ptr \<Rightarrow> heap \<Rightarrow> heap \<Rightarrow> bool" where
  "cell_rel W p h h' \<longleftrightarrow>
     length h' = length h \<and> (\<forall>q. q \<noteq> p \<longrightarrow> h' ! q = h ! q)
     \<and> sd_parent (h' ! p) = sd_parent (h ! p) \<and> sd_final (h' ! p) = sd_final (h ! p)
     \<and> delta_id h' p = delta_id h p \<and> delta_revision h' p = delta_revision h p
     \<and> (delta_final h p \<longrightarrow> h' ! p = h ! p)
     \<and> (\<forall>sp k. object_space_ok sp \<longrightarrow> \<not> W sp \<longrightarrow> node_view h' p sp k = node_view h p sp k)"

lemma cell_rel_preorder: "preorder_rel (cell_rel W p)"
  unfolding preorder_rel_def cell_rel_def delta_final_def by auto

lemma cell_rel_mono: "cell_rel W p h h' \<Longrightarrow> (\<And>sp. W sp \<Longrightarrow> V sp) \<Longrightarrow> cell_rel V p h h'"
  unfolding cell_rel_def by blast

lemma cell_rel_older: "cell_rel W p h h' \<Longrightarrow> q < p \<Longrightarrow> view h' q = view h q"
  by (rule view_cong) (auto simp: cell_rel_def dest: ancestry_le)

lemma node_put_cell:
  assumes "heap_ok h" and "live h p" and "node_delta n = Returned p" and "object_space_ok sp"
    and "node_put n sp k v h = (Returned m, h')"
  shows "heap_ok h' \<and> live h' p \<and> cell_rel (\<lambda>t. t = sp) p h h' \<and> view h' p = (view h p)(make_compound_key sp k \<mapsto> v)"
proof -
  let ?k = "make_compound_key sp k"
  have fin: "\<not> delta_final h p"
    using assms(3,5) delta_put_run [OF assms(1,2), of ?k v] by (auto simp: node_put_def op_defs split: if_splits)
  obtain b where b: "sd_backend (h ! p) = Some b" using live_backend [OF assms(2)] by auto
  have p: "p < length h" using assms(2) by (simp add: live_def)
  have put: "delta_put p ?k v h = (Returned m, h')" using assms(3,5) by (simp add: node_put_def op_defs)
  then have h': "h' = h[p := (h ! p)\<lparr>sd_backend := Some (snd (backend_put b ?k v))\<rparr>]"
    using delta_put_eq [OF assms(1,2) fin b, of ?k v] by simp
  have run: "heap_ok h'" "live h' p" "view h' p = (view h p)(?k \<mapsto> v)"
    using delta_put_run [OF assms(1,2), of ?k v] fin put assms(2) by auto
  have "node_view h' p t l = node_view h p t l" if "object_space_ok t" "t \<noteq> sp" for t l
    using make_compound_key_inject [OF that(1) assms(4), of l k] that(2) run(3) by (simp add: node_view_def)
  then show ?thesis
    using run h' p b fin by (auto simp: cell_rel_def delta_id_def delta_revision_def get_backend_def)
qed

lemma node_remove_cell:
  assumes "heap_ok h" and "live h p" and "node_delta n = Returned p" and "object_space_ok sp"
    and "node_remove n sp k h = (Returned m, h')"
  shows "heap_ok h' \<and> live h' p \<and> cell_rel (\<lambda>t. t = sp) p h h' \<and> view h' p = (view h p)(make_compound_key sp k := None)"
proof -
  let ?k = "make_compound_key sp k"
  note run0 = delta_remove_run [OF assms(1,2) make_compound_key_nonempty, of sp k]
  have fin: "\<not> delta_final h p"
    using assms(3,5) run0 by (auto simp: node_remove_def op_defs split: if_splits)
  obtain b where b: "sd_backend (h ! p) = Some b" using live_backend [OF assms(2)] by auto
  have p: "p < length h" using assms(2) by (simp add: live_def)
  have rem: "delta_remove p ?k h = (Returned m, h')" using assms(3,5) by (simp add: node_remove_def op_defs)
  then have h': "h' = h[p := remove_result h p ?k]"
    using delta_remove_eq [OF assms(1,2) fin, of ?k] by simp
  have run: "heap_ok h'" "live h' p" "view h' p = (view h p)(?k := None)"
    using run0 fin rem assms(2) by auto
  have "node_view h' p t l = node_view h p t l" if "object_space_ok t" "t \<noteq> sp" for t l
    using make_compound_key_inject [OF that(1) assms(4), of l k] that(2) run(3) by (simp add: node_view_def)
  moreover have "be_id (snd (backend_remove b ?k)) = be_id b" "be_revision (snd (backend_remove b ?k)) = be_revision b"
    by (simp_all add: backend_remove_def Let_def split: option.split)
  ultimately show ?thesis
    using run h' p b fin by (auto simp: cell_rel_def delta_id_def delta_revision_def get_backend_def remove_result_def)
qed

lemma node_write_terminates:
  assumes "heap_ok h" and "live h p" and "node_delta n = Returned p"
  shows "node_put n sp k v h \<noteq> (Threw Diverges, h')" "node_remove n sp k h \<noteq> (Threw Diverges, h')"
  using delta_put_run [OF assms(1,2), of "make_compound_key sp k" v]
    delta_remove_run [OF assms(1,2) make_compound_key_nonempty, of sp k] assms(3)
  by (auto simp: node_put_def node_remove_def op_defs final_error_def split: if_splits)

section \<open>Invariant and relation of the context\<close>

text \<open>The signatures recorded as verified are a prefix of those of the transaction, and each of them verifies.\<close>

definition signed_by :: "signature_scheme \<Rightarrow> transaction \<Rightarrow> authorization \<Rightarrow> bool" where
  "signed_by sc t a \<longleftrightarrow> public_key_verify sc (account_public_key (au_signer a)) (au_signature a) (tx_id t)"

definition sigs_ok :: "signature_scheme \<Rightarrow> transaction option \<Rightarrow> account list \<Rightarrow> bool" where
  "sigs_ok sc to vs \<longleftrightarrow>
     (\<forall>t. to = Some t \<longrightarrow>
        (\<exists>as. vs = map au_signer as \<and> (\<exists>bs. tx_authorizations t = as @ bs) \<and> (\<forall>a \<in> set as. signed_by sc t a)))"

text \<open>
  The invariant of a context in which programs may run, with \<open>n\<close> nested calls still covered by the fuel: the
  state node is usable, the meter's costs are positive, the module cache is well-formed, the stack is
  within its limit and the verified signatures are genuine.
\<close>

definition xc_ok :: "signature_scheme \<Rightarrow> nat \<Rightarrow> 'm execution_context \<Rightarrow> bool" where
  "xc_ok sc n c \<longleftrightarrow>
     (\<exists>nd p. xc_state_node c = Some nd \<and> node_delta nd = Returned p \<and> live (xc_heap c) p)
     \<and> heap_ok (xc_heap c) \<and> costs_ok (xc_resource_meter c) \<and> cache_ok (xc_vm c)
     \<and> ps_limit (xc_stack c) = default_stack_limit \<and> stack_size (xc_stack c) \<le> default_stack_limit
     \<and> default_stack_limit \<le> stack_size (xc_stack c) + n
     \<and> sigs_ok sc (xc_transaction c) (xc_verified_signatures c)"

text \<open>The relation that every system call and every program run respects.\<close>

definition xc_rel :: "(object_space \<Rightarrow> bool) \<Rightarrow> 'm execution_context \<Rightarrow> 'm execution_context \<Rightarrow> bool" where
  "xc_rel W c c' \<longleftrightarrow>
     xc_state_node c' = xc_state_node c \<and> xc_transaction c' = xc_transaction c \<and> xc_intent c' = xc_intent c
     \<and> meter_rel (xc_resource_meter c) (xc_resource_meter c')
     \<and> (\<forall>nd p. xc_state_node c = Some nd \<longrightarrow> node_delta nd = Returned p \<longrightarrow> cell_rel W p (xc_heap c) (xc_heap c'))"

text \<open>What a running program may do to the stack: work on its own frame, keeping what it was called with.\<close>

definition frame_rel :: "program_stack \<Rightarrow> program_stack \<Rightarrow> bool" where
  "frame_rel s s' \<longleftrightarrow>
     ps_limit s' = ps_limit s \<and> length (ps_stack s') = length (ps_stack s) \<and> butlast (ps_stack s') = butlast (ps_stack s)
     \<and> (ps_stack s \<noteq> [] \<longrightarrow> sf_program_id (last (ps_stack s')) = sf_program_id (last (ps_stack s)))"

definition body_rel :: "(object_space \<Rightarrow> bool) \<Rightarrow> 'm execution_context \<Rightarrow> 'm execution_context \<Rightarrow> bool" where
  "body_rel W c c' \<longleftrightarrow> xc_rel W c c' \<and> frame_rel (xc_stack c) (xc_stack c')"

definition run_rel :: "(object_space \<Rightarrow> bool) \<Rightarrow> 'm execution_context \<Rightarrow> 'm execution_context \<Rightarrow> bool" where
  "run_rel W c c' \<longleftrightarrow> xc_rel W c c' \<and> xc_stack c' = xc_stack c"

text \<open>The running program writes only into the spaces \<open>W\<close>.\<close>

definition frame_ok :: "(object_space \<Rightarrow> bool) \<Rightarrow> program_stack \<Rightarrow> bool" where
  "frame_ok W s \<longleftrightarrow>
     ps_stack s \<noteq> [] \<and> length (sf_program_id (last (ps_stack s))) = 33
     \<and> (\<forall>i sp. object_space_of (sf_program_id (last (ps_stack s))) i = Returned sp \<longrightarrow> W sp)"

definition body_ok :: "signature_scheme \<Rightarrow> nat \<Rightarrow> (object_space \<Rightarrow> bool) \<Rightarrow> 'm execution_context \<Rightarrow> bool" where
  "body_ok sc n W c \<longleftrightarrow> xc_ok sc n c \<and> frame_ok W (xc_stack c)"

lemma xc_rel_preorder: "preorder_rel (xc_rel W)"
proof -
  have "xc_rel W s u" if "xc_rel W s t" "xc_rel W t u" for s t u :: "'m execution_context"
  proof -
    have "cell_rel W p (xc_heap s) (xc_heap u)" if "xc_state_node s = Some nd" "node_delta nd = Returned p" for nd p
      using that \<open>xc_rel W s t\<close> \<open>xc_rel W t u\<close> preorder_relD(2) [OF cell_rel_preorder] unfolding xc_rel_def by metis
    then show ?thesis
      using that preorder_relD(2) [OF meter_rel_preorder] unfolding xc_rel_def by metis
  qed
  moreover have "xc_rel W s s" for s :: "'m execution_context"
    using preorder_relD(1) [OF cell_rel_preorder] preorder_relD(1) [OF meter_rel_preorder] by (simp add: xc_rel_def)
  ultimately show ?thesis unfolding preorder_rel_def by blast
qed

lemma frame_rel_preorder: "preorder_rel frame_rel"
proof -
  have "frame_rel s u" if "frame_rel s t" "frame_rel t u" for s t u
    using that unfolding frame_rel_def by (metis length_0_conv)
  moreover have "frame_rel s s" for s by (simp add: frame_rel_def)
  ultimately show ?thesis unfolding preorder_rel_def by blast
qed

lemma body_rel_preorder: "preorder_rel (body_rel W)"
  using xc_rel_preorder frame_rel_preorder unfolding preorder_rel_def body_rel_def by blast

lemma run_rel_preorder: "preorder_rel (run_rel W)"
  using xc_rel_preorder unfolding preorder_rel_def run_rel_def by (metis (no_types))

lemma xc_rel_mono: "xc_rel W c c' \<Longrightarrow> (\<And>sp. W sp \<Longrightarrow> V sp) \<Longrightarrow> xc_rel V c c'"
  unfolding xc_rel_def by (metis cell_rel_mono)

lemma run_body_rel: "run_rel W c c' \<Longrightarrow> (\<And>sp. W sp \<Longrightarrow> V sp) \<Longrightarrow> body_rel V c c'"
  using preorder_relD(1) [OF frame_rel_preorder] by (auto simp: run_rel_def body_rel_def intro: xc_rel_mono)

text \<open>The rules for a computation in the context, and for the body of a program.\<close>

lemmas run_rules = upholds_simple [OF run_rel_preorder] upholds_andThen [OF run_rel_preorder] upholds_cases

lemmas body_rules = upholds_simple [OF body_rel_preorder] upholds_andThen [OF body_rel_preorder] upholds_cases

text \<open>What respects the context in general respects it in the body of a program.\<close>

lemma run_in_body:
  fixes m :: "('m execution_context, 'x) op"
  assumes "upholds (xc_ok sc n) (run_rel V) m" and "\<And>sp. V sp \<Longrightarrow> W sp"
  shows "upholds (body_ok sc n W) (body_rel W) m"
proof (rule upholdsI)
  fix c c' :: "'m execution_context" and x
  assume c: "body_ok sc n W c" and run: "m c = (Returned x, c')"
  then have "xc_ok sc n c' \<and> run_rel V c c'" using upholdsD(1) [OF assms(1) _ run] by (simp add: body_ok_def)
  then show "body_ok sc n W c' \<and> body_rel W c c'"
    using c run_body_rel [of V c c' W] assms(2) by (simp add: body_ok_def run_rel_def)
next
  fix c c' :: "'m execution_context"
  assume "body_ok sc n W c"
  then show "m c \<noteq> (Threw Diverges, c')" using upholdsD(2) [OF assms(1)] by (simp add: body_ok_def)
qed

lemma object_space_of_ok:
  assumes "length pid = 33" and "object_space_of pid i = Returned sp"
  shows "object_space_ok sp" and "os_address sp = take 32 pid" and "\<not> os_system sp"
  using assms by (auto simp: object_space_of_def object_space_ok_def Let_def)

lemma run_meter:
  fixes u :: "(resource_meter, 'x) op"
  assumes "\<And>m r m'. costs_ok m \<Longrightarrow> u m = (r, m') \<Longrightarrow> meter_rel m m' \<and> r \<noteq> Threw Diverges"
  shows "upholds (xc_ok sc n) (run_rel W) (on_meter u :: ('m execution_context, 'x) op)"
proof (rule upholdsI)
  fix c c' :: "'m execution_context" and x
  assume c: "xc_ok sc n c" and "on_meter u c = (Returned x, c')"
  then obtain m where m: "u (xc_resource_meter c) = (Returned x, m)" "c' = c\<lparr>xc_resource_meter := m\<rparr>"
    by (auto simp: on_meter_def split: prod.splits)
  have ok: "costs_ok (xc_resource_meter c)" using c by (simp add: xc_ok_def)
  have rel: "meter_rel (xc_resource_meter c) m" using assms [OF ok m(1)] by simp
  then show "xc_ok sc n c' \<and> run_rel W c c'"
    using c m(2) costs_ok_rel [OF ok rel] preorder_relD(1) [OF cell_rel_preorder]
    by (simp add: xc_ok_def run_rel_def xc_rel_def)
next
  fix c c' :: "'m execution_context"
  assume "xc_ok sc n c"
  then show "on_meter u c \<noteq> (Threw Diverges, c')"
    using assms [of "xc_resource_meter c"] by (auto simp: on_meter_def xc_ok_def split: prod.splits)
qed

lemma run_meters:
  "upholds (xc_ok sc n) (run_rel W) (on_meter (use_compute_bandwidth t))"
  "upholds (xc_ok sc n) (run_rel W) (on_meter (use_disk_storage k))"
  "upholds (xc_ok sc n) (run_rel W) (on_meter (use_network_bandwidth b))"
  by (rule run_meter, use use_compute_rel use_terminates in blast)
    (rule run_meter, use use_disk_rel use_terminates in blast,
     rule run_meter, use use_network_rel use_terminates in blast)

lemma run_charges:
  "upholds (xc_ok sc n) (run_rel W) charge_call"
  "upholds (xc_ok sc n) (run_rel W) (charge_disk k)"
  "upholds (xc_ok sc n) (run_rel W) (use_meter_ticks t)"
  unfolding charge_call_def charge_disk_def use_meter_ticks_def by (intro run_rules run_meters)+

lemma run_the_node: "upholds (xc_ok sc n) (run_rel W) the_node"
  unfolding the_node_def by (auto intro!: run_rules split: option.splits)

lemma body_the_frame: "upholds (body_ok sc n W) (body_rel W) the_frame"
  unfolding the_frame_def by (intro body_rules) (simp add: peek_frame_def stack_empty_error_def)

lemma body_set_frame:
  assumes "\<And>f. sf_program_id (g f) = sf_program_id f"
  shows "upholds (body_ok sc n W) (body_rel W) (set_frame g)"
proof (rule upholdsI)
  fix c x c'
  assume c: "body_ok sc n W c" and "set_frame g c = (Returned x, c')"
  then have c': "c' = c\<lparr>xc_stack := upd_frame g (xc_stack c)\<rparr>" by (simp add: set_frame_def op_defs)
  have ne: "ps_stack (xc_stack c) \<noteq> []" using c by (simp add: body_ok_def frame_ok_def)
  then show "body_ok sc n W c' \<and> body_rel W c c'"
    using c c' assms preorder_relD(1) [OF xc_rel_preorder, of W c] preorder_relD(1) [OF cell_rel_preorder]
      preorder_relD(1) [OF meter_rel_preorder]
    by (simp add: body_ok_def xc_ok_def frame_ok_def upd_frame_def stack_size_def body_rel_def frame_rel_def xc_rel_def)
qed (simp add: set_frame_def op_defs)

text \<open>Fields that are neither in the invariant nor in the relation.\<close>

lemma run_plain_fields:
  "upholds (xc_ok sc n) (run_rel W) (modifies (\<lambda>c. c\<lparr>xc_operation := p c\<rparr>))"
  "upholds (xc_ok sc n) (run_rel W) (modifies (\<lambda>c. c\<lparr>xc_frame_recorder := r c\<rparr>))"
  by (rule upholdsI; auto simp: op_defs xc_ok_def run_rel_def xc_rel_def
      preorder_relD(1) [OF cell_rel_preorder] preorder_relD(1) [OF meter_rel_preorder])+

section \<open>System calls\<close>

text \<open>The invariant with the state node named.\<close>

definition at_node :: "('m execution_context \<Rightarrow> bool) \<Rightarrow> state_node \<Rightarrow> 'm execution_context \<Rightarrow> bool" where
  "at_node P nd c \<longleftrightarrow> P c \<and> xc_state_node c = Some nd"

lemma keeps_node: "run_rel W c c' \<Longrightarrow> xc_state_node c' = xc_state_node c" "body_rel W c c' \<Longrightarrow> xc_state_node c' = xc_state_node c"
  by (simp_all add: run_rel_def body_rel_def xc_rel_def)

lemma at_node_upholds:
  fixes m :: "('m execution_context, 'x) op"
  assumes "\<And>c c'. Q c c' \<Longrightarrow> xc_state_node c' = xc_state_node c" and "upholds P Q m"
  shows "upholds (at_node P nd) Q m"
proof (rule upholdsI)
  fix c c' :: "'m execution_context" and x
  assume c: "at_node P nd c" and run: "m c = (Returned x, c')"
  then have "P c' \<and> Q c c'" using upholdsD(1) [OF assms(2) _ run] by (simp add: at_node_def)
  then show "at_node P nd c' \<and> Q c c'" using c assms(1) [of c c'] by (simp add: at_node_def)
next
  fix c c' :: "'m execution_context"
  assume "at_node P nd c"
  then show "m c \<noteq> (Threw Diverges, c')" using upholdsD(2) [OF assms(2)] by (simp add: at_node_def)
qed

lemma at_run: "upholds P (run_rel W) m \<Longrightarrow> upholds (at_node P nd) (run_rel W) m"
  by (rule at_node_upholds, erule keeps_node(1))

lemma at_body: "upholds P (body_rel W) m \<Longrightarrow> upholds (at_node P nd) (body_rel W) m"
  by (rule at_node_upholds, erule keeps_node(2))

lemma with_node:
  fixes f :: "state_node \<Rightarrow> ('m execution_context, 'x) op"
  assumes "\<And>nd. upholds (at_node P nd) Q (f nd)"
  shows "upholds P Q (andThen the_node f)"
proof (rule upholdsI)
  fix c c' :: "'m execution_context" and x
  assume c: "P c" and run: "andThen the_node f c = (Returned x, c')"
  then obtain nd where nd: "xc_state_node c = Some nd" "f nd c = (Returned x, c')"
    by (auto simp: the_node_def op_defs split: option.splits)
  then show "P c' \<and> Q c c'"
    using upholdsD(1) [OF assms, of nd c] c by (simp add: at_node_def)
next
  fix c c' :: "'m execution_context"
  assume c: "P c"
  show "andThen the_node f c \<noteq> (Threw Diverges, c')"
    using upholdsD(2) [OF assms, of "the (xc_state_node c)" c c'] c
    by (auto simp: the_node_def op_defs at_node_def split: option.splits)
qed

lemma at_node_body:
  fixes m :: "('m execution_context, 'x) op"
  assumes "upholds (at_node (xc_ok sc n) nd) (run_rel V) m" and "\<And>sp. V sp \<Longrightarrow> W sp"
  shows "upholds (at_node (body_ok sc n W) nd) (body_rel W) m"
proof (rule upholdsI)
  fix c c' :: "'m execution_context" and x
  assume c: "at_node (body_ok sc n W) nd c" and run: "m c = (Returned x, c')"
  then have "at_node (xc_ok sc n) nd c' \<and> run_rel V c c'"
    using upholdsD(1) [OF assms(1) _ run] by (simp add: at_node_def body_ok_def)
  then show "at_node (body_ok sc n W) nd c' \<and> body_rel W c c'"
    using c run_body_rel [of V c c' W] assms(2) by (simp add: at_node_def body_ok_def run_rel_def)
next
  fix c c' :: "'m execution_context"
  assume "at_node (body_ok sc n W) nd c"
  then show "m c \<noteq> (Threw Diverges, c')" using upholdsD(2) [OF assms(1)] by (simp add: at_node_def body_ok_def)
qed

lemma at_node_delta:
  assumes "at_node (xc_ok sc n) nd c"
  obtains p where "node_delta nd = Returned p" "live (xc_heap c) p" "heap_ok (xc_heap c)"
  using assms by (auto simp: at_node_def xc_ok_def)

lemma run_read_object: "upholds (at_node (xc_ok sc n) nd) (run_rel W) (read_object nd sp k)"
  unfolding read_object_def
proof (rule upholds_simple(4) [OF run_rel_preorder])
  fix c :: "'a execution_context"
  assume "at_node (xc_ok sc n) nd c"
  then obtain p where "node_delta nd = Returned p" "live (xc_heap c) p" "heap_ok (xc_heap c)" by (rule at_node_delta)
  then show "node_get (xc_heap c) nd sp k \<noteq> Threw Diverges" by (simp add: node_get_def delta_get_view)
qed

lemma run_write:
  fixes u :: "(heap, 'x) op"
  assumes "\<And>h p m h'. heap_ok h \<Longrightarrow> live h p \<Longrightarrow> node_delta nd = Returned p \<Longrightarrow> u h = (Returned m, h') \<Longrightarrow>
      heap_ok h' \<and> live h' p \<and> cell_rel W p h h'"
    and "\<And>h p h'. heap_ok h \<Longrightarrow> live h p \<Longrightarrow> node_delta nd = Returned p \<Longrightarrow> u h \<noteq> (Threw Diverges, h')"
  shows "upholds (at_node (xc_ok sc n) nd) (run_rel W) (on_heap u :: ('m execution_context, 'x) op)"
proof (rule upholdsI)
  fix c c' :: "'m execution_context" and x
  assume c: "at_node (xc_ok sc n) nd c" and "on_heap u c = (Returned x, c')"
  then obtain h where h: "u (xc_heap c) = (Returned x, h)" "c' = c\<lparr>xc_heap := h\<rparr>"
    by (auto simp: on_heap_def split: prod.splits)
  obtain p where p: "node_delta nd = Returned p" "live (xc_heap c) p" "heap_ok (xc_heap c)" using c by (rule at_node_delta)
  have "heap_ok h \<and> live h p \<and> cell_rel W p (xc_heap c) h" using assms(1) [OF p(3,2,1) h(1)] .
  then show "at_node (xc_ok sc n) nd c' \<and> run_rel W c c'"
    using c h(2) p preorder_relD(1) [OF meter_rel_preorder]
    by (auto simp: at_node_def xc_ok_def run_rel_def xc_rel_def)
next
  fix c c' :: "'m execution_context"
  assume "at_node (xc_ok sc n) nd c"
  then obtain p where "node_delta nd = Returned p" "live (xc_heap c) p" "heap_ok (xc_heap c)" by (rule at_node_delta)
  then show "on_heap u c \<noteq> (Threw Diverges, c')"
    using assms(2) by (auto simp: on_heap_def split: prod.splits)
qed

lemma run_put:
  assumes "object_space_ok sp" and "W sp"
  shows "upholds (at_node (xc_ok sc n) nd) (run_rel W) (on_heap (node_put nd sp k v))"
proof (rule run_write)
  fix h p m h'
  assume "heap_ok h" and "live h p" and "node_delta nd = Returned p" and "node_put nd sp k v h = (Returned m, h')"
  note w = node_put_cell [OF this(1-3) assms(1) this(4)]
  then have "cell_rel W p h h'" using assms(2) by (auto elim: cell_rel_mono)
  then show "heap_ok h' \<and> live h' p \<and> cell_rel W p h h'" using w by simp
qed (rule node_write_terminates)

lemma run_remove:
  assumes "object_space_ok sp" and "W sp"
  shows "upholds (at_node (xc_ok sc n) nd) (run_rel W) (on_heap (node_remove nd sp k))"
proof (rule run_write)
  fix h p m h'
  assume "heap_ok h" and "live h p" and "node_delta nd = Returned p" and "node_remove nd sp k h = (Returned m, h')"
  note w = node_remove_cell [OF this(1-3) assms(1) this(4)]
  then have "cell_rel W p h h'" using assms(2) by (auto elim: cell_rel_mono)
  then show "heap_ok h' \<and> live h' p \<and> cell_rel W p h h'" using w by simp
qed (rule node_write_terminates)

text \<open>The same in the body of a program.\<close>

lemma lift_body:
  "upholds (xc_ok sc n) (run_rel W) m \<Longrightarrow> upholds (body_ok sc n W) (body_rel W) m"
  "upholds (at_node (xc_ok sc n) nd) (run_rel W) m \<Longrightarrow> upholds (at_node (body_ok sc n W) nd) (body_rel W) m"
  by (erule run_in_body at_node_body; assumption)+

lemmas body_charges = run_charges [THEN lift_body(1)]
lemmas body_plain_fields = run_plain_fields [THEN lift_body(1)]
lemmas body_accesses = run_read_object [THEN lift_body(2)] run_put [THEN lift_body(2)] run_remove [THEN lift_body(2)]

text \<open>The space of the running program.\<close>

lemma create_object_space_upholds: "upholds (body_ok sc n W) (body_rel W) (create_object_space i)"
  unfolding create_object_space_def
  by (intro body_rules body_the_frame) (simp add: object_space_of_def Let_def)

lemma create_object_space_result:
  assumes "body_ok sc n W c" and "create_object_space i c = (Returned sp, c')"
  shows "object_space_ok sp \<and> W sp"
proof -
  let ?pid = "sf_program_id (last (ps_stack (xc_stack c)))"
  have f: "ps_stack (xc_stack c) \<noteq> []" "length ?pid = 33" "\<And>i sp. object_space_of ?pid i = Returned sp \<Longrightarrow> W sp"
    using assms(1) by (auto simp: body_ok_def frame_ok_def)
  have "object_space_of ?pid i = Returned sp"
    using assms(2) f(1) by (auto simp: create_object_space_def the_frame_def peek_frame_def op_defs)
  then show ?thesis using f object_space_of_ok by blast
qed

lemma with_space:
  assumes "\<And>sp. object_space_ok sp \<Longrightarrow> W sp \<Longrightarrow> upholds (at_node (body_ok sc n W) nd) (body_rel W) (f sp)"
  shows "upholds (at_node (body_ok sc n W) nd) (body_rel W) (andThen (create_object_space i) f)"
proof (rule upholds_andThen_result [OF body_rel_preorder, where C = "\<lambda>sp. object_space_ok sp \<and> W sp"])
  show "upholds (at_node (body_ok sc n W) nd) (body_rel W) (create_object_space i)"
    by (rule at_body [OF create_object_space_upholds])
  show "object_space_ok sp \<and> W sp" if "at_node (body_ok sc n W) nd c" "create_object_space i c = (Returned sp, c')" for c c' sp
    using that create_object_space_result [of sc n W c i sp c'] by (simp add: at_node_def)
qed (use assms in blast)

lemma body_objects:
  "upholds (body_ok sc n W) (body_rel W) (xc_get_object i k)"
  "upholds (body_ok sc n W) (body_rel W) (xc_get_next_object i k)"
  "upholds (body_ok sc n W) (body_rel W) (xc_get_prev_object i k)"
  "upholds (body_ok sc n W) (body_rel W) (xc_put_object i k v)"
  "upholds (body_ok sc n W) (body_rel W) (xc_remove_object i k)"
  unfolding xc_get_object_def xc_get_next_object_def xc_get_prev_object_def xc_put_object_def xc_remove_object_def
  by (intro with_node body_rules with_space at_body [OF body_charges(1)] at_body [OF body_charges(2)] body_accesses;
      assumption)+

lemma body_io:
  "upholds (body_ok sc n W) (body_rel W) (xc_write fd bs)"
  "upholds (body_ok sc n W) (body_rel W) (xc_read fd bs)"
  "upholds (body_ok sc n W) (body_rel W) xc_arguments"
  "upholds (body_ok sc n W) (body_rel W) xc_get_caller"
  unfolding xc_write_def xc_read_def xc_arguments_def xc_get_caller_def Let_def
  by (intro body_rules body_charges(1) body_the_frame body_set_frame; simp add: stack_empty_error_def)+

text \<open>Verifying signatures only records them.\<close>

lemma verify_loop_run:
  fixes c c' :: "'m execution_context"
  assumes "verify_loop sc (tx_id t) a bs c = (r, c')" and "xc_verified_signatures c = map au_signer as"
    and "\<forall>x \<in> set as. signed_by sc t x"
  shows "\<exists>xs ys. bs = xs @ ys \<and> (\<forall>x \<in> set xs. signed_by sc t x)
     \<and> c' = c\<lparr>xc_verified_signatures := map au_signer (as @ xs)\<rparr>
     \<and> (\<exists>v. r = Returned v \<and> (v = Inr True \<longrightarrow> a \<in> au_signer ` set xs))"
  using assms
proof (induction bs arbitrary: as c)
  case Nil
  then show ?case by (auto simp: op_defs)
next
  case (Cons b bs)
  show ?case
  proof (cases "signed_by sc t b \<and> a \<noteq> au_signer b")
    case True
    let ?c = "c\<lparr>xc_verified_signatures := map au_signer (as @ [b])\<rparr>"
    have "verify_loop sc (tx_id t) a bs ?c = (r, c')"
      using Cons.prems(1,2) True by (simp add: op_defs signed_by_def)
    then obtain xs ys where xs: "bs = xs @ ys" "\<forall>x \<in> set xs. signed_by sc t x"
        "c' = ?c\<lparr>xc_verified_signatures := map au_signer ((as @ [b]) @ xs)\<rparr>"
        "\<exists>v. r = Returned v \<and> (v = Inr True \<longrightarrow> a \<in> au_signer ` set xs)"
      using Cons.IH [of ?c "as @ [b]"] Cons.prems(3) True by auto
    then show ?thesis using True by (intro exI [of _ "b # xs"] exI [of _ ys]) auto
  next
    case False
    then show ?thesis
      using Cons.prems
      by (intro exI [of _ "if signed_by sc t b then [b] else []"] exI [of _ "if signed_by sc t b then bs else b # bs"])
        (auto simp: op_defs signed_by_def split: if_splits)
  qed
qed

lemma check_signatures_run:
  fixes c c' :: "'m execution_context"
  assumes "check_signatures sc a c = (r, c')" and "sigs_ok sc (xc_transaction c) (xc_verified_signatures c)"
  shows "\<exists>vs. c' = c\<lparr>xc_verified_signatures := vs\<rparr> \<and> sigs_ok sc (xc_transaction c) vs \<and> r \<noteq> Threw Diverges
     \<and> (r = Returned (Inr True) \<longrightarrow>
          (\<exists>t. xc_transaction c = Some t \<and> (\<exists>x \<in> set (tx_authorizations t). au_signer x = a \<and> signed_by sc t x)))"
proof (cases "xc_transaction c")
  case None
  then show ?thesis
    using assms(1) by (intro exI [of _ "xc_verified_signatures c"]) (auto simp: check_signatures_def op_defs sigs_ok_def)
next
  case (Some t)
  then obtain as bs where as: "xc_verified_signatures c = map au_signer as" "tx_authorizations t = as @ bs"
      "\<forall>a \<in> set as. signed_by sc t a"
    using assms(2) by (auto simp: sigs_ok_def)
  show ?thesis
  proof (cases "a \<in> au_signer ` set as")
    case True
    then show ?thesis
      using assms Some as by (intro exI [of _ "xc_verified_signatures c"]) (auto simp: check_signatures_def op_defs)
  next
    case False
    then have "verify_loop sc (tx_id t) a bs c = (r, c')"
      using assms(1) Some as by (simp add: check_signatures_def op_defs)
    then obtain xs ys where xs: "bs = xs @ ys" "\<forall>x \<in> set xs. signed_by sc t x"
        "c' = c\<lparr>xc_verified_signatures := map au_signer (as @ xs)\<rparr>"
        "\<exists>v. r = Returned v \<and> (v = Inr True \<longrightarrow> a \<in> au_signer ` set xs)"
      using verify_loop_run [of sc t a bs c r c' as] as(1,3) by blast
    have "sigs_ok sc (xc_transaction c) (map au_signer (as @ xs))"
      using Some as xs(1,2) by (simp add: sigs_ok_def) (rule exI [of _ "as @ xs"], auto)
    then show ?thesis using xs Some as(2) by (auto intro!: exI [of _ "map au_signer (as @ xs)"])
  qed
qed

lemma check_signatures_upholds:
  "upholds (xc_ok sc n) (run_rel W) (check_signatures sc a :: ('m execution_context, bool result) op)"
proof (rule upholdsI)
  fix c c' :: "'m execution_context" and r
  assume c: "xc_ok sc n c" and run: "check_signatures sc a c = (Returned r, c')"
  then obtain vs where "c' = c\<lparr>xc_verified_signatures := vs\<rparr>" "sigs_ok sc (xc_transaction c) vs"
    using check_signatures_run [OF run] by (auto simp: xc_ok_def)
  then show "xc_ok sc n c' \<and> run_rel W c c'"
    using c by (simp add: xc_ok_def run_rel_def xc_rel_def preorder_relD(1) [OF cell_rel_preorder]
        preorder_relD(1) [OF meter_rel_preorder])
next
  fix c c' :: "'m execution_context"
  assume "xc_ok sc n c"
  then show "check_signatures sc a c \<noteq> (Threw Diverges, c')"
    using check_signatures_run [of sc a c "Threw Diverges" c'] by (auto simp: xc_ok_def)
qed

lemma check_authority_upholds:
  assumes "account_view_is_program a \<Longrightarrow> upholds (xc_ok sc n) (run_rel W) (run a (u32_bytes 0) [])"
  shows "upholds (xc_ok sc n) (run_rel W) (xc_check_authority sc run a)"
  unfolding xc_check_authority_def
  by (intro run_rules run_the_node run_charges check_signatures_upholds assms) (simp_all add: bit_cast_bool_def)

section \<open>Running programs\<close>

text \<open>
  The spaces a run of a program may write: those of user programs, whose address starts with the prefix of
  program accounts, and the space of the program itself when it is native.
\<close>

definition user_space :: "object_space \<Rightarrow> bool" where
  "user_space sp \<longleftrightarrow> \<not> os_system sp \<and> hd (os_address sp) = program_account_prefix"

definition writes_of :: "account \<Rightarrow> object_space \<Rightarrow> bool" where
  "writes_of a sp \<longleftrightarrow>
     user_space sp \<or> account_get_type a = Account_native_program \<and> \<not> os_system sp \<and> os_address sp = take 32 a"

lemma program_type_prefix:
  "account_get_type a = Account_program \<longleftrightarrow> hd a = program_account_prefix"
  "account_get_type a = Account_native_program \<longleftrightarrow> hd a = native_program_account_prefix"
  by (auto simp: account_get_type_def account_prefix_to_type_def user_account_prefix_def program_account_prefix_def
      native_program_account_prefix_def)

lemma view_program_not_native: "account_view_is_program a \<Longrightarrow> account_get_type a \<noteq> Account_native_program"
  by (auto simp: program_type_prefix account_view_is_program_def native_program_account_prefix_def program_account_prefix_def)

lemma writes_of_program:
  "account_get_type a \<noteq> Account_native_program \<Longrightarrow> writes_of a sp \<longleftrightarrow> user_space sp"
  by (simp add: writes_of_def)

lemma writes_of_space:
  assumes "length a = 33" and "account_get_type a \<in> {Account_program, Account_native_program}"
    and "object_space_of a i = Returned sp"
  shows "writes_of a sp"
  using object_space_of_ok [OF assms(1,3)] assms(1,2)
  by (cases a) (auto simp: writes_of_def user_space_def program_type_prefix)

text \<open>The context as a system interface, over a way to run programs for their authority.\<close>

lemma system_upholds:
  assumes "\<And>a. length a = 33 \<Longrightarrow> account_view_is_program a \<Longrightarrow> upholds (xc_ok sc n) (run_rel W) (run a (u32_bytes 0) [])"
  shows "upholding_system (xc_system sc run relaxed) (body_ok sc n W) (body_rel W)"
proof unfold_locales
  show "preorder_rel (body_rel W)" by (rule body_rel_preorder)
  show "upholds (body_ok sc n W) (body_rel W) (si_check_authority (xc_system sc run relaxed) a)" if "length a = 33" for a
    unfolding xc_system_def by (simp add: lift_body(1) check_authority_upholds assms that)
  show "length bs' = length bs" if "body_ok sc n W s" "si_read (xc_system sc run relaxed) fd bs s = (Returned (bs', e), s')" for fd bs bs' e s s'
    using that by (auto simp: xc_system_def xc_read_def op_defs Let_def split: prod.splits outcome.splits if_splits)
qed (simp_all add: xc_system_def body_io body_objects)

lemma machine_upholds:
  assumes "upholding_system sys (body_ok sc n W) (body_rel W)"
  shows "metered_machine (host_api_of sys get_meter_ticks use_meter_ticks) (body_ok sc n W) (body_rel W)
     (\<lambda>c. meter_ticks (xc_resource_meter c)) xc_vm (\<lambda>vm c. c\<lparr>xc_vm := vm\<rparr>)"
proof unfold_locales
  note host = upholding_system.host_call_upholds [OF assms]
  show "preorder_rel (body_rel W)" by (rule body_rel_preorder)
  show "meter_ticks (xc_resource_meter s') \<le> meter_ticks (xc_resource_meter s)"
    if "body_ok sc n W s" "body_rel W s s'" for s s' :: "'a execution_context"
    using that meter_ticks_antimono by (auto simp: body_ok_def xc_ok_def body_rel_def xc_rel_def)
  show "ha_get_meter_ticks (host_api_of sys get_meter_ticks use_meter_ticks) s = Returned (meter_ticks (xc_resource_meter s))"
    if "body_ok sc n W s" for s :: "'a execution_context"
    using that by (simp add: host_api_of_def get_meter_ticks_def remaining_compute_ticks body_ok_def xc_ok_def)
  show "upholds (body_ok sc n W) (body_rel W) (ha_use_meter_ticks (host_api_of sys get_meter_ticks use_meter_ticks) t)" for t
    by (simp add: host_api_of_def body_charges(3))
  show "t \<le> meter_ticks (xc_resource_meter s) \<and> meter_ticks (xc_resource_meter s') \<le> meter_ticks (xc_resource_meter s) - t"
    if s: "body_ok sc n W s" and u: "ha_use_meter_ticks (host_api_of sys get_meter_ticks use_meter_ticks) t s = (Returned e, s')"
      and e: "\<not> is_error e"
    for s s' :: "'a execution_context" and t e
  proof -
    obtain m where "use_compute_bandwidth t (xc_resource_meter s) = (Returned e, m)" "s' = s\<lparr>xc_resource_meter := m\<rparr>"
      using u by (auto simp: host_api_of_def use_meter_ticks_def on_meter_def split: prod.splits)
    then show ?thesis
      using use_compute_ticks s e by (auto simp: body_ok_def xc_ok_def)
  qed
  show "upholds (\<lambda>(mem, s). body_ok sc n W s) (\<lambda>(mem, s) (mem', s'). body_rel W s s')
     (ha_call (host_api_of sys get_meter_ticks use_meter_ticks) call)" for call
    using host by (simp add: host_api_of_def)
  show "cache_ok (xc_vm s)" if "body_ok sc n W s" for s :: "'a execution_context"
    using that by (simp add: body_ok_def xc_ok_def)
  show "body_ok sc n W (s\<lparr>xc_vm := vm\<rparr>) \<and> body_rel W s (s\<lparr>xc_vm := vm\<rparr>)"
    if "body_ok sc n W s" "cache_ok vm" for s :: "'a execution_context" and vm
    using that preorder_relD(1) [OF cell_rel_preorder] preorder_relD(1) [OF meter_rel_preorder]
      preorder_relD(1) [OF frame_rel_preorder]
    by (simp add: body_ok_def xc_ok_def body_rel_def xc_rel_def)
qed

text \<open>
  The parameters behave as documented: metered execution, modules whose start section ends, and accounts of
  the right size.
\<close>

definition env_ok :: "('m, 'k) node_env \<Rightarrow> bool" where
  "env_ok env \<longleftrightarrow> fizzy_metered (ne_fizzy env) \<and> fizzy_starts (ne_fizzy env) \<and> (\<forall>i. length (ne_junk env i) = 33)"

lemma execute_user_upholds:
  assumes "env_ok env" and "upholding_system sys (body_ok sc n W) (body_rel W)"
  shows "upholds (body_ok sc n W) (body_rel W) (execute_user_program env sys a)"
proof -
  have "upholds (body_ok sc n W) (body_rel W)
      (virtual_machine_run (ne_fizzy env) xc_vm (\<lambda>vm c. c\<lparr>xc_vm := vm\<rparr>)
        (host_api_of sys get_meter_ticks use_meter_ticks) bytecode i)" for bytecode i
    using assms(1) by (intro metered_machine.run_upholds [OF machine_upholds [OF assms(2)]]) (simp_all add: env_ok_def)
  then show ?thesis
    unfolding execute_user_program_def
    by (intro upholds_noexcept with_node body_rules body_accesses(1) at_body) simp_all
qed

lemma execute_native_upholds:
  assumes "env_ok env" and "upholding_system sys (body_ok sc n W) (body_rel W)"
  shows "upholds (body_ok sc n W) (body_rel W) (execute_native_program env sys a)"
  unfolding execute_native_program_def
  using assms(1) upholding_system.coin_run_upholds [OF assms(2)]
  by (intro upholds_noexcept body_rules body_the_frame) (simp_all add: env_ok_def)

lemma make_frame_upholds: "upholds (body_ok sc n W) (body_rel W) (make_frame a stdin args code)"
  unfolding make_frame_def Let_def
  by (intro body_rules body_the_frame body_set_frame body_plain_fields) simp_all

text \<open>A body that runs in a fresh frame of program \<open>a\<close>.\<close>

definition body_of :: "signature_scheme \<Rightarrow> nat \<Rightarrow> account \<Rightarrow> 'm execution_context \<Rightarrow> bool" where
  "body_of sc n a c \<longleftrightarrow> xc_ok sc n c \<and> ps_stack (xc_stack c) \<noteq> [] \<and> sf_program_id (last (ps_stack (xc_stack c))) = a"

lemma body_of_program:
  fixes m :: "('m execution_context, 'x) op"
  assumes "length a = 33" and "account_get_type a \<in> {Account_program, Account_native_program}"
    and "upholds (body_ok sc n (writes_of a)) (body_rel (writes_of a)) m"
  shows "upholds (body_of sc n a) (body_rel (writes_of a)) m"
proof -
  have ok: "body_ok sc n (writes_of a) c" if "body_of sc n a c" for c :: "'m execution_context"
    using that assms(1) writes_of_space [OF assms(1,2)] by (auto simp: body_of_def body_ok_def frame_ok_def)
  have of: "body_of sc n a c'" if "body_of sc n a c" "body_ok sc n (writes_of a) c'" "body_rel (writes_of a) c c'"
    for c c' :: "'m execution_context"
    using that by (auto simp: body_of_def body_ok_def frame_ok_def body_rel_def frame_rel_def)
  show ?thesis
    by (rule upholdsI) (use upholdsD [OF assms(3) ok] of in blast)+
qed

definition push_context :: "account \<Rightarrow> bytes \<Rightarrow> bytes list \<Rightarrow> 'm execution_context \<Rightarrow> 'm execution_context" where
  "push_context a stdin args c =
     c\<lparr>xc_stack := (xc_stack c)\<lparr>ps_stack := ps_stack (xc_stack c) @ [stack_frame_new a args stdin]\<rparr>\<rparr>"

text \<open>A weaker set of spaces.\<close>

lemma run_mono:
  fixes m :: "('m execution_context, 'x) op"
  assumes "upholds P (run_rel V) m" and "\<And>sp. V sp \<Longrightarrow> W sp"
  shows "upholds P (run_rel W) m"
proof (rule upholdsI)
  fix c c' :: "'m execution_context" and x
  assume c: "P c" and run: "m c = (Returned x, c')"
  then have "P c' \<and> run_rel V c c'" using upholdsD(1) [OF assms(1) _ run] by simp
  then show "P c' \<and> run_rel W c c'" using xc_rel_mono [of V c c' W] assms(2) by (simp add: run_rel_def)
qed (use upholdsD(2) [OF assms(1)] in blast)

lemma push_and_run_eq:
  assumes "xc_ok sc n c"
  shows "push_and_run body a stdin args c =
    (if stack_size (xc_stack c) = default_stack_limit then (Returned (Inl (controller_error Controller_stack_overflow)), c)
     else frame_guard body (push_context a stdin args c))"
  using assms
  by (auto simp: push_and_run_def the_node_def on_stack_def push_frame_def xc_ok_def op_defs stack_size_def push_context_def)

lemma push_context_ok:
  assumes "xc_ok sc (Suc n) c" and "stack_size (xc_stack c) \<noteq> default_stack_limit"
  shows "body_of sc n a (push_context a stdin args c)"
  using assms by (simp add: body_of_def xc_ok_def stack_size_def stack_frame_new_def push_context_def)

lemma push_and_run_upholds:
  fixes body :: "('m execution_context, program_frame result) op"
  assumes "upholds (body_of sc n a) (body_rel W) body"
  shows "upholds (xc_ok sc (Suc n)) (run_rel W) (push_and_run body a stdin args)"
proof (rule upholdsI)
  fix c c' :: "'m execution_context" and r
  let ?c = "push_context a stdin args c"
  assume c: "xc_ok sc (Suc n) c" and run: "push_and_run body a stdin args c = (Returned r, c')"
  show "xc_ok sc (Suc n) c' \<and> run_rel W c c'"
  proof (cases "stack_size (xc_stack c) = default_stack_limit")
    case True
    then show ?thesis using c run push_and_run_eq [OF c] preorder_relD(1) [OF run_rel_preorder, of W c] by simp
  next
    case False
    then obtain c1 where c1: "body ?c = (Returned r, c1)" "c' = c1\<lparr>xc_stack := snd (pop_frame (xc_stack c1))\<rparr>"
      using run by (auto simp: push_and_run_eq [OF c] frame_guard_def split: prod.splits)
    have b: "body_of sc n a c1" "body_rel W ?c c1"
      using upholdsD(1) [OF assms push_context_ok [OF c False] c1(1)] by auto
    have "xc_stack c' = xc_stack c"
      using b c1(2) by (auto simp: body_of_def body_rel_def frame_rel_def pop_frame_def push_context_def)
    then show ?thesis
      using b c1(2) c by (auto simp: body_of_def body_rel_def run_rel_def xc_rel_def xc_ok_def push_context_def)
  qed
next
  fix c c' :: "'m execution_context"
  assume c: "xc_ok sc (Suc n) c"
  then show "push_and_run body a stdin args c \<noteq> (Threw Diverges, c')"
    using upholdsD(2) [OF assms push_context_ok [OF c]]
    by (auto simp: push_and_run_eq [OF c] frame_guard_def split: prod.splits)
qed

lemma run_frame_upholds:
  fixes sys :: "'m execution_context system_interface"
  assumes "length a = 33" and "env_ok env" and "upholding_system sys (body_ok sc n (writes_of a)) (body_rel (writes_of a))"
  shows "upholds (body_of sc n a) (body_rel (writes_of a)) (run_frame env sys T a stdin args)"
proof (cases "account_get_type a \<in> {Account_program, Account_native_program}")
  case True
  have "upholds (body_ok sc n (writes_of a)) (body_rel (writes_of a)) (run_frame env sys T a stdin args)"
    using True execute_user_upholds [OF assms(2,3)] execute_native_upholds [OF assms(2,3)]
    unfolding run_frame_def Let_def
    by (auto intro!: body_rules make_frame_upholds)
  then show ?thesis by (rule body_of_program [OF assms(1) True])
next
  case False
  then show ?thesis
    unfolding run_frame_def Let_def by (cases "account_get_type a") (auto intro: body_rules)
qed

text \<open>Every run ends, writes only the spaces it may write, and leaves the stack as it was.\<close>

lemma run_program_upholds:
  assumes "env_ok env" and "length a = 33"
  shows "upholds (xc_ok (ne_scheme env) n) (run_rel (writes_of a)) (run_program n env T a stdin args)"
  using assms(2)
proof (induction n arbitrary: T a stdin args)
  case 0
  show ?case
  proof (rule upholdsI)
    fix c c' :: "'a execution_context" and r
    assume "xc_ok (ne_scheme env) 0 c" "run_program 0 env T a stdin args c = (Returned r, c')"
    then have "c' = c"
      by (auto simp: push_and_run_def the_node_def on_stack_def push_frame_def xc_ok_def op_defs stack_size_def)
    then show "xc_ok (ne_scheme env) 0 c' \<and> run_rel (writes_of a) c c'"
      using \<open>xc_ok (ne_scheme env) 0 c\<close> preorder_relD(1) [OF run_rel_preorder] by simp
  qed (auto simp: push_and_run_def the_node_def on_stack_def push_frame_def xc_ok_def op_defs stack_size_def)
next
  case (Suc n)
  have "upholds (xc_ok (ne_scheme env) n) (run_rel (writes_of a)) (run_program n env Strict b s as)"
    if "length b = 33" "account_view_is_program b" for b s as
    using run_mono [OF Suc.IH [OF that(1)], of "writes_of a"] view_program_not_native [OF that(2)]
    by (simp add: writes_of_program) (simp add: writes_of_def)
  then have "upholding_system (xc_system (ne_scheme env) (run_program n env Strict) (run_program n env Relaxed))
      (body_ok (ne_scheme env) n (writes_of a)) (body_rel (writes_of a))"
    by (intro system_upholds)
  then show ?case
    using push_and_run_upholds [OF run_frame_upholds [OF Suc.prems assms(1)]] by simp
qed

section \<open>The context as provider of the interfaces\<close>

text \<open>
  The invariant of a context in which a program runs with a system interface of \<open>n\<close> nested calls; the
  conditions on the parameters are part of it.
\<close>

definition system_ok :: "nat \<Rightarrow> ('m, 'k) node_env \<Rightarrow> (object_space \<Rightarrow> bool) \<Rightarrow> 'm execution_context \<Rightarrow> bool" where
  "system_ok n env W c \<longleftrightarrow> env_ok env \<and> (\<forall>sp. user_space sp \<longrightarrow> W sp) \<and> body_ok (ne_scheme env) n W c"

abbreviation node_system :: "nat \<Rightarrow> ('m, 'k) node_env \<Rightarrow> 'm execution_context system_interface" where
  "node_system n env \<equiv> xc_system (ne_scheme env) (run_program n env Strict) (run_program n env Relaxed)"

text \<open>A condition on the parameters can be moved into the invariant of an interface.\<close>

lemma upholding_system_cond:
  assumes "A \<Longrightarrow> upholding_system sys P R" and "preorder_rel R"
  shows "upholding_system sys (\<lambda>s. A \<and> P s) R"
  using assms by (cases A) (auto simp: upholding_system_def upholds_def)

lemma metered_machine_cond:
  assumes "A \<Longrightarrow> metered_machine api P R ticks getc setc" and "preorder_rel R"
  shows "metered_machine api (\<lambda>s. A \<and> P s) R ticks getc setc"
  using assms
  by (cases A) (auto simp: metered_machine_def metered_host_def metered_machine_axioms_def upholds_def split: prod.splits)

lemma node_system_upholds:
  assumes "env_ok env" and "\<And>sp. user_space sp \<Longrightarrow> W sp"
  shows "upholding_system (node_system n env) (body_ok (ne_scheme env) n W) (body_rel W)"
proof (rule system_upholds)
  fix a
  assume a: "length a = 33" "account_view_is_program a"
  show "upholds (xc_ok (ne_scheme env) n) (run_rel W) (run_program n env Strict a (u32_bytes 0) [])"
    using run_mono [OF run_program_upholds [OF assms(1) a(1)]] assms(2) view_program_not_native [OF a(2)]
    by (simp add: writes_of_program)
qed

lemma system_ok_cond: "system_ok n env W = (\<lambda>c. (env_ok env \<and> (\<forall>sp. user_space sp \<longrightarrow> W sp)) \<and> body_ok (ne_scheme env) n W c)"
  by (auto simp: system_ok_def)

interpretation node: upholding_system "node_system n env" "system_ok n env W" "body_rel W"
  for n env and W :: "object_space \<Rightarrow> bool"
  unfolding system_ok_cond by (intro upholding_system_cond node_system_upholds body_rel_preorder) blast+

interpretation node_vm: metered_machine "host_api_of (node_system n env) get_meter_ticks use_meter_ticks" "system_ok n env W"
  "body_rel W" "\<lambda>c. meter_ticks (xc_resource_meter c)" xc_vm "\<lambda>vm c. c\<lparr>xc_vm := vm\<rparr>"
  for n env and W :: "object_space \<Rightarrow> bool"
  unfolding system_ok_cond
  by (intro metered_machine_cond machine_upholds node_system_upholds body_rel_preorder) blast+

section \<open>Properties of program runs\<close>

text \<open>A user account has authority over a transaction only through its signature.\<close>

lemma check_authority_signed:
  assumes "sigs_ok (ne_scheme env) (xc_transaction c) (xc_verified_signatures c)"
    and "check_authority env a c = (Returned (Inr True), c')" and "\<not> account_view_is_program a"
  shows "\<exists>t. xc_transaction c = Some t \<and> (\<exists>x \<in> set (tx_authorizations t). au_signer x = a \<and> signed_by (ne_scheme env) t x)"
proof -
  obtain m where m: "check_signatures (ne_scheme env) a (c\<lparr>xc_resource_meter := m\<rparr>) = (Returned (Inr True), c')"
    using assms(2,3)
    by (auto simp: check_authority_def xc_check_authority_def the_node_def charge_call_def on_meter_def op_defs
        split: option.splits prod.splits outcome.splits if_splits)
  show ?thesis using check_signatures_run [OF m] assms(1) by auto
qed


text \<open>
  C6: A program cannot reach outside its object spaces: after a run that returns, every object outside the spaces
  of user programs and, for a native program, outside its own spaces is as before, no other delta has
  changed, the stack, the state node and the transaction are as before, and no resource was
  given back.
\<close>

theorem run_program_isolated:
  assumes "env_ok env" and "length a = 33" and "xc_ok (ne_scheme env) call_fuel c"
    and "xc_state_node c = Some nd" and "node_delta nd = Returned p"
    and "run_program call_fuel env T a stdin args c = (Returned r, c')"
  shows "(\<forall>sp k. object_space_ok sp \<longrightarrow> \<not> writes_of a sp \<longrightarrow> node_view (xc_heap c') p sp k = node_view (xc_heap c) p sp k)
     \<and> (\<forall>q. q \<noteq> p \<longrightarrow> xc_heap c' ! q = xc_heap c ! q)
     \<and> xc_stack c' = xc_stack c \<and> xc_state_node c' = xc_state_node c \<and> xc_transaction c' = xc_transaction c
     \<and> meter_rel (xc_resource_meter c) (xc_resource_meter c')"
proof -
  have "run_rel (writes_of a) c c'"
    using upholdsD(1) [OF run_program_upholds [OF assms(1,2)] assms(3,6)] by blast
  then show ?thesis using assms(4,5) by (simp add: run_rel_def xc_rel_def cell_rel_def)
qed

text \<open>
  C8: An account that is not a program has authority only through a signature: when \<open>check_authority\<close> answers true,
  the current transaction holds an authorization by that account whose signature verifies on the
  transaction's id.
\<close>

theorem authority_needs_signature:
  assumes "xc_ok (ne_scheme env) n c" and "\<not> account_view_is_program a"
    and "check_authority env a c = (Returned (Inr True), c')"
  shows "\<exists>t. xc_transaction c = Some t \<and> (\<exists>x \<in> set (tx_authorizations t). au_signer x = a \<and> signed_by (ne_scheme env) t x)"
  using check_authority_signed [OF _ assms(3,2)] assms(1) by (simp add: xc_ok_def)

section \<open>A sample context\<close>

definition sample_env :: "(bytes, unit) node_env" where
  "sample_env =
     \<lparr>ne_hash = (\<lambda>_. zero_digest), ne_scheme = sample_scheme, ne_fizzy = sample_fizzy, ne_junk = (\<lambda>_. replicate 33 0)\<rparr>"

definition sample_payer :: account where
  "sample_payer = user_account (replicate 32 7)"

definition coin_input :: "u32 \<Rightarrow> bytes \<Rightarrow> operation" where
  "coin_input instr stdin = Call_program \<lparr>cp_id = coin_account, cp_input = \<lparr>pi_arguments = [], pi_stdin = u32_bytes instr @ stdin\<rparr>\<rparr>"

definition signed_transaction :: "u64 \<Rightarrow> operation list \<Rightarrow> transaction" where
  "signed_transaction n ops =
     (sample_transaction n ops)
       \<lparr>tx_resource_limit := 1000000, tx_payer := sample_payer, tx_payee := replicate 33 0,
        tx_authorizations := [\<lparr>au_signer = sample_payer, au_signature = zero_digest\<rparr>]\<rparr>"

definition sample_context :: "bytes execution_context" where
  "sample_context =
     (set_state_node (Permanent_node 3) (execution_context_new sample_heap (module_cache_new 4) Block_application))
       \<lparr>xc_resource_meter := set_resource_limits default_resource_limits resource_meter_new,
        xc_transaction := Some (signed_transaction 1 [])\<rparr>"

lemma sample_env_ok: "env_ok sample_env"
proof -
  have "0 < sint t \<Longrightarrow> sint (word_of_int (sint t - 1) :: u64) = sint t - 1" for t :: u64
    using sint_less [of t] by (subst sint_sbintrunc') (simp add: signed_take_bit_int_eq_self)
  then show ?thesis
    by (auto simp: env_ok_def sample_env_def sample_fizzy_def fizzy_metered_def fizzy_starts_def split: if_splits)
qed

lemma sample_context_ok: "xc_ok (ne_scheme env) call_fuel sample_context"
  using sample_heap_ok sample_live cache_ok_new [of 4]
  by (simp add: xc_ok_def sample_context_def set_state_node_def execution_context_new_def costs_ok_def resource_meter_new_def
      set_resource_limits_def program_stack_new_def stack_size_def call_fuel_def sigs_ok_def)


lemma length_coin_account: "length coin_account = 33"
  by code_simp


text \<open>A call that mints coins.\<close>

definition sample_mint :: "(program_frame result outcome) \<times> bytes execution_context" where
  "sample_mint = run_program call_fuel sample_env Strict coin_account (u32_bytes 7 @ sample_payer @ u64_bytes 50) [] sample_context"

lemma sample_mint_returns: "\<exists>r c'. sample_mint = (Returned (Inr r), c')"
proof -
  have "case fst sample_mint of Returned (Inr r) \<Rightarrow> True | _ \<Rightarrow> False" by code_simp
  then show ?thesis by (cases sample_mint) (auto simp: prod_eq_iff split: outcome.splits sum.splits)
qed

theorem run_program_isolated_witness:
  "\<exists>r c'. sample_mint = (Returned (Inr r), c') \<and> xc_stack c' = xc_stack sample_context
     \<and> (\<forall>k. node_view (xc_heap c') 3 program_data_space k = node_view (xc_heap sample_context) 3 program_data_space k)"
proof -
  obtain r c' where run: "sample_mint = (Returned (Inr r), c')" using sample_mint_returns by blast
  have "xc_state_node sample_context = Some (Permanent_node 3)"
    by (simp add: sample_context_def set_state_node_def)
  note iso = run_program_isolated [OF sample_env_ok length_coin_account sample_context_ok this, of 3]
  have "object_space_ok program_data_space \<and> \<not> writes_of coin_account program_data_space"
    by (simp add: program_data_space_def system_space_def object_space_ok_def writes_of_def user_space_def)
  then show ?thesis using run iso [OF _ run [unfolded sample_mint_def]] by (intro exI [of _ r] exI [of _ c']) simp
qed

theorem authority_needs_signature_witness:
  "\<exists>t. xc_transaction sample_context = Some t
     \<and> (\<exists>x \<in> set (tx_authorizations t). au_signer x = sample_payer \<and> signed_by (ne_scheme sample_env) t x)"
proof -
  have "fst (check_authority sample_env sample_payer sample_context) = Returned (Inr True)" by code_simp
  then have "check_authority sample_env sample_payer sample_context
      = (Returned (Inr True), snd (check_authority sample_env sample_payer sample_context))"
    by (simp add: prod_eq_iff)
  then show ?thesis
    by (rule authority_needs_signature [OF sample_context_ok, rotated]) code_simp
qed

end
