(* ===== verification/Transactions.thy ===== *)
theory Transactions
  imports Execution_Invariants
begin

text \<open>
  What applying a transaction or a block does to the state (\<open>execution_context::apply\<close> in
  \<open>controller/execution_context.cpp\<close>): the operations run in a child node that is merged only when all of them
  succeed, the nonce of the payee or payer is checked and advanced, and no transaction writes outside the
  spaces it may write.
\<close>

section \<open>Operations\<close>

text \<open>The spaces the operations of a transaction may write.\<close>

definition operation_space :: "object_space \<Rightarrow> bool" where
  "operation_space sp \<longleftrightarrow> \<not> os_system sp \<or> sp = program_data_space"

fun operation_sized :: "operation \<Rightarrow> bool" where
  "operation_sized (Upload_program u) \<longleftrightarrow> length (up_id u) = 33"
| "operation_sized (Call_program p) \<longleftrightarrow> length (cp_id p) = 33"

definition transaction_sized :: "transaction \<Rightarrow> bool" where
  "transaction_sized t \<longleftrightarrow>
     length (tx_payer t) = 33 \<and> length (tx_payee t) = 33 \<and> (\<forall>p \<in> set (tx_operations t). operation_sized p)"

abbreviation context_ok :: "('m, 'k) node_env \<Rightarrow> 'm execution_context \<Rightarrow> bool" where
  "context_ok env \<equiv> xc_ok (ne_scheme env) call_fuel"

lemma system_space_ok: "object_space_ok (system_space i)" "os_system (system_space i)"
  by (simp_all add: system_space_def object_space_ok_def)

lemma space_simps:
  "object_space_ok program_data_space" "object_space_ok transaction_nonce_space" "object_space_ok metadata_space"
  "os_system program_data_space" "os_system transaction_nonce_space" "os_system metadata_space"
  "transaction_nonce_space \<noteq> program_data_space" "metadata_space \<noteq> program_data_space"
  "metadata_space \<noteq> transaction_nonce_space"
  by (simp_all add: program_data_space_def transaction_nonce_space_def metadata_space_def system_space_ok)
    (simp_all add: system_space_def)

lemma space_classes:
  "user_space sp \<Longrightarrow> operation_space sp" "writes_of a sp \<Longrightarrow> operation_space sp" "operation_space program_data_space"
  "\<not> operation_space transaction_nonce_space" "\<not> operation_space metadata_space"
  "\<not> user_space transaction_nonce_space" "\<not> user_space program_data_space"
  by (auto simp: user_space_def writes_of_def operation_space_def space_simps)

lemma authority_upholds:
  assumes "env_ok env" and "length a = 33"
  shows "upholds (context_ok env) (run_rel user_space) (check_authority env a)"
proof -
  have "upholds (context_ok env) (run_rel user_space) (run_program call_fuel env Strict a (u32_bytes 0) [])"
    if "account_view_is_program a"
    using run_mono [OF run_program_upholds [OF assms]] view_program_not_native [OF that] by (simp add: writes_of_program)
  then show ?thesis unfolding check_authority_def by (rule check_authority_upholds)
qed

lemma length_user_account_of [simp]: "length (user_account_of a) = length a"
  by (simp add: user_account_of_def)

definition upload_space :: "object_space \<Rightarrow> bool" where
  "upload_space sp \<longleftrightarrow> user_space sp \<or> sp = program_data_space"

lemma upload_upholds:
  assumes "env_ok env" and "length (up_id u) = 33"
  shows "upholds (context_ok env) (run_rel upload_space) (apply_upload_program env u)"
proof -
  have u: "length (if present \<noteq> None then up_id u else user_account_of (up_id u)) = 33" for present :: "bytes option"
    using assms(2) by simp
  have auth: "upholds (context_ok env) (run_rel upload_space)
      (check_authority env (if present \<noteq> None then up_id u else user_account_of (up_id u)))" for present :: "bytes option"
    by (rule run_mono [OF authority_upholds [OF assms(1) u]]) (simp add: upload_space_def)
  show ?thesis
    unfolding apply_upload_program_def
    by (intro with_node run_rules at_run [OF auth] run_read_object)
      (auto split: bool.split intro!: run_rules run_put space_simps simp: upload_space_def)
qed

lemma operation_upholds:
  assumes "env_ok env" and "operation_sized p"
  shows "upholds (context_ok env) (run_rel operation_space) (apply_operation env p)"
proof (cases p)
  case (Upload_program u)
  then have "length (up_id u) = 33" using assms(2) by simp
  note run = run_mono [OF upload_upholds [OF assms(1) this], of operation_space]
  show ?thesis
    unfolding Upload_program apply_operation.simps
    by (rule run) (auto simp: upload_space_def space_classes)
next
  case (Call_program p)
  then have "length (cp_id p) = 33" using assms(2) by simp
  note run = run_mono [OF run_program_upholds [OF assms(1) this] space_classes(2)]
  show ?thesis
    unfolding Call_program apply_operation.simps apply_call_program_def by (intro run_rules run)
qed

lemma operations_upholds:
  assumes "env_ok env" and "\<forall>p \<in> set ps. operation_sized p"
  shows "upholds (context_ok env) (run_rel operation_space) (operations_loop env ps)"
  using assms(2)
proof (induction ps)
  case Nil
  then show ?case by (simp add: run_rules)
next
  case (Cons p ps)
  then have "operation_sized p" "upholds (context_ok env) (run_rel operation_space) (operations_loop env ps)" by simp_all
  then show ?case
    by (simp only: operations_loop.simps) (intro run_rules run_plain_fields operation_upholds assms(1))
qed

section \<open>A transaction on the block's node\<close>

text \<open>
  What a transaction may do to the state its node shows: outside the cells \<open>C\<close> nothing changes, the node
  keeps its place, and deltas that do not depend on it show what they showed.
\<close>

definition state_rel :: "(object_space \<Rightarrow> bytes \<Rightarrow> bool) \<Rightarrow> ptr \<Rightarrow> heap \<Rightarrow> heap \<Rightarrow> bool" where
  "state_rel C p h h' \<longleftrightarrow>
     length h \<le> length h' \<and> delta_final h' p = delta_final h p \<and> sd_parent (h' ! p) = sd_parent (h ! p)
     \<and> delta_id h' p = delta_id h p \<and> delta_revision h' p = delta_revision h p
     \<and> (\<forall>sp k. object_space_ok sp \<longrightarrow> \<not> C sp k \<longrightarrow> node_view h' p sp k = node_view h p sp k)
     \<and> (\<forall>q < p. h' ! q = h ! q)"

definition context_rel :: "(object_space \<Rightarrow> bytes \<Rightarrow> bool) \<Rightarrow> 'm execution_context \<Rightarrow> 'm execution_context \<Rightarrow> bool" where
  "context_rel C c c' \<longleftrightarrow>
     xc_state_node c' = xc_state_node c \<and> xc_stack c' = xc_stack c \<and> xc_intent c' = xc_intent c
     \<and> rm_limits (xc_resource_meter c') = rm_limits (xc_resource_meter c)
     \<and> (\<forall>nd p. xc_state_node c = Some nd \<longrightarrow> node_delta nd = Returned p \<longrightarrow> state_rel C p (xc_heap c) (xc_heap c'))"

lemma state_rel_preorder: "preorder_rel (state_rel C p)"
  unfolding preorder_rel_def state_rel_def by auto

lemma context_rel_preorder: "preorder_rel (context_rel C)"
proof -
  have "context_rel C s u" if "context_rel C s t" "context_rel C t u" for s t u :: "'m execution_context"
  proof -
    have "state_rel C p (xc_heap s) (xc_heap u)" if "xc_state_node s = Some nd" "node_delta nd = Returned p" for nd p
      using that \<open>context_rel C s t\<close> \<open>context_rel C t u\<close> preorder_relD(2) [OF state_rel_preorder]
      unfolding context_rel_def by metis
    then show ?thesis using that unfolding context_rel_def by metis
  qed
  moreover have "context_rel C s s" for s :: "'m execution_context"
    using preorder_relD(1) [OF state_rel_preorder] by (simp add: context_rel_def)
  ultimately show ?thesis unfolding preorder_rel_def by blast
qed

lemma state_rel_mono: "state_rel C p h h' \<Longrightarrow> (\<And>sp k. C sp k \<Longrightarrow> D sp k) \<Longrightarrow> state_rel D p h h'"
  unfolding state_rel_def by blast

lemma context_rel_mono: "context_rel C c c' \<Longrightarrow> (\<And>sp k. C sp k \<Longrightarrow> D sp k) \<Longrightarrow> context_rel D c c'"
  unfolding context_rel_def by (metis state_rel_mono)

lemma cell_state_rel: "cell_rel W p h h' \<Longrightarrow> state_rel (\<lambda>sp _. W sp) p h h'"
  by (auto simp: cell_rel_def state_rel_def delta_final_def)

lemma run_context_rel: "run_rel W c c' \<Longrightarrow> context_rel (\<lambda>sp _. W sp) c c'"
  using cell_state_rel by (auto simp: run_rel_def xc_rel_def context_rel_def meter_rel_def)

text \<open>The invariant between the transactions of a block: a session can be opened at any time.\<close>

definition costs_set :: "resource_limits \<Rightarrow> bool" where
  "costs_set l \<longleftrightarrow> disk_storage_cost l \<noteq> 0 \<and> network_bandwidth_cost l \<noteq> 0 \<and> compute_bandwidth_cost l \<noteq> 0"

definition apply_ok :: "('m, 'k) node_env \<Rightarrow> 'm execution_context \<Rightarrow> bool" where
  "apply_ok env c \<longleftrightarrow> context_ok env c \<and> costs_set (rm_limits (xc_resource_meter c))"

lemma run_block:
  fixes m :: "('m execution_context, 'x) op"
  assumes "upholds (context_ok env) (run_rel W) m" and "\<And>sp k. W sp \<Longrightarrow> C sp k"
  shows "upholds (apply_ok env) (context_rel C) m"
proof (rule upholdsI)
  fix c c' :: "'m execution_context" and x
  assume c: "apply_ok env c" and run: "m c = (Returned x, c')"
  then have "context_ok env c' \<and> run_rel W c c'" using upholdsD(1) [OF assms(1) _ run] by (simp add: apply_ok_def)
  then show "apply_ok env c' \<and> context_rel C c c'"
    using c context_rel_mono [OF run_context_rel [of W c c'], of C] assms(2)
    by (auto simp: apply_ok_def context_rel_def)
next
  fix c c' :: "'m execution_context"
  assume "apply_ok env c"
  then show "m c \<noteq> (Threw Diverges, c')" using upholdsD(2) [OF assms(1)] by (simp add: apply_ok_def)
qed

section \<open>The operations in their own node\<close>

definition operations_then_restore ::
  "('m, 'k) node_env \<Rightarrow> state_node \<Rightarrow> transaction \<Rightarrow> ('m execution_context, error_code) op" where
  "operations_then_restore env nd t =
     andThen (run_operations env nd t) (\<lambda>e. andThen (modifies (\<lambda>c. c\<lparr>xc_state_node := Some nd\<rparr>)) (\<lambda>_. returns e))"

lemma make_child_run:
  assumes "heap_ok h" and "live h p" and "node_delta nd = Returned p"
  obtains h' where "node_make_child nd h = (Returned (Temporary_node (Some (length h))), h')"
    "heap_ok h'" "live h' (length h)" "live h' p" "view h' (length h) = view h p" "view h' p = view h p"
    "sd_parent (h' ! length h) = Some p" "length h' = Suc (length h)" "\<forall>q < length h. h' ! q = h ! q"
proof -
  obtain b where b: "sd_backend (h ! p) = Some b" using live_backend [OF assms(2)] by auto
  obtain h' where h': "delta_make_child p null_id h = (Returned (length h), h')" "heap_ok h'" "live h' (length h)"
      "view h' (length h) = view h p" "delta_parent h' (length h) = Some p" "live h' p" "view h' p = view h p"
    using delta_make_child_run [OF assms(1,2) b, of null_id] assms(2) by auto
  then have "length h' = Suc (length h) \<and> (\<forall>q < length h. h' ! q = h ! q)"
    by (auto simp: delta_make_child_def op_defs make_shared_def nth_append get_backend_def split: option.splits outcome.splits)
  then show thesis
    using h' assms(3) by (intro that [of h']) (auto simp: node_make_child_def op_defs delta_parent_def)
qed


lemma foldl_keeps: "(\<And>b x. g (f b x) = g b) \<Longrightarrow> g (foldl f b xs) = g b"
  by (induction xs arbitrary: b) simp_all

lemma backend_keeps:
  "be_id (snd (backend_put b k v)) = be_id b" "be_revision (snd (backend_put b k v)) = be_revision b"
  "be_id (snd (backend_remove b k)) = be_id b" "be_revision (snd (backend_remove b k)) = be_revision b"
  by (simp_all add: backend_put_def backend_remove_def Let_def split: option.split)

lemma squash_parent_keeps:
  "sd_final (squash_parent d b dq) = sd_final dq"
  "map_option be_id (sd_backend (squash_parent d b dq)) = map_option be_id (sd_backend dq)"
  "map_option be_revision (sd_backend (squash_parent d b dq)) = map_option be_revision (sd_backend dq)"
  by (simp_all add: squash_parent_def merge_entries_def merge_removed_def option.map_comp comp_def
      foldl_keeps backend_keeps split_def)

text \<open>Merging a child into the node of the block.\<close>

lemma squash_child_run:
  assumes "heap_ok h" and "live h q" and "sd_parent (h ! q) = Some p"
    and "temporary_squash (Some q) h = (Returned x, h')"
  shows "heap_ok h' \<and> live h' p \<and> view h' p = view h q \<and> length h' = length h
     \<and> sd_parent (h' ! p) = sd_parent (h ! p) \<and> delta_final h' p = delta_final h p
     \<and> delta_id h' p = delta_id h p \<and> delta_revision h' p = delta_revision h p \<and> (\<forall>r < p. h' ! r = h ! r)"
proof -
  obtain b where b: "sd_backend (h ! q) = Some b" using live_backend [OF assms(2)] by auto
  have p: "p < q" "live h p" "q < length h" using live_parent [OF assms(1-3)] assms(2) by (auto simp: live_def)
  have run: "delta_squash q h = (Returned (), h')"
    using assms(3,4) delta_squash_eq [OF assms(1-3) b]
    by (auto simp: temporary_squash_def op_defs delta_parent_def split: if_splits)
  then have h': "h' = h[p := squash_parent (h ! q) b (h ! p), q := squash_child (h ! q) b]"
    using delta_squash_eq [OF assms(1-3) b] by simp
  have "heap_ok h' \<and> live h' p \<and> view h' p = view h q" using delta_squash_run [OF assms(1,2)] assms(3) run p(2) by auto
  moreover have "h' ! p = squash_parent (h ! q) b (h ! p)" using h' p by (simp add: nth_upd)
  moreover have "sd_parent (squash_parent (h ! q) b (h ! p)) = sd_parent (h ! p)"
    by (simp add: squash_parent_def merge_entries_def merge_removed_def)
  moreover have "delta_id h' p = delta_id h p" "delta_revision h' p = delta_revision h p"
    using squash_parent_keeps [of "h ! q" b "h ! p"] calculation(2) live_backend [OF p(2)]
    by (auto simp: delta_id_def delta_revision_def get_backend_def split: option.splits)
  ultimately show ?thesis
    using h' p squash_parent_keeps(1) by (simp add: delta_final_def nth_upd)
qed

text \<open>The context in which the operations run.\<close>

definition child_context :: "state_node \<Rightarrow> 'm execution_context \<Rightarrow> 'm execution_context" where
  "child_context nd c =
     c\<lparr>xc_heap := snd (node_make_child nd (xc_heap c)), xc_state_node := Some (Temporary_node (Some (length (xc_heap c))))\<rparr>"

lemma child_context_ok:
  assumes "apply_ok env c" and "xc_state_node c = Some nd" and "node_delta nd = Returned p"
  shows "apply_ok env (child_context nd c)" and "p < length (xc_heap c)" and "live (xc_heap (child_context nd c)) p"
    and "sd_parent (xc_heap (child_context nd c) ! length (xc_heap c)) = Some p"
    and "view (xc_heap (child_context nd c)) (length (xc_heap c)) = view (xc_heap c) p"
    and "view (xc_heap (child_context nd c)) p = view (xc_heap c) p"
    and "length (xc_heap (child_context nd c)) = Suc (length (xc_heap c))"
    and "\<forall>q < length (xc_heap c). xc_heap (child_context nd c) ! q = xc_heap c ! q"
    and "node_make_child nd (xc_heap c) = (Returned (Temporary_node (Some (length (xc_heap c)))), xc_heap (child_context nd c))"
proof -
  have p: "live (xc_heap c) p" "heap_ok (xc_heap c)" using assms by (auto simp: apply_ok_def xc_ok_def)
  show "p < length (xc_heap c)" using p(1) by (simp add: live_def)
  obtain h' where h': "node_make_child nd (xc_heap c) = (Returned (Temporary_node (Some (length (xc_heap c)))), h')"
    "heap_ok h'" "live h' (length (xc_heap c))" "live h' p" "view h' (length (xc_heap c)) = view (xc_heap c) p"
    "view h' p = view (xc_heap c) p" "sd_parent (h' ! length (xc_heap c)) = Some p" "length h' = Suc (length (xc_heap c))"
    "\<forall>q < length (xc_heap c). h' ! q = xc_heap c ! q"
    using make_child_run [OF p(2,1) assms(3)] by blast
  show "apply_ok env (child_context nd c)"
    using assms(1) h'(1-3) by (simp add: child_context_def apply_ok_def xc_ok_def)
  show "live (xc_heap (child_context nd c)) p"
    "sd_parent (xc_heap (child_context nd c) ! length (xc_heap c)) = Some p"
    "view (xc_heap (child_context nd c)) (length (xc_heap c)) = view (xc_heap c) p"
    "view (xc_heap (child_context nd c)) p = view (xc_heap c) p"
    "length (xc_heap (child_context nd c)) = Suc (length (xc_heap c))"
    "\<forall>q < length (xc_heap c). xc_heap (child_context nd c) ! q = xc_heap c ! q"
    "node_make_child nd (xc_heap c) = (Returned (Temporary_node (Some (length (xc_heap c)))), xc_heap (child_context nd c))"
    using h' by (simp_all add: child_context_def)
qed

lemma operations_then_restore_eq:
  assumes "apply_ok env c" and "xc_state_node c = Some nd" and "node_delta nd = Returned p"
  shows "operations_then_restore env nd t c =
    (case operations_loop env (tx_operations t) (child_context nd c) of
       (Threw x, c2) \<Rightarrow> (Threw x, c2)
     | (Returned e, c2) \<Rightarrow>
         if is_error e then (Returned e, c2\<lparr>xc_state_node := Some nd\<rparr>)
         else case temporary_squash (Some (length (xc_heap c))) (xc_heap c2) of
             (Threw x, h) \<Rightarrow> (Threw x, c2\<lparr>xc_heap := h\<rparr>)
           | (Returned x, h) \<Rightarrow> (Returned (controller_error Controller_ok), c2\<lparr>xc_heap := h, xc_state_node := Some nd\<rparr>))"
  using child_context_ok(9) [OF assms]
  by (auto simp: operations_then_restore_def run_operations_def op_defs on_heap_def squash_node_def child_context_def
      split: prod.splits outcome.splits)

lemma temporary_squash_terminates:
  assumes "heap_ok h" and "live h q"
  shows "temporary_squash (Some q) h \<noteq> (Threw Diverges, h')"
  using delta_squash_run [OF assms] by (auto simp: temporary_squash_def op_defs split: option.splits)

text \<open>What the operations leave behind, in the context of the child.\<close>

lemma operations_in_child:
  assumes "env_ok env" and "transaction_sized t" and "apply_ok env c" and "xc_state_node c = Some nd"
    and "node_delta nd = Returned p"
    and "operations_loop env (tx_operations t) (child_context nd c) = (Returned e, c2)"
  shows "context_ok env c2" and "run_rel operation_space (child_context nd c) c2"
    and "cell_rel operation_space (length (xc_heap c)) (xc_heap (child_context nd c)) (xc_heap c2)"
    and "heap_ok (xc_heap c2)" and "live (xc_heap c2) (length (xc_heap c))" and "live (xc_heap c2) p"
    and "sd_parent (xc_heap c2 ! length (xc_heap c)) = Some p" and "view (xc_heap c2) p = view (xc_heap c) p"
    and "\<forall>q < length (xc_heap c). xc_heap c2 ! q = xc_heap c ! q" and "length (xc_heap c2) = Suc (length (xc_heap c))"
proof -
  note ch = child_context_ok [OF assms(3-5)]
  have ops: "\<forall>p \<in> set (tx_operations t). operation_sized p" using assms(2) by (simp add: transaction_sized_def)
  show ok: "context_ok env c2" and rel: "run_rel operation_space (child_context nd c) c2"
    using upholdsD(1) [OF operations_upholds [OF assms(1) ops] _ assms(6)] ch(1) by (simp_all add: apply_ok_def)
  have node: "xc_state_node (child_context nd c) = Some (Temporary_node (Some (length (xc_heap c))))"
    by (simp add: child_context_def)
  then show cell: "cell_rel operation_space (length (xc_heap c)) (xc_heap (child_context nd c)) (xc_heap c2)"
    using rel by (simp add: run_rel_def xc_rel_def)
  show h: "heap_ok (xc_heap c2)" and l: "live (xc_heap c2) (length (xc_heap c))"
    using ok rel node by (auto simp: xc_ok_def run_rel_def xc_rel_def)
  show par: "sd_parent (xc_heap c2 ! length (xc_heap c)) = Some p" using cell ch(4) by (simp add: cell_rel_def)
  show "live (xc_heap c2) p" using live_parent [OF h l par] by simp
  show "view (xc_heap c2) p = view (xc_heap c) p" using cell_rel_older [OF cell ch(2)] ch(6) by simp
  show "\<forall>q < length (xc_heap c). xc_heap c2 ! q = xc_heap c ! q" "length (xc_heap c2) = Suc (length (xc_heap c))"
    using cell ch(7,8) by (simp_all add: cell_rel_def)
qed

lemma operations_then_restore_run:
  fixes c c' :: "'m execution_context"
  assumes "env_ok env" and "transaction_sized t" and "apply_ok env c" and "xc_state_node c = Some nd"
    and "node_delta nd = Returned p" and "operations_then_restore env nd t c = (Returned e, c')"
  shows "apply_ok env c'" and "context_rel (\<lambda>sp _. operation_space sp) c c'"
    and "is_error e \<Longrightarrow> view (xc_heap c') p = view (xc_heap c) p"
proof -
  note eq = operations_then_restore_eq [OF assms(3-5), of t]
  obtain e1 c2 where c2: "operations_loop env (tx_operations t) (child_context nd c) = (Returned e1, c2)"
    using assms(6) eq by (auto split: prod.splits outcome.splits)
  note ch = child_context_ok [OF assms(3-5)]
  note op = operations_in_child [OF assms(1-5) c2]
  have keep: "xc_stack c2 = xc_stack c" "xc_intent c2 = xc_intent c"
      "rm_limits (xc_resource_meter c2) = rm_limits (xc_resource_meter c)"
    using op(2) by (simp_all add: run_rel_def xc_rel_def child_context_def meter_rel_def)
  have old: "delta_final (xc_heap c2) p = delta_final (xc_heap c) p" "delta_id (xc_heap c2) p = delta_id (xc_heap c) p"
      "delta_revision (xc_heap c2) p = delta_revision (xc_heap c) p" "xc_heap c2 ! p = xc_heap c ! p"
      "\<forall>q < p. xc_heap c2 ! q = xc_heap c ! q"
    using op(9) ch(2) by (auto simp: delta_final_def delta_id_def delta_revision_def get_backend_def)
  have "apply_ok env c' \<and> context_rel (\<lambda>sp _. operation_space sp) c c'
      \<and> (is_error e \<longrightarrow> view (xc_heap c') p = view (xc_heap c) p)"
  proof (cases "is_error e1")
    case True
    then have "c' = c2\<lparr>xc_state_node := Some nd\<rparr>" using assms(6) eq c2 by simp
    then show ?thesis
      using op keep old assms(3-5)
      by (auto simp: apply_ok_def xc_ok_def context_rel_def state_rel_def node_view_def)
  next
    case False
    then obtain x h where h: "temporary_squash (Some (length (xc_heap c))) (xc_heap c2) = (Returned x, h)"
        "c' = c2\<lparr>xc_heap := h, xc_state_node := Some nd\<rparr>" "\<not> is_error e"
      using assms(6) eq c2 by (auto split: prod.splits outcome.splits)
    note sq = squash_child_run [OF op(4,5,7) h(1)]
    have "node_view h p sp k = node_view (xc_heap c) p sp k" if "object_space_ok sp" "\<not> operation_space sp" for sp k
      using op(3) that sq ch(5) by (simp add: cell_rel_def node_view_def)
    then show ?thesis
      using h op keep old sq assms(3-5) by (auto simp: apply_ok_def xc_ok_def context_rel_def state_rel_def)
  qed
  then show "apply_ok env c'" "context_rel (\<lambda>sp _. operation_space sp) c c'"
    "is_error e \<Longrightarrow> view (xc_heap c') p = view (xc_heap c) p" by blast+
qed

lemma operations_terminate:
  assumes "env_ok env" and "transaction_sized t" and "apply_ok env c" and "xc_state_node c = Some nd"
  shows "operations_then_restore env nd t c \<noteq> (Threw Diverges, c')"
proof -
  obtain p where p: "node_delta nd = Returned p" using assms(3,4) by (auto simp: apply_ok_def xc_ok_def)
  have ops: "\<forall>p \<in> set (tx_operations t). operation_sized p" using assms(2) by (simp add: transaction_sized_def)
  have "operations_loop env (tx_operations t) (child_context nd c) \<noteq> (Threw Diverges, d)" for d
    using upholdsD(2) [OF operations_upholds [OF assms(1) ops]] child_context_ok(1) [OF assms(3,4) p]
    by (simp add: apply_ok_def)
  then show ?thesis
    using operations_in_child(4,5) [OF assms(1-4) p] temporary_squash_terminates operations_then_restore_eq [OF assms(3,4) p, of t]
    by (fastforce split: prod.splits outcome.splits if_splits)
qed

section \<open>Applying a transaction\<close>

text \<open>The cells a transaction may change.\<close>

definition transaction_writes :: "transaction \<Rightarrow> object_space \<Rightarrow> bytes \<Rightarrow> bool" where
  "transaction_writes t sp k \<longleftrightarrow> operation_space sp \<or> sp = transaction_nonce_space \<and> k = nonce_account t"

lemmas block_rules = upholds_simple [OF context_rel_preorder] upholds_andThen [OF context_rel_preorder] upholds_cases

lemma context_mono:
  fixes m :: "('m execution_context, 'x) op"
  assumes "upholds P (context_rel C) m" and "\<And>sp k. C sp k \<Longrightarrow> D sp k"
  shows "upholds P (context_rel D) m"
proof (rule upholdsI)
  fix c c' :: "'m execution_context" and x
  assume c: "P c" and run: "m c = (Returned x, c')"
  then have "P c' \<and> context_rel C c c'" using upholdsD(1) [OF assms(1) _ run] by simp
  then show "P c' \<and> context_rel D c c'" using context_rel_mono [of C c c' D] assms(2) by simp
qed (use upholdsD(2) [OF assms(1)] in blast)

text \<open>Parts of the context that no invariant speaks of, and the session.\<close>

lemma block_fields:
  "upholds (apply_ok env) (context_rel C) (modifies (\<lambda>c. c\<lparr>xc_transaction := Some t, xc_verified_signatures := []\<rparr>))"
  "upholds (apply_ok env) (context_rel C) (modifies (\<lambda>c. c\<lparr>xc_frame_recorder := r c\<rparr>))"
  "upholds (apply_ok env) (context_rel C) (make_session n)"
  "upholds (apply_ok env) (context_rel C) (modifies (\<lambda>c. drop_session (c\<lparr>xc_frame_recorder := r c\<rparr>)))"
  by (rule upholdsI; auto simp: op_defs apply_ok_def xc_ok_def context_rel_def preorder_relD(1) [OF state_rel_preorder] sigs_ok_def
      make_session_def drop_session_def set_session_def costs_ok_def costs_set_def)+

lemma scoped_session_upholds:
  fixes m :: "('m execution_context, 'x) op"
  assumes "upholds (apply_ok env) (context_rel C) m"
  shows "upholds (apply_ok env) (context_rel C) (scoped_session m)"
proof (rule upholdsI)
  fix c c' :: "'m execution_context" and x
  assume c: "apply_ok env c" and "scoped_session m c = (Returned x, c')"
  then obtain d where d: "m c = (Returned x, d)" "c' = drop_session d" by (auto simp: scoped_session_def split: prod.splits)
  then have "apply_ok env d \<and> context_rel C c d" using upholdsD(1) [OF assms c] by blast
  then show "apply_ok env c' \<and> context_rel C c c'"
    using d(2) by (auto simp: drop_session_def apply_ok_def xc_ok_def context_rel_def costs_ok_def set_session_def)
qed (use upholdsD(2) [OF assms] in \<open>auto simp: scoped_session_def split: prod.splits\<close>)

lemma account_nonce_upholds: "upholds (xc_ok sc n) (run_rel W) (account_nonce a)"
  unfolding account_nonce_def
  by (intro with_node run_rules run_read_object) (auto simp: bit_cast_u64_def split: option.splits)

lemma set_account_nonce_upholds:
  "upholds (apply_ok env) (context_rel (\<lambda>sp k. sp = transaction_nonce_space \<and> k = a))
     (set_account_nonce a x :: ('m execution_context, error_code) op)"
proof (rule upholdsI)
  fix c c' :: "'m execution_context" and e
  assume c: "apply_ok env c" and run: "set_account_nonce a x c = (Returned e, c')"
  then obtain nd p where p: "xc_state_node c = Some nd" "node_delta nd = Returned p" "live (xc_heap c) p" "heap_ok (xc_heap c)"
    by (auto simp: apply_ok_def xc_ok_def)
  then obtain m h where h: "node_put nd transaction_nonce_space a (u64_bytes x) (xc_heap c) = (Returned m, h)"
      "charge_disk m (c\<lparr>xc_heap := h\<rparr>) = (Returned e, c')"
    using run by (auto simp: set_account_nonce_def the_node_def on_heap_def op_defs split: prod.splits outcome.splits)
  note put = node_put_cell [OF p(4,3,2) space_simps(2) h(1)]
  have "node_view h p sp k = node_view (xc_heap c) p sp k"
    if "object_space_ok sp" "\<not> (sp = transaction_nonce_space \<and> k = a)" for sp k
    using put make_compound_key_inject [OF that(1) space_simps(2), of k a] that(2) by (auto simp: node_view_def)
  then have mid: "apply_ok env (c\<lparr>xc_heap := h\<rparr>)" "context_rel (\<lambda>sp k. sp = transaction_nonce_space \<and> k = a) c (c\<lparr>xc_heap := h\<rparr>)"
    using c put p by (auto simp: apply_ok_def xc_ok_def context_rel_def state_rel_def cell_rel_def delta_final_def)
  then show "apply_ok env c' \<and> context_rel (\<lambda>sp k. sp = transaction_nonce_space \<and> k = a) c c'"
    using upholdsD(1) [OF run_block [OF run_charges(2) [of _ _ "\<lambda>_. False"]] mid(1) h(2)]
      preorder_relD(2) [OF context_rel_preorder] by blast
next
  fix c c' :: "'m execution_context"
  assume c: "apply_ok env c"
  then obtain nd p where p: "xc_state_node c = Some nd" "node_delta nd = Returned p" "live (xc_heap c) p" "heap_ok (xc_heap c)"
    by (auto simp: apply_ok_def xc_ok_def)
  then show "set_account_nonce a x c \<noteq> (Threw Diverges, c')"
    using node_write_terminates(1) [OF p(4,3,2)] use_terminates c
    by (auto simp: set_account_nonce_def the_node_def on_heap_def op_defs charge_disk_def on_meter_def apply_ok_def xc_ok_def
        split: prod.splits outcome.splits)
qed

lemma require_authority_upholds:
  assumes "env_ok env" and "length a = 33" and "upholds (apply_ok env) (context_rel (transaction_writes t)) rest"
  shows "upholds (apply_ok env) (context_rel (transaction_writes t)) (require_authority env a rest)"
proof -
  have "upholds (apply_ok env) (context_rel (transaction_writes t)) (check_authority env a)"
    by (rule run_block [OF authority_upholds [OF assms(1,2)]]) (simp add: transaction_writes_def space_classes)
  then show ?thesis
    unfolding require_authority_def using assms(3) by (auto intro!: block_rules split: bool.split)
qed

lemma operations_restore_upholds:
  assumes "env_ok env" and "transaction_sized t"
  shows "upholds (at_node (apply_ok env) nd) (context_rel (\<lambda>sp _. operation_space sp)) (operations_then_restore env nd t)"
proof (rule upholdsI)
  fix c x c'
  assume c: "at_node (apply_ok env) nd c" and run: "operations_then_restore env nd t c = (Returned x, c')"
  then obtain p where p: "node_delta nd = Returned p" by (auto simp: at_node_def apply_ok_def xc_ok_def)
  show "at_node (apply_ok env) nd c' \<and> context_rel (\<lambda>sp _. operation_space sp) c c'"
    using operations_then_restore_run [OF assms _ _ p run] c by (simp add: at_node_def context_rel_def)
qed (use operations_terminate [OF assms] in \<open>auto simp: at_node_def\<close>)

lemma at_context: "upholds P (context_rel C) m \<Longrightarrow> upholds (at_node P nd) (context_rel C) m"
  by (rule at_node_upholds) (simp_all add: context_rel_def)

definition finish_receipt ::
  "transaction \<Rightarrow> resource_state \<Rightarrow> error_code \<Rightarrow> ('m execution_context, transaction_receipt result) op" where
  "finish_receipt t initial error =
     andThen (readsE (\<lambda>c. case rm_session (xc_resource_meter c) of
        None \<Rightarrow> Threw Null_dereference | Some s \<Rightarrow> Returned (session_used_resources s))) (\<lambda>used.
     andThen (reads (\<lambda>c. rm_remaining (xc_resource_meter c))) (\<lambda>remaining.
     andThen (reads (\<lambda>c. fr_frames (xc_frame_recorder c))) (\<lambda>frames.
     andThen (modifies (\<lambda>c. drop_session (c\<lparr>xc_frame_recorder := (xc_frame_recorder c)\<lparr>fr_frames := []\<rparr>\<rparr>))) (\<lambda>_.
     andThen (consume_account_resources (tx_payer t) used) (\<lambda>e.
     if is_error e then returns (Inl e)
     else returns (Inr (transaction_receipt_of t error frames used initial remaining)))))))"

lemma finish_transaction_eq:
  "finish_transaction env t initial =
     andThen the_node (\<lambda>nd. andThen (operations_then_restore env nd t) (finish_receipt t initial))"
  by (simp add: finish_transaction_def operations_then_restore_def finish_receipt_def andThen_assoc andThen_returns)

lemma finish_receipt_upholds: "upholds (apply_ok env) (context_rel C) (finish_receipt t initial e)"
  unfolding finish_receipt_def consume_account_resources_def
  by (intro block_rules block_fields) (simp split: option.split)

lemma finish_transaction_upholds:
  assumes "env_ok env" and "transaction_sized t"
  shows "upholds (apply_ok env) (context_rel (\<lambda>sp _. operation_space sp)) (finish_transaction env t initial)"
  unfolding finish_transaction_eq
  by (intro with_node block_rules operations_restore_upholds assms at_context finish_receipt_upholds)

lemma apply_transaction_upholds:
  assumes "env_ok env" and "transaction_sized t"
  shows "upholds (apply_ok env) (context_rel (transaction_writes t)) (apply_transaction env t)"
proof -
  have len: "length (tx_payer t) = 33" "length (tx_payee t) = 33" using assms(2) by (simp_all add: transaction_sized_def)
  have set: "upholds (apply_ok env) (context_rel (transaction_writes t)) (set_account_nonce (nonce_account t) x)" for x
    by (rule context_mono [OF set_account_nonce_upholds]) (simp add: transaction_writes_def)
  have fin: "upholds (apply_ok env) (context_rel (transaction_writes t)) (finish_transaction env t initial)" for initial
    by (rule context_mono [OF finish_transaction_upholds [OF assms]]) (simp add: transaction_writes_def)
  note none = run_block [of env "\<lambda>_. False"]
  have payee: "upholds (apply_ok env) (context_rel (transaction_writes t))
      ((if use_payee_nonce t then require_authority env (tx_payee t) else (\<lambda>rest. rest)) rest)"
    if "upholds (apply_ok env) (context_rel (transaction_writes t)) rest" for rest :: "('a execution_context, transaction_receipt result) op"
    using that require_authority_upholds [OF assms(1) len(2) that] by simp
  show ?thesis
    unfolding apply_transaction_def
    by (intro block_rules none [OF run_the_node] none [OF account_nonce_upholds] none [OF run_meters(3)]
        block_fields scoped_session_upholds require_authority_upholds [OF assms(1) len(1)] payee set fin) simp_all
qed

section \<open>Accepted transactions\<close>

definition nonce_at :: "heap \<Rightarrow> ptr \<Rightarrow> account \<Rightarrow> u64 outcome" where
  "nonce_at h p a =
     (case node_view h p transaction_nonce_space a of None \<Rightarrow> Returned 0 | Some nonce_bytes \<Rightarrow> bit_cast_u64 nonce_bytes)"

lemma account_nonce_run:
  assumes "xc_ok sc n c" and "xc_state_node c = Some nd" and "node_delta nd = Returned p"
  shows "account_nonce a c = (nonce_at (xc_heap c) p a, c)"
proof -
  have "live (xc_heap c) p" "heap_ok (xc_heap c)" using assms by (auto simp: xc_ok_def)
  then show ?thesis
    using assms(2,3)
    by (simp add: account_nonce_def the_node_def read_object_def op_defs nonce_at_def node_get_def node_view_def delta_get_view
        split: option.split)
qed

lemma set_account_nonce_run:
  fixes c c' :: "'m execution_context"
  assumes "apply_ok env c" and "xc_state_node c = Some nd" and "node_delta nd = Returned p"
    and "set_account_nonce a x c = (Returned e, c')"
  shows "nonce_at (xc_heap c') p a = Returned x"
proof -
  have p: "live (xc_heap c) p" "heap_ok (xc_heap c)" using assms by (auto simp: apply_ok_def xc_ok_def)
  obtain m h where h: "node_put nd transaction_nonce_space a (u64_bytes x) (xc_heap c) = (Returned m, h)"
      "charge_disk m (c\<lparr>xc_heap := h\<rparr>) = (Returned e, c')"
    using assms(2,4) by (auto simp: set_account_nonce_def the_node_def on_heap_def op_defs split: prod.splits outcome.splits)
  have "xc_heap c' = h" using h(2) by (auto simp: charge_disk_def on_meter_def split: prod.splits)
  then show ?thesis
    using node_put_cell [OF p(2,1) assms(3) space_simps(2) h(1)] by (simp add: nonce_at_def node_view_def bit_cast_u64_bytes)
qed

text \<open>The steps of an accepted transaction.\<close>

definition transaction_context :: "transaction \<Rightarrow> 'm execution_context \<Rightarrow> 'm execution_context" where
  "transaction_context t c = snd (make_session (tx_resource_limit t) (c\<lparr>xc_transaction := Some t, xc_verified_signatures := []\<rparr>))"

lemma require_authority_Inr:
  "require_authority env a rest c = (Returned (Inr x), c') \<longleftrightarrow>
     (\<exists>d. check_authority env a c = (Returned (Inr True), d) \<and> rest d = (Returned (Inr x), c'))"
  by (auto simp: require_authority_def op_defs split: prod.splits outcome.splits sum.splits bool.splits)

lemma apply_transaction_steps:
  fixes c c' :: "'m execution_context"
  assumes "apply_transaction env t c = (Returned (Inr receipt), c')"
  obtains c1 c2 x c3 e c4 e' c5 c6 where
    "check_authority env (tx_payer t) (transaction_context t c) = (Returned (Inr True), c1)"
    "if use_payee_nonce t then check_authority env (tx_payee t) c1 = (Returned (Inr True), c2) else c2 = c1"
    "account_nonce (nonce_account t) c2 = (Returned x, c3)" "x + 1 = tx_nonce t"
    "set_account_nonce (nonce_account t) (tx_nonce t) c3 = (Returned e, c4)" "\<not> is_error e"
    "on_meter (use_network_bandwidth (word_of_nat (transaction_size t))) c4 = (Returned e', c5)"
    "finish_transaction env t (rm_remaining (xc_resource_meter c)) c5 = (Returned (Inr receipt), c6)" "c' = drop_session c6"
proof -
  define rest where "rest = (\<lambda>initial. andThen (account_nonce (nonce_account t)) (\<lambda>nonce.
     if nonce + 1 \<noteq> tx_nonce t then returns (Inl (controller_error Controller_invalid_nonce))
     else
       andThen (set_account_nonce (nonce_account t) (tx_nonce t)) (\<lambda>error.
       if is_error error then returns (Inl error)
       else
         andThen (on_meter (use_network_bandwidth (word_of_nat (transaction_size t)))) (\<lambda>error.
         if is_error error then returns (Inl error) else finish_transaction env t initial))))"
  define pay where "pay = (\<lambda>initial. require_authority env (tx_payer t)
      ((if use_payee_nonce t then require_authority env (tx_payee t) else (\<lambda>rest. rest)) (rest initial)))"
  have "apply_transaction env t =
     andThen the_node (\<lambda>_.
     andThen (modifies (\<lambda>c. c\<lparr>xc_transaction := Some t, xc_verified_signatures := []\<rparr>)) (\<lambda>_.
     andThen (reads (\<lambda>c. rm_remaining (xc_resource_meter c))) (\<lambda>initial.
     scoped_session
       (andThen (make_session (tx_resource_limit t)) (\<lambda>_.
        if account_resources (tx_payer t) < tx_resource_limit t
        then returns (Inl (controller_error Controller_insufficient_resources)) else pay initial)))))"
    unfolding apply_transaction_def rest_def pay_def by (rule refl)
  then obtain c6 where c6: "pay (rm_remaining (xc_resource_meter c)) (transaction_context t c) = (Returned (Inr receipt), c6)"
      "c' = drop_session c6"
    using assms
    by (auto simp: the_node_def scoped_session_def make_session_def transaction_context_def op_defs
        split: prod.splits option.splits if_splits)
  let ?rest = "rest (rm_remaining (xc_resource_meter c))"
  obtain c1 where c1: "check_authority env (tx_payer t) (transaction_context t c) = (Returned (Inr True), c1)"
      "(if use_payee_nonce t then require_authority env (tx_payee t) else (\<lambda>rest. rest)) ?rest c1 = (Returned (Inr receipt), c6)"
    using c6(1) unfolding pay_def require_authority_Inr by blast
  then obtain c2 where c2: "if use_payee_nonce t then check_authority env (tx_payee t) c1 = (Returned (Inr True), c2) else c2 = c1"
      "?rest c2 = (Returned (Inr receipt), c6)"
    by (cases "use_payee_nonce t") (auto simp: require_authority_Inr)
  from c2(2) obtain x c3 e c4 e' c5 where
    "account_nonce (nonce_account t) c2 = (Returned x, c3)" "x + 1 = tx_nonce t"
    "set_account_nonce (nonce_account t) (tx_nonce t) c3 = (Returned e, c4)" "\<not> is_error e"
    "on_meter (use_network_bandwidth (word_of_nat (transaction_size t))) c4 = (Returned e', c5)"
    "finish_transaction env t (rm_remaining (xc_resource_meter c)) c5 = (Returned (Inr receipt), c6)"
    by (auto simp: rest_def andThen_Returned_iff returns_def split: if_splits)
  then show thesis using that c1(1) c2(1) c6(2) by blast
qed


lemma transaction_context_ok:
  assumes "apply_ok env c"
  shows "apply_ok env (transaction_context t c)" and "context_rel C c (transaction_context t c)"
    and "xc_heap (transaction_context t c) = xc_heap c" and "xc_transaction (transaction_context t c) = Some t"
  using assms
  by (auto simp: transaction_context_def make_session_def op_defs apply_ok_def xc_ok_def context_rel_def sigs_ok_def
      set_session_def costs_ok_def costs_set_def preorder_relD(1) [OF state_rel_preorder])

text \<open>An operation error leaves the node as the transaction's own bookkeeping left it.\<close>

lemma finish_transaction_reverted:
  fixes c c' :: "'m execution_context"
  assumes "env_ok env" and "transaction_sized t" and "apply_ok env c" and "xc_state_node c = Some nd"
    and "node_delta nd = Returned p" and "finish_transaction env t initial c = (Returned (Inr receipt), c')"
    and "tr_reverted receipt"
  shows "view (xc_heap c') p = view (xc_heap c) p"
proof -
  obtain e d where d: "operations_then_restore env nd t c = (Returned e, d)"
      "finish_receipt t initial e d = (Returned (Inr receipt), c')"
    using assms(4,6) by (auto simp: finish_transaction_eq the_node_def op_defs split: prod.splits outcome.splits)
  have "xc_heap c' = xc_heap d" "is_error e"
    using d(2) assms(7)
    by (auto simp: finish_receipt_def consume_account_resources_def transaction_receipt_of_def drop_session_def is_error_def
        op_defs split: option.splits if_splits)
  then show ?thesis using operations_then_restore_run(3) [OF assms(1-5) d(1)] by simp
qed

lemma drop_session_heap [simp]: "xc_heap (drop_session c) = xc_heap c" "xc_state_node (drop_session c) = xc_state_node c"
  by (simp_all add: drop_session_def)

text \<open>The views at every step of an accepted transaction.\<close>

lemma accepted_views:
  fixes c c' :: "'m execution_context"
  assumes "env_ok env" and "transaction_sized t" and "apply_ok env c" and "xc_state_node c = Some nd"
    and "node_delta nd = Returned p" and "apply_transaction env t c = (Returned (Inr receipt), c')"
  obtains c2 c5 c6 :: "'m execution_context" and initial where
    "nonce_at (xc_heap c2) p (nonce_account t) = Returned (tx_nonce t - 1)"
    "state_rel (\<lambda>sp _. user_space sp) p (xc_heap c) (xc_heap c2)"
    "state_rel (\<lambda>sp k. sp = transaction_nonce_space \<and> k = nonce_account t) p (xc_heap c2) (xc_heap c5)"
    "nonce_at (xc_heap c5) p (nonce_account t) = Returned (tx_nonce t)"
    "state_rel (\<lambda>sp _. operation_space sp) p (xc_heap c5) (xc_heap c')"
    "tr_reverted receipt \<Longrightarrow> view (xc_heap c') p = view (xc_heap c5) p"
    "apply_ok env c5" "xc_state_node c5 = Some nd" "finish_transaction env t initial c5 = (Returned (Inr receipt), c6)"
    "xc_heap c' = xc_heap c6"
proof -
  obtain c1 c2 x c3 e c4 e' c5 c6 where s:
    "check_authority env (tx_payer t) (transaction_context t c) = (Returned (Inr True), c1)"
    "if use_payee_nonce t then check_authority env (tx_payee t) c1 = (Returned (Inr True), c2) else c2 = c1"
    "account_nonce (nonce_account t) c2 = (Returned x, c3)" "x + 1 = tx_nonce t"
    "set_account_nonce (nonce_account t) (tx_nonce t) c3 = (Returned e, c4)" "\<not> is_error e"
    "on_meter (use_network_bandwidth (word_of_nat (transaction_size t))) c4 = (Returned e', c5)"
    "finish_transaction env t (rm_remaining (xc_resource_meter c)) c5 = (Returned (Inr receipt), c6)" "c' = drop_session c6"
    using apply_transaction_steps [OF assms(6)] .
  let ?U = "\<lambda>sp (_ :: bytes). user_space sp"
  have len: "length (tx_payer t) = 33" "length (tx_payee t) = 33" using assms(2) by (simp_all add: transaction_sized_def)
  have auth: "upholds (apply_ok env) (context_rel ?U) (check_authority env a)" if "length a = 33" for a
    by (rule run_block [OF authority_upholds [OF assms(1) that]])
  note tr = preorder_relD(2) [OF context_rel_preorder]
  note c0 = transaction_context_ok(1) [OF assms(3), of t] transaction_context_ok(2) [OF assms(3), of ?U t]
  have c1: "apply_ok env c1" "context_rel ?U c c1"
    using upholdsD(1) [OF auth [OF len(1)] c0(1) s(1)] tr [OF c0(2)] by blast+
  have c2: "apply_ok env c2" "context_rel ?U c c2"
    using upholdsD(1) [OF auth [OF len(2)] c1(1)] s(2) c1 tr [OF c1(2)] by (cases "use_payee_nonce t"; fastforce)+
  have n2: "xc_state_node c2 = Some nd" using c2(2) assms(4) by (simp add: context_rel_def)
  have c3: "c3 = c2" "nonce_at (xc_heap c2) p (nonce_account t) = Returned x"
    using account_nonce_run [OF _ n2 assms(5)] c2(1) s(3) by (auto simp: apply_ok_def)
  have c4: "apply_ok env c4" "context_rel (\<lambda>sp k. sp = transaction_nonce_space \<and> k = nonce_account t) c2 c4"
    using upholdsD(1) [OF set_account_nonce_upholds c2(1)] s(5) c3(1) by blast+
  have n4: "xc_state_node c4 = Some nd" using c4(2) n2 by (simp add: context_rel_def)
  obtain m where m: "c5 = c4\<lparr>xc_resource_meter := m\<rparr>" using s(7) by (auto simp: on_meter_def split: prod.splits)
  have c5: "apply_ok env c5" "xc_state_node c5 = Some nd"
    using upholdsD(1) [OF run_block [OF run_meters(3) [of _ _ "\<lambda>_. False"]] c4(1) s(7)] n4 m by auto
  have c6: "context_rel (\<lambda>sp _. operation_space sp) c5 c6"
    using upholdsD(1) [OF finish_transaction_upholds [OF assms(1,2)] c5(1) s(8)] by blast
  show thesis
  proof (rule that [of c2 c5 "rm_remaining (xc_resource_meter c)" c6])
    show "nonce_at (xc_heap c2) p (nonce_account t) = Returned (tx_nonce t - 1)" using c3(2) s(4) by (simp add: eq_diff_eq)
    show "state_rel ?U p (xc_heap c) (xc_heap c2)" using c2(2) assms(4,5) by (simp add: context_rel_def)
    show "state_rel (\<lambda>sp k. sp = transaction_nonce_space \<and> k = nonce_account t) p (xc_heap c2) (xc_heap c5)"
      using c4(2) n2 assms(5) m by (simp add: context_rel_def)
    show "nonce_at (xc_heap c5) p (nonce_account t) = Returned (tx_nonce t)"
      using set_account_nonce_run [OF c2(1) n2 assms(5)] s(5) c3(1) m by simp
    show "state_rel (\<lambda>sp _. operation_space sp) p (xc_heap c5) (xc_heap c')"
      using c6 c5(2) assms(5) s(9) by (simp add: context_rel_def)
    show "view (xc_heap c') p = view (xc_heap c5) p" if "tr_reverted receipt"
      using finish_transaction_reverted [OF assms(1,2) c5 assms(5) s(8) that] s(9) by simp
    show "apply_ok env c5" "xc_state_node c5 = Some nd"
      "finish_transaction env t (rm_remaining (xc_resource_meter c)) c5 = (Returned (Inr receipt), c6)" "xc_heap c' = xc_heap c6"
      using c5 s(8,9) by simp_all
  qed
qed

lemma nonce_at_rel:
  "state_rel C p h h' \<Longrightarrow> \<not> C transaction_nonce_space a \<Longrightarrow> nonce_at h' p a = nonce_at h p a"
  using space_simps(2) by (simp add: state_rel_def nonce_at_def)

lemma accepted_nonces:
  fixes c c' :: "'m execution_context"
  assumes "env_ok env" and "transaction_sized t" and "apply_ok env c" and "xc_state_node c = Some nd"
    and "node_delta nd = Returned p" and "apply_transaction env t c = (Returned (Inr receipt), c')"
  shows "nonce_at (xc_heap c) p (nonce_account t) = Returned (tx_nonce t - 1)"
    and "nonce_at (xc_heap c') p (nonce_account t) = Returned (tx_nonce t)"
    and "a \<noteq> nonce_account t \<Longrightarrow> nonce_at (xc_heap c') p a = nonce_at (xc_heap c) p a"
proof -
  obtain c2 c5 :: "'m execution_context" where v:
    "nonce_at (xc_heap c2) p (nonce_account t) = Returned (tx_nonce t - 1)"
    "state_rel (\<lambda>sp _. user_space sp) p (xc_heap c) (xc_heap c2)"
    "state_rel (\<lambda>sp k. sp = transaction_nonce_space \<and> k = nonce_account t) p (xc_heap c2) (xc_heap c5)"
    "nonce_at (xc_heap c5) p (nonce_account t) = Returned (tx_nonce t)"
    "state_rel (\<lambda>sp _. operation_space sp) p (xc_heap c5) (xc_heap c')"
    using accepted_views [OF assms] by metis
  note n = nonce_at_rel [OF v(2)] nonce_at_rel [OF v(3)] nonce_at_rel [OF v(5)]
  show "nonce_at (xc_heap c) p (nonce_account t) = Returned (tx_nonce t - 1)"
    "nonce_at (xc_heap c') p (nonce_account t) = Returned (tx_nonce t)"
    "a \<noteq> nonce_account t \<Longrightarrow> nonce_at (xc_heap c') p a = nonce_at (xc_heap c) p a"
    using v(1,4) n space_classes by simp_all
qed

text \<open>The account whose nonce a transaction uses: its payee unless that is all zeros.\<close>

lemma nonce_account_payee:
  assumes "transaction_sized t"
  shows "nonce_account t = (if tx_payee t = replicate 33 0 then tx_payer t else tx_payee t)"
    and "use_payee_nonce t \<longleftrightarrow> tx_payee t \<noteq> replicate 33 0"
proof -
  have "tx_payee t = replicate 33 0 \<longleftrightarrow> (\<forall>b \<in> set (tx_payee t). b = 0)"
    using assms by (auto simp: transaction_sized_def intro: replicate_eqI)
  then show "use_payee_nonce t \<longleftrightarrow> tx_payee t \<noteq> replicate 33 0" by (auto simp: use_payee_nonce_def)
  then show "nonce_account t = (if tx_payee t = replicate 33 0 then tx_payer t else tx_payee t)"
    by (simp add: nonce_account_def)
qed

text \<open>Payer and payee of an accepted transaction signed it, unless they are programs.\<close>

lemma accepted_signed:
  fixes c c' :: "'m execution_context"
  assumes "env_ok env" and "transaction_sized t" and "apply_ok env c"
    and "apply_transaction env t c = (Returned (Inr receipt), c')"
    and "a = tx_payer t \<or> a = tx_payee t \<and> use_payee_nonce t" and "\<not> account_view_is_program a"
  shows "\<exists>x \<in> set (tx_authorizations t). au_signer x = a \<and> signed_by (ne_scheme env) t x"
proof -
  obtain c1 c2 where c1: "check_authority env (tx_payer t) (transaction_context t c) = (Returned (Inr True), c1)"
    and c2: "if use_payee_nonce t then check_authority env (tx_payee t) c1 = (Returned (Inr True), c2) else c2 = c1"
    by (rule apply_transaction_steps [OF assms(4)])
  have ok: "context_ok env (transaction_context t c)"
    using transaction_context_ok(1) [OF assms(3), of t] by (simp add: apply_ok_def)
  have "length (tx_payer t) = 33" using assms(2) by (simp add: transaction_sized_def)
  then have c1': "context_ok env c1" "run_rel user_space (transaction_context t c) c1"
    using upholdsD(1) [OF authority_upholds [OF assms(1)] ok c1] by blast+
  have t: "xc_transaction (transaction_context t c) = Some t" by (rule transaction_context_ok(4) [OF assms(3)])
  then have t1: "xc_transaction c1 = Some t" using c1'(2) by (simp add: run_rel_def xc_rel_def)
  have sigs: "sigs_ok (ne_scheme env) (xc_transaction d) (xc_verified_signatures d)" if "context_ok env d" for d
    using that by (simp add: xc_ok_def)
  show ?thesis
  proof (cases "a = tx_payer t")
    case True
    then show ?thesis using check_authority_signed [OF sigs [OF ok] c1] assms(6) unfolding t by blast
  next
    case False
    then have "check_authority env a c1 = (Returned (Inr True), c2)" using assms(5) c2 by simp
    from check_authority_signed [OF sigs [OF c1'(1)] this assms(6)] show ?thesis unfolding t1 by blast
  qed
qed

section \<open>Blocks\<close>


definition nonce_count :: "account \<Rightarrow> transaction list \<Rightarrow> nat" where
  "nonce_count a ts = length (filter (\<lambda>t. nonce_account t = a) ts)"

lemma transactions_loop_upholds:
  assumes "env_ok env" and "\<forall>t \<in> set ts. transaction_sized t"
  shows "upholds (apply_ok env) (context_rel (\<lambda>sp k. \<exists>t \<in> set ts. transaction_writes t sp k)) (transactions_loop env ts)"
  using assms(2)
proof (induction ts)
  case Nil
  then show ?case by (simp add: block_rules)
next
  case (Cons t ts)
  let ?C = "\<lambda>sp k. \<exists>t \<in> set (t # ts). transaction_writes t sp k"
  have "upholds (apply_ok env) (context_rel ?C) (transactions_loop env ts)"
    by (rule context_mono [OF Cons.IH]) (use Cons.prems in auto)
  moreover have "upholds (apply_ok env) (context_rel ?C) (apply_transaction env t)"
    by (rule context_mono [OF apply_transaction_upholds [OF assms(1)]]) (use Cons.prems in auto)
  ultimately show ?case by (simp only: transactions_loop.simps) (intro block_rules)
qed

lemma transactions_loop_length: "transactions_loop env ts c = (Returned (Inr receipts), c') \<Longrightarrow> length receipts = length ts"
  by (induction ts arbitrary: c receipts) (auto simp: op_defs split: prod.splits outcome.splits sum.splits)

lemma transactions_loop_nonces:
  fixes c c' :: "'m execution_context"
  assumes "env_ok env" and "\<forall>t \<in> set ts. transaction_sized t" and "apply_ok env c" and "xc_state_node c = Some nd"
    and "node_delta nd = Returned p" and "transactions_loop env ts c = (Returned (Inr receipts), c')"
    and "nonce_at (xc_heap c) p a = Returned n"
  shows "nonce_at (xc_heap c') p a = Returned (n + of_nat (nonce_count a ts))"
  using assms(2-7)
proof (induction ts arbitrary: c n receipts)
  case Nil
  then show ?case by (simp add: op_defs nonce_count_def)
next
  case (Cons t ts)
  obtain r rs d where d: "apply_transaction env t c = (Returned (Inr r), d)" "transactions_loop env ts d = (Returned (Inr rs), c')"
      "receipts = r # rs"
    using Cons.prems(5) by (auto simp: op_defs split: prod.splits outcome.splits sum.splits)
  have t: "transaction_sized t" "\<forall>t \<in> set ts. transaction_sized t" using Cons.prems(1) by simp_all
  have ok: "apply_ok env d" "xc_state_node d = Some nd"
    using upholdsD(1) [OF apply_transaction_upholds [OF assms(1) t(1)] Cons.prems(2) d(1)] Cons.prems(3)
    by (simp_all add: context_rel_def)
  note acc = accepted_nonces [OF assms(1) t(1) Cons.prems(2-4) d(1)]
  have "nonce_at (xc_heap d) p a = Returned (n + of_nat (if nonce_account t = a then 1 else 0))"
    using acc(1,2) acc(3) [of a] Cons.prems(6) by (cases "nonce_account t = a") auto
  note ih = Cons.IH [OF t(2) ok Cons.prems(4) d(2) this]
  then show ?case by (auto simp: nonce_count_def algebra_simps)
qed



lemma apply_block_run:
  fixes c c' :: "'m execution_context"
  assumes "env_ok env" and "\<forall>t \<in> set (bl_transactions b). transaction_sized t" and "context_ok env c"
    and "xc_state_node c = Some nd" and "node_delta nd = Returned p" and "apply_block env b c = (r, c')"
  shows "r \<noteq> Threw Diverges
     \<and> (case r of
          Returned (Inr receipt) \<Rightarrow>
            node_view (xc_heap c) p metadata_space (genesis_key (ne_hash env)) = Some (account_public_key (bl_signer b))
            \<and> length (br_transaction_receipts receipt) = length (bl_transactions b)
            \<and> (\<forall>a n. nonce_at (xc_heap c) p a = Returned n \<longrightarrow>
                 nonce_at (xc_heap c') p a = Returned (n + of_nat (nonce_count a (bl_transactions b))))
            \<and> apply_ok env c'
            \<and> context_rel (\<lambda>sp k. \<exists>t \<in> set (bl_transactions b). transaction_writes t sp k)
                (c\<lparr>xc_resource_meter := set_resource_limits default_resource_limits (xc_resource_meter c)\<rparr>) c'
        | _ \<Rightarrow> True)"
proof -
  let ?c = "c\<lparr>xc_resource_meter := set_resource_limits default_resource_limits (xc_resource_meter c)\<rparr>"
  let ?C = "\<lambda>sp k. \<exists>t \<in> set (bl_transactions b). transaction_writes t sp k"
  have live: "live (xc_heap c) p" "heap_ok (xc_heap c)" using assms(3-5) by (auto simp: xc_ok_def)
  have ok: "apply_ok env ?c" "xc_state_node ?c = Some nd" "xc_heap ?c = xc_heap c"
    using assms(3,4)
    by (auto simp: apply_ok_def xc_ok_def costs_set_def costs_ok_def set_resource_limits_def default_resource_limits_def)
  note loop = transactions_loop_upholds [OF assms(1,2)]
  let ?k = "node_view (xc_heap c) p metadata_space (genesis_key (ne_hash env))"
  have key: "read_object nd metadata_space (genesis_key (ne_hash env)) ?c = (Returned ?k, ?c)"
    using live assms(5) by (simp add: read_object_def op_defs node_get_def node_view_def delta_get_view)
  show ?thesis
  proof (cases "?k = Some (account_public_key (bl_signer b))")
    case False
    then show ?thesis
      using assms(4,6) key by (auto simp: apply_block_def the_node_def op_defs split: option.splits)
  next
    case True
    obtain x d where d: "transactions_loop env (bl_transactions b) ?c = (x, d)" by fastforce
    have nd: "x \<noteq> Threw Diverges" using upholdsD(2) [OF loop ok(1)] d by auto
    show ?thesis
    proof (cases "\<exists>rs. x = Returned (Inr rs)")
      case False
      then show ?thesis
        using assms(4,6) key True d nd
        by (auto simp: apply_block_def the_node_def op_defs split: outcome.splits sum.splits)
    next
      case True
      then obtain rs where rs: "x = Returned (Inr rs)" by blast
      have "apply_ok env d \<and> context_rel ?C ?c d" using upholdsD(1) [OF loop ok(1)] d rs by blast
      moreover have "nonce_at (xc_heap d) p a = Returned (n + of_nat (nonce_count a (bl_transactions b)))"
        if "nonce_at (xc_heap c) p a = Returned n" for a n
        using transactions_loop_nonces [OF assms(1,2) ok(1,2) assms(5) d [unfolded rs]] that ok(3) by simp
      moreover have "length rs = length (bl_transactions b)"
        by (rule transactions_loop_length [OF d [unfolded rs]])
      ultimately show ?thesis
        using assms(4,6) key \<open>?k = _\<close> d rs
        by (auto simp: apply_block_def the_node_def op_defs block_receipt_of_def Let_def apply_ok_def xc_ok_def context_rel_def)
    qed
  qed
qed

lemma block_read_object: "upholds (at_node (apply_ok env) nd) (context_rel C) (read_object nd sp k)"
  unfolding read_object_def
proof (rule upholds_simple(4) [OF context_rel_preorder])
  fix c :: "'a execution_context"
  assume "at_node (apply_ok env) nd c"
  then show "node_get (xc_heap c) nd sp k \<noteq> Threw Diverges"
    by (auto simp: at_node_def apply_ok_def xc_ok_def node_get_def delta_get_view)
qed

lemma apply_block_keeps:
  fixes c c' :: "'m execution_context"
  assumes "env_ok env" and "\<forall>t \<in> set (bl_transactions b). transaction_sized t" and "context_ok env c"
    and "apply_block env b c = (Returned r, c')"
  shows "apply_ok env c'" and "context_rel (\<lambda>sp k. \<exists>t \<in> set (bl_transactions b). transaction_writes t sp k)
      (c\<lparr>xc_resource_meter := set_resource_limits default_resource_limits (xc_resource_meter c)\<rparr>) c'"
proof -
  let ?C = "\<lambda>sp k. \<exists>t \<in> set (bl_transactions b). transaction_writes t sp k"
  let ?limit = "\<lambda>c :: 'm execution_context. c\<lparr>xc_resource_meter := set_resource_limits default_resource_limits (xc_resource_meter c)\<rparr>"
  define rest where "rest = (\<lambda>n. andThen (reads (\<lambda>c. rm_remaining (xc_resource_meter c))) (\<lambda>start.
     andThen (read_object n metadata_space (genesis_key (ne_hash env))) (\<lambda>key.
     case key of
       None \<Rightarrow> throws (Runtime_error ''genesis address not found'')
     | Some k \<Rightarrow>
         if k \<noteq> account_public_key (bl_signer b) then returns (Inl (controller_error Controller_invalid_signature))
         else
           andThen (transactions_loop env (bl_transactions b)) (\<lambda>r.
           case r of
             Inl e \<Rightarrow> returns (Inl e)
           | Inr receipts \<Rightarrow>
               andThen (reads (\<lambda>c. rm_remaining (xc_resource_meter c))) (\<lambda>end_resources.
               andThen (reads (\<lambda>c. fr_frames (xc_frame_recorder c))) (\<lambda>frames.
               andThen (modifies (\<lambda>c. c\<lparr>xc_frame_recorder := (xc_frame_recorder c)\<lparr>fr_frames := []\<rparr>\<rparr>)) (\<lambda>_.
               returns (Inr (block_receipt_of b receipts frames start end_resources)))))))))"
  have eq: "apply_block env b = andThen the_node (\<lambda>n. andThen (modifies ?limit) (\<lambda>_. rest n))"
    unfolding apply_block_def rest_def by (rule refl)
  have up: "upholds (at_node (apply_ok env) nd) (context_rel ?C) (rest nd)" for nd
    unfolding rest_def
    by (intro block_rules block_read_object at_context transactions_loop_upholds assms(1,2) block_fields) simp
  obtain nd where nd: "xc_state_node c = Some nd" "rest nd (?limit c) = (Returned r, c')"
    using assms(4) by (auto simp: eq the_node_def op_defs split: option.splits)
  have "at_node (apply_ok env) nd (?limit c)"
    using assms(3) nd(1)
    by (auto simp: at_node_def apply_ok_def xc_ok_def costs_set_def costs_ok_def set_resource_limits_def default_resource_limits_def)
  from upholdsD(1) [OF up this nd(2)] show "apply_ok env c'" "context_rel ?C (?limit c) c'" by (auto simp: at_node_def)
qed

section \<open>Sample transactions\<close>

lemma sample_apply_ok: "apply_ok sample_env sample_context"
  using sample_context_ok [of sample_env]
  by (simp add: apply_ok_def costs_set_def sample_context_def set_resource_limits_def default_resource_limits_def)

definition sample_call :: "u64 \<Rightarrow> transaction" where
  "sample_call n = signed_transaction n [coin_input 1 []]"

lemma sample_call_sized: "transaction_sized (sample_call n)"
  using length_coin_account
  by (simp add: transaction_sized_def sample_call_def signed_transaction_def sample_transaction_def sample_payer_def
      user_account_def coin_input_def)

lemma sample_call_accepted:
  "\<exists>r c'. apply_transaction sample_env (sample_call 1) sample_context = (Returned (Inr r), c')
     \<and> (\<exists>r' c''. apply_transaction sample_env (sample_call 2) c' = (Returned (Inr r'), c''))"
proof -
  have "case apply_transaction sample_env (sample_call 1) sample_context of
      (Returned (Inr r), c') \<Rightarrow> (case fst (apply_transaction sample_env (sample_call 2) c') of Returned (Inr r) \<Rightarrow> True | _ \<Rightarrow> False)
    | _ \<Rightarrow> False"
    by code_simp
  then show ?thesis by (fastforce simp: prod_eq_iff split: prod.splits outcome.splits sum.splits)
qed

lemma sample_state_node: "xc_state_node sample_context = Some (Permanent_node 3)"
  by (simp add: sample_context_def set_state_node_def)




definition genesis_context :: "bytes execution_context" where
  "genesis_context =
     snd (on_heap (node_put (Permanent_node 3) metadata_space (genesis_key (ne_hash sample_env)) (replicate 32 1)) sample_context)"

definition call_block :: block where
  "call_block = (sample_block 1)\<lparr>bl_transactions := [sample_call 1]\<rparr>"

lemma genesis_context_ok:
  "context_ok sample_env genesis_context" "xc_state_node genesis_context = Some (Permanent_node 3)"
proof -
  have put: "upholds (at_node (context_ok sample_env) (Permanent_node 3)) (run_rel (\<lambda>_. True))
      (on_heap (node_put (Permanent_node 3) metadata_space (genesis_key (ne_hash sample_env)) (replicate 32 1)))"
    by (rule run_put) (simp_all add: space_simps)
  obtain m h where h: "node_put (Permanent_node 3) metadata_space (genesis_key (ne_hash sample_env)) (replicate 32 1) sample_heap
      = (Returned m, h)"
    using node_put_run [OF sample_heap_ok sample_live(2) sample_queries(1), of "Permanent_node 3"] by fastforce
  have heap: "xc_heap sample_context = sample_heap" by (simp add: sample_context_def set_state_node_def execution_context_new_def)
  show "context_ok sample_env genesis_context" "xc_state_node genesis_context = Some (Permanent_node 3)"
    using upholdsD(1) [OF put, of sample_context m "sample_context\<lparr>xc_heap := h\<rparr>"] sample_context_ok [of sample_env] sample_state_node h heap
    by (simp_all add: at_node_def on_heap_def genesis_context_def)
qed


end
