(* ===== verification/Ledger.thy ===== *)
theory Ledger
  imports Transactions
begin

text \<open>
  The coins of the node: the execution context provides the object store the coin program relies on, so that
  every run of a program, every transaction and every block takes the ledger that the state
  node shows through steps of the specification of \<open>program/coin.cpp\<close>, and the supply is always the sum of all balances.
\<close>

section \<open>The objects of the coin program\<close>

definition coin_object :: "heap \<Rightarrow> ptr \<Rightarrow> u32 \<Rightarrow> bytes \<Rightarrow> bytes" where
  "coin_object h p i k =
     (case object_space_of coin_account i of
        Threw e \<Rightarrow> []
      | Returned sp \<Rightarrow> (case node_view h p sp k of None \<Rightarrow> [] | Some v \<Rightarrow> v))"

definition context_object :: "'m execution_context \<Rightarrow> u32 \<Rightarrow> bytes \<Rightarrow> bytes" where
  "context_object c =
     (case xc_state_node c of
        None \<Rightarrow> (\<lambda>_ _. [])
      | Some nd \<Rightarrow> (case node_delta nd of Threw e \<Rightarrow> (\<lambda>_ _. []) | Returned p \<Rightarrow> coin_object (xc_heap c) p))"

definition coin_body :: "nat \<Rightarrow> ('m, 'k) node_env \<Rightarrow> 'm execution_context \<Rightarrow> bool" where
  "coin_body n env c \<longleftrightarrow> env_ok env \<and> body_of (ne_scheme env) n coin_account c"

lemma coin_account_type: "account_get_type coin_account = Account_native_program" "hd coin_account = native_program_account_prefix"
  by code_simp+

lemma coin_space:
  obtains sp where "object_space_of coin_account i = Returned sp" "object_space_ok sp" "\<not> user_space sp" "writes_of coin_account sp"
    "\<not> os_system sp"
proof -
  have len: "length coin_account = 33" by (rule length_coin_account)
  obtain sp where sp: "object_space_of coin_account i = Returned sp" using len by (auto simp: object_space_of_def Let_def)
  note ok = object_space_of_ok [OF len sp]
  have "hd (os_address sp) = native_program_account_prefix"
    using ok(2) coin_account_type(2) len by (cases coin_account) auto
  then have "\<not> user_space sp" by (simp add: user_space_def native_program_account_prefix_def program_account_prefix_def)
  then show thesis
    using that [OF sp ok(1)] ok writes_of_space [OF len _ sp] coin_account_type(1) by simp
qed

text \<open>Objects stay when the heap shows the coin program's spaces unchanged.\<close>

lemma coin_object_cong:
  assumes "\<And>sp k. object_space_ok sp \<Longrightarrow> \<not> user_space sp \<Longrightarrow> \<not> os_system sp \<Longrightarrow> node_view h' p sp k = node_view h p sp k"
  shows "coin_object h' p = coin_object h p"
proof (intro ext)
  fix i k
  obtain sp where "object_space_of coin_account i = Returned sp" "object_space_ok sp" "\<not> user_space sp" "\<not> os_system sp"
    by (rule coin_space)
  then show "coin_object h' p i k = coin_object h p i k" using assms by (simp add: coin_object_def)
qed

lemma coin_body_node:
  assumes "coin_body n env c"
  obtains nd p where "xc_state_node c = Some nd" "node_delta nd = Returned p" "live (xc_heap c) p" "heap_ok (xc_heap c)"
    "context_object c = coin_object (xc_heap c) p"
  using assms by (auto simp: coin_body_def body_of_def xc_ok_def context_object_def)

text \<open>Calls that leave heap, node and the running program alone.\<close>

lemma coin_body_upholds:
  fixes m :: "('m execution_context, 'x) op"
  assumes "coin_body n env c" and "\<And>W. upholds (body_ok (ne_scheme env) n W) (body_rel W) m" and "m c = (Returned x, c')"
  shows "coin_body n env c'" and "xc_state_node c' = xc_state_node c"
proof -
  have "upholds (body_of (ne_scheme env) n coin_account) (body_rel (writes_of coin_account)) m"
    by (rule body_of_program [OF length_coin_account _ assms(2)]) (simp add: coin_account_type)
  from upholdsD(1) [OF this _ assms(3)] show "coin_body n env c'" "xc_state_node c' = xc_state_node c"
    using assms(1) by (simp_all add: coin_body_def body_rel_def xc_rel_def)
qed

lemma charge_call_run: "charge_call c = (Returned u, c') \<Longrightarrow> \<exists>m. c' = c\<lparr>xc_resource_meter := m\<rparr>"
  by (auto simp: charge_call_def on_meter_def op_defs split: prod.splits outcome.splits)

lemma on_member_Returned:
  "on_heap u c = (Returned x, c') \<longleftrightarrow> (\<exists>h. u (xc_heap c) = (Returned x, h) \<and> c' = c\<lparr>xc_heap := h\<rparr>)"
  "on_meter w c = (Returned y, c') \<longleftrightarrow> (\<exists>m. w (xc_resource_meter c) = (Returned y, m) \<and> c' = c\<lparr>xc_resource_meter := m\<rparr>)"
  by (auto simp: on_heap_def on_meter_def split: prod.splits)

lemma io_heap:
  "xc_write fd bs c = (Returned e, c') \<Longrightarrow> xc_heap c' = xc_heap c"
  "xc_read fd bs c = (Returned x, c') \<Longrightarrow> xc_heap c' = xc_heap c"
  "xc_get_caller c = (Returned y, c') \<Longrightarrow> xc_heap c' = xc_heap c"
  by (auto simp: xc_write_def xc_read_def xc_get_caller_def set_frame_def the_frame_def Let_def andThen_Returned_iff modifies_def
      returns_def reads_def readsE_def split: if_splits outcome.splits dest!: charge_call_run)

lemma context_object_cong: "xc_heap c' = xc_heap c \<Longrightarrow> xc_state_node c' = xc_state_node c \<Longrightarrow> context_object c' = context_object c"
  by (simp add: context_object_def split: option.split outcome.split)

lemma coin_frame_space:
  assumes "coin_body n env c" and "create_object_space i c = (Returned sp, c')"
  shows "c' = c \<and> object_space_of coin_account i = Returned sp"
  using assms by (auto simp: coin_body_def body_of_def create_object_space_def the_frame_def peek_frame_def op_defs split: outcome.splits)

lemma coin_get_object:
  fixes c c' :: "'m execution_context"
  assumes "coin_body n env c" and "xc_get_object i k c = (Returned v, c')"
  shows "coin_body n env c' \<and> context_object c' = context_object c \<and> v = context_object c i k"
proof -
  obtain nd p where p: "xc_state_node c = Some nd" "node_delta nd = Returned p" "live (xc_heap c) p" "heap_ok (xc_heap c)"
      "context_object c = coin_object (xc_heap c) p"
    by (rule coin_body_node [OF assms(1)])
  note up = coin_body_upholds [OF assms(1) body_objects(1) assms(2)]
  obtain sp where sp: "object_space_of coin_account i = Returned sp" by (rule coin_space)
  have ps: "ps_stack (xc_stack c) \<noteq> []" "sf_program_id (last (ps_stack (xc_stack c))) = coin_account"
    using assms(1) by (auto simp: coin_body_def body_of_def)
  obtain m where "c' = c\<lparr>xc_resource_meter := m\<rparr>" "v = coin_object (xc_heap c) p i k"
    using assms(2) p sp ps
    by (auto simp: xc_get_object_def the_node_def andThen_Returned_iff readsE_def reads_def create_object_space_def the_frame_def
        peek_frame_def read_object_def node_get_def delta_get_view coin_object_def node_view_def returns_def dest!: charge_call_run)
  then show ?thesis using up p(5) context_object_cong [of c' c] by simp
qed


lemma coin_put_object:
  fixes c c' :: "'m execution_context"
  assumes "coin_body n env c" and "xc_put_object i k v c = (Returned e, c')"
  shows "coin_body n env c' \<and> context_object c' i k = v \<and> (\<forall>j l. l \<noteq> k \<longrightarrow> context_object c' j l = context_object c j l)"
proof -
  obtain nd p where p: "xc_state_node c = Some nd" "node_delta nd = Returned p" "live (xc_heap c) p" "heap_ok (xc_heap c)"
      "context_object c = coin_object (xc_heap c) p"
    by (rule coin_body_node [OF assms(1)])
  note up = coin_body_upholds [OF assms(1) body_objects(4) assms(2)]
  obtain sp where sp: "object_space_of coin_account i = Returned sp" "object_space_ok sp" by (rule coin_space)
  have ps: "ps_stack (xc_stack c) \<noteq> []" "sf_program_id (last (ps_stack (xc_stack c))) = coin_account"
    using assms(1) by (auto simp: coin_body_def body_of_def)
  obtain m h where h: "node_put nd sp k v (xc_heap c) = (Returned m, h)" "xc_heap c' = h"
    using assms(2) p sp ps
    by (auto simp: xc_put_object_def the_node_def andThen_Returned_iff readsE_def reads_def create_object_space_def the_frame_def
        peek_frame_def on_member_Returned charge_disk_def split: outcome.splits dest!: charge_call_run)
  note put = node_put_cell [OF p(4,3,2) sp(2) h(1)]
  have obj: "context_object c' = coin_object h p" using up(2) p(1,2) h(2) by (simp add: context_object_def)
  have "coin_object h p j l = coin_object (xc_heap c) p j l" if "l \<noteq> k" for j l
  proof -
    obtain sj where sj: "object_space_of coin_account j = Returned sj" "object_space_ok sj" by (rule coin_space)
    then show ?thesis
      using put that make_compound_key_inject [OF sj(2) sp(2), of l k] by (simp add: coin_object_def node_view_def)
  qed
  moreover have "coin_object h p i k = v" using put sp(1) by (simp add: coin_object_def node_view_def)
  ultimately show ?thesis using up(1) obj p(5) by simp
qed

lemma coin_authority:
  fixes c c' :: "'m execution_context"
  assumes "coin_body n env c" and "length a = 33"
    and "xc_check_authority (ne_scheme env) (run_program n env Strict) a c = (Returned r, c')"
  shows "coin_body n env c' \<and> context_object c' = context_object c"
proof -
  have env: "env_ok env" and c: "xc_ok (ne_scheme env) n c" using assms(1) by (simp_all add: coin_body_def body_of_def)
  have "upholds (xc_ok (ne_scheme env) n) (run_rel user_space) (xc_check_authority (ne_scheme env) (run_program n env Strict) a)"
  proof (rule check_authority_upholds)
    assume "account_view_is_program a"
    then show "upholds (xc_ok (ne_scheme env) n) (run_rel user_space) (run_program n env Strict a (u32_bytes 0) [])"
      using run_mono [OF run_program_upholds [OF env assms(2)]] view_program_not_native by (simp add: writes_of_program)
  qed
  from upholdsD(1) [OF this c assms(3)] have c': "xc_ok (ne_scheme env) n c'" "run_rel user_space c c'" by auto
  obtain nd p where p: "xc_state_node c = Some nd" "node_delta nd = Returned p" "context_object c = coin_object (xc_heap c) p"
    by (rule coin_body_node [OF assms(1)])
  have "coin_object (xc_heap c') p = coin_object (xc_heap c) p"
    using c'(2) p(1,2) by (intro coin_object_cong) (auto simp: run_rel_def xc_rel_def cell_rel_def)
  then show ?thesis
    using assms(1) c' p by (auto simp: coin_body_def body_of_def run_rel_def xc_rel_def context_object_def)
qed

text \<open>The execution context is the object store the coin program relies on.\<close>

interpretation coin_store: object_store "node_system n env" "coin_body n env" context_object
  for n and env :: "('m, 'k) node_env"
proof unfold_locales
  fix c c' :: "'m execution_context"
  assume c: "coin_body n env c"
  show "coin_body n env c' \<and> context_object c' = context_object c \<and> v = context_object c i k"
    if "si_get_object (node_system n env) i k c = (Returned v, c')" for i k v
    using coin_get_object [OF c] that by (simp add: xc_system_def)
  show "coin_body n env c' \<and> context_object c' i k = v \<and> (\<forall>j l. l \<noteq> k \<longrightarrow> context_object c' j l = context_object c j l)"
    if "si_put_object (node_system n env) i k v c = (Returned e, c')" for i k v e
    using coin_put_object [OF c] that by (simp add: xc_system_def)
  show "coin_body n env c' \<and> context_object c' = context_object c \<and> length bs' = length bs"
    if "si_read (node_system n env) fd bs c = (Returned (bs', e), c')" for fd bs bs' e
  proof -
    have run: "xc_read fd bs c = (Returned (bs', e), c')" using that by (simp add: xc_system_def)
    moreover have "length bs' = length bs"
      using run by (auto simp: xc_read_def op_defs Let_def split: prod.splits outcome.splits if_splits)
    ultimately show ?thesis
      using coin_body_upholds [OF c body_io(2)] io_heap(2) context_object_cong by blast
  qed
  show "coin_body n env c' \<and> context_object c' = context_object c"
    if "si_write (node_system n env) fd bs c = (Returned e, c')" for fd bs e
  proof -
    have "xc_write fd bs c = (Returned e, c')" using that by (simp add: xc_system_def)
    then show ?thesis using coin_body_upholds [OF c body_io(1)] io_heap(1) context_object_cong by blast
  qed
  show "coin_body n env c' \<and> context_object c' = context_object c"
    if "si_get_caller (node_system n env) c = (Returned bs, c')" for bs
  proof -
    have "xc_get_caller c = (Returned bs, c')" using that by (simp add: xc_system_def)
    then show ?thesis using coin_body_upholds [OF c body_io(4)] io_heap(3) context_object_cong by blast
  qed
  show "coin_body n env c' \<and> context_object c' = context_object c"
    if "length a = 33" "si_check_authority (node_system n env) a c = (Returned r, c')" for a r
    using coin_authority [OF c] that by (simp add: xc_system_def)
qed

section \<open>Program runs and the ledger\<close>

definition ledger_at :: "heap \<Rightarrow> ptr \<Rightarrow> ledger" where
  "ledger_at h p = ledger_of (coin_object h p)"

text \<open>A run of the coin program, from the push of its frame to the pop.\<close>

lemma native_frame_run:
  fixes c c' :: "'m execution_context"
  assumes "run_frame env sys T coin_account stdin args c = (Returned r, c')"
  obtains code c1 where "execute_native_program env sys coin_account c = (Returned code, c1)" "xc_heap c' = xc_heap c1"
    "case r of Inl e \<Rightarrow> is_error code | Inr f \<Rightarrow> pf_code f = ec_value code"
proof -
  obtain code c1 where run: "execute_native_program env sys coin_account c = (Returned code, c1)"
      "(if is_error code \<and> (T = Strict \<or> ec_category code \<noteq> Program_category) then returns (Inl code)
        else andThen (make_frame coin_account stdin args code) (\<lambda>frame. returns (Inr frame))) c1 = (Returned r, c')"
    using assms coin_account_type by (auto simp: run_frame_def Let_def andThen_Returned_iff)
  have "xc_heap c' = xc_heap c1 \<and> (case r of Inl e \<Rightarrow> is_error code | Inr f \<Rightarrow> pf_code f = ec_value code)"
    using run(2)
    by (auto simp: make_frame_def set_frame_def the_frame_def op_defs Let_def split: if_splits prod.splits outcome.splits)
  then show thesis using that run(1) by blast
qed

lemma coin_program_refines:
  fixes c c' :: "'m execution_context"
  assumes "env_ok env" and "xc_ok (ne_scheme env) (Suc n) c" and "xc_state_node c = Some nd" and "node_delta nd = Returned p"
    and "run_program (Suc n) env T coin_account stdin args c = (Returned r, c')"
  shows "\<exists>st. step_guard st (ledger_at (xc_heap c) p) \<and> ledger_at (xc_heap c') p = step_ledger st (ledger_at (xc_heap c) p)
     \<and> (case r of Inl e \<Rightarrow> st = Step_none | Inr f \<Rightarrow> pf_code f \<noteq> 0 \<longrightarrow> st = Step_none)"
proof (cases "stack_size (xc_stack c) = default_stack_limit")
  case True
  then have "c' = c" "r = Inl (controller_error Controller_stack_overflow)"
    using assms(5) by (simp_all add: push_and_run_eq [OF assms(2)])
  then show ?thesis by (intro exI [of _ Step_none]) simp
next
  case False
  let ?c = "push_context coin_account stdin args c"
  obtain c1 where c1: "run_frame env (node_system n env) T coin_account stdin args ?c = (Returned r, c1)"
      "xc_heap c' = xc_heap c1"
    using assms(5) False by (auto simp: push_and_run_eq [OF assms(2)] frame_guard_def split: prod.splits)
  obtain code c2 where c2: "execute_native_program env (node_system n env) coin_account ?c = (Returned code, c2)"
      "xc_heap c1 = xc_heap c2" "case r of Inl e \<Rightarrow> is_error code | Inr f \<Rightarrow> pf_code f = ec_value code"
    by (rule native_frame_run [OF c1(1)])
  have body: "coin_body n env ?c" using assms(1) push_context_ok [OF assms(2) False] by (simp add: coin_body_def)
  obtain args' where run: "coin_run (ne_junk env) (node_system n env) args' ?c = (Returned code, c2)"
    using c2(1) by (auto simp: execute_native_program_def noexcept_Returned_iff the_frame_def op_defs split: outcome.splits)
  have len: "length (ne_junk env i) = 33" for i using assms(1) by (simp add: env_ok_def)
  note st = coin_store.leadsD [OF coin_store.coin_run_leads [OF len] body refl run]
  have obj: "context_object ?c = coin_object (xc_heap c) p" using assms(3,4) by (simp add: context_object_def push_context_def)
  have "xc_state_node c2 = Some nd"
  proof -
    have "upholds (body_of (ne_scheme env) n coin_account) (body_rel (writes_of coin_account))
        (execute_native_program env (node_system n env) coin_account)"
      by (intro body_of_program length_coin_account execute_native_upholds node_system_upholds assms(1))
        (simp_all add: coin_account_type writes_of_def)
    from upholdsD(1) [OF this _ c2(1)] show ?thesis
      using body assms(3) by (simp add: coin_body_def body_rel_def xc_rel_def push_context_def)
  qed
  then have "context_object c2 = coin_object (xc_heap c') p" using assms(4) c1(2) c2(2) by (simp add: context_object_def)
  then obtain s where "step_guard s (ledger_at (xc_heap c) p)" "ledger_at (xc_heap c') p = step_ledger s (ledger_at (xc_heap c) p)"
      "is_error code \<longrightarrow> s = Step_none"
    using st obj by (auto simp: coin_steps_def ledger_at_def)
  then show ?thesis using c2(3) by (intro exI [of _ s]) (auto simp: is_error_def split: sum.splits)
qed


text \<open>Whatever program runs, the ledger takes one step at most.\<close>

lemma other_native_heap:
  fixes c c' :: "'m execution_context"
  assumes "account_get_type a = Account_native_program" and "a \<noteq> coin_account" and "xc_ok (ne_scheme env) (Suc n) c"
    and "run_program (Suc n) env T a stdin args c = (Returned r, c')"
  shows "xc_heap c' = xc_heap c"
  using assms(1,2,4)
  by (auto simp: push_and_run_eq [OF assms(3)] frame_guard_def run_frame_def execute_native_program_def noexcept_Returned_iff
      andThen_Returned_iff returns_def make_frame_def set_frame_def the_frame_def readsE_def reads_def modifies_def Let_def
      push_context_def split: if_splits prod.splits outcome.splits)

lemma ledger_at_cong:
  assumes "\<And>sp k. object_space_ok sp \<Longrightarrow> \<not> user_space sp \<Longrightarrow> \<not> os_system sp \<Longrightarrow> node_view h' p sp k = node_view h p sp k"
  shows "ledger_at h' p = ledger_at h p"
  using coin_object_cong [OF assms] by (simp add: ledger_at_def)

lemma run_program_ledger:
  fixes c c' :: "'m execution_context"
  assumes "env_ok env" and "length a = 33" and "xc_ok (ne_scheme env) (Suc n) c" and "xc_state_node c = Some nd"
    and "node_delta nd = Returned p" and "run_program (Suc n) env T a stdin args c = (Returned r, c')"
  shows "\<exists>st. step_guard st (ledger_at (xc_heap c) p) \<and> ledger_at (xc_heap c') p = step_ledger st (ledger_at (xc_heap c) p)
     \<and> (a \<noteq> coin_account \<longrightarrow> st = Step_none)
     \<and> (case r of Inl e \<Rightarrow> st = Step_none | Inr f \<Rightarrow> pf_code f \<noteq> 0 \<longrightarrow> st = Step_none)"
proof (cases "a = coin_account")
  case True
  then show ?thesis using coin_program_refines [OF assms(1,3-5)] assms(6) by blast
next
  case False
  have "ledger_at (xc_heap c') p = ledger_at (xc_heap c) p"
  proof (cases "account_get_type a = Account_native_program")
    case True
    then show ?thesis using other_native_heap [OF True False assms(3,6)] by simp
  next
    case other: False
    have "run_rel (writes_of a) c c'" using upholdsD(1) [OF run_program_upholds [OF assms(1,2)] assms(3,6)] by blast
    then show ?thesis
      using assms(4,5) by (intro ledger_at_cong) (auto simp: run_rel_def xc_rel_def cell_rel_def writes_of_program [OF other])
  qed
  then show ?thesis using False by (intro exI [of _ Step_none]) (simp split: sum.split)
qed

text \<open>
  C9: The coin program implements its specification on the node: whatever program a call names, a run that returns
  takes the ledger of the state node through exactly one guarded step, a transfer, a mint, a burn or none; it
  takes none when another program is called, when the call fails and when the program reports an
  error.
\<close>

theorem program_run_refines_ledger:
  fixes c c' :: "'m execution_context"
  assumes "env_ok env" and "length a = 33" and "xc_ok (ne_scheme env) call_fuel c" and "xc_state_node c = Some nd"
    and "node_delta nd = Returned p" and "run_program call_fuel env T a stdin args c = (Returned r, c')"
  shows "\<exists>st. step_guard st (ledger_at (xc_heap c) p) \<and> ledger_at (xc_heap c') p = step_ledger st (ledger_at (xc_heap c) p)
     \<and> (a \<noteq> coin_account \<longrightarrow> st = Step_none)
     \<and> (case r of Inl e \<Rightarrow> st = Step_none | Inr f \<Rightarrow> pf_code f \<noteq> 0 \<longrightarrow> st = Step_none)"
proof -
  have fuel: "call_fuel = Suc 31" by (simp add: call_fuel_def default_stack_limit_def)
  show ?thesis
    by (rule run_program_ledger [OF assms(1,2) assms(3) [unfolded fuel] assms(4,5) assms(6) [unfolded fuel]])
qed


section \<open>Conservation\<close>

definition conserved :: "'m execution_context \<Rightarrow> bool" where
  "conserved c \<longleftrightarrow> (\<forall>nd p. xc_state_node c = Some nd \<longrightarrow> node_delta nd = Returned p \<longrightarrow> ledger_inv (ledger_at (xc_heap c) p))"

lemma conserved_run:
  fixes m :: "('m execution_context, 'x) op"
  assumes "upholds (context_ok env) (run_rel W) m" and "\<And>sp. W sp \<Longrightarrow> user_space sp \<or> os_system sp"
  shows "upholds (\<lambda>c. context_ok env c \<and> conserved c) (run_rel W) m"
proof (rule upholdsI)
  fix c c' :: "'m execution_context" and x
  assume c: "context_ok env c \<and> conserved c" and run: "m c = (Returned x, c')"
  then have r: "context_ok env c' \<and> run_rel W c c'" using upholdsD(1) [OF assms(1) _ run] by simp
  have "ledger_at (xc_heap c') p = ledger_at (xc_heap c) p" if "xc_state_node c = Some nd" "node_delta nd = Returned p" for nd p
    using r that assms(2) by (intro ledger_at_cong) (auto simp: run_rel_def xc_rel_def cell_rel_def)
  then show "(context_ok env c' \<and> conserved c') \<and> run_rel W c c'"
    using c r by (auto simp: conserved_def run_rel_def xc_rel_def)
next
  fix c c' :: "'m execution_context"
  assume "context_ok env c \<and> conserved c"
  then show "m c \<noteq> (Threw Diverges, c')" using upholdsD(2) [OF assms(1)] by blast
qed

lemma operation_conserves:
  fixes env :: "('m, 'k) node_env"
  assumes "env_ok env" and "operation_sized q"
  shows "upholds (\<lambda>c. context_ok env c \<and> conserved c) (run_rel operation_space) (apply_operation env q)"
proof (cases q)
  case (Upload_program u)
  then have "length (up_id u) = 33" using assms(2) by simp
  note up = run_mono [OF conserved_run [OF upload_upholds [OF assms(1) this]], of operation_space]
  show ?thesis
    unfolding Upload_program apply_operation.simps
    by (rule up) (auto simp: upload_space_def space_classes space_simps)
next
  case (Call_program call)
  then have len: "length (cp_id call) = 33" using assms(2) by simp
  have fuel: "call_fuel = Suc 31" by (simp add: call_fuel_def default_stack_limit_def)
  have "upholds (\<lambda>c. context_ok env c \<and> conserved c) (run_rel operation_space)
      (run_program call_fuel env Strict (cp_id call) stdin args)" for stdin args
  proof (rule upholdsI)
    fix c c' :: "'m execution_context" and r
    assume c: "context_ok env c \<and> conserved c" and run: "run_program call_fuel env Strict (cp_id call) stdin args c = (Returned r, c')"
    then have r: "context_ok env c' \<and> run_rel operation_space c c'"
      using upholdsD(1) [OF run_mono [OF run_program_upholds [OF assms(1) len] space_classes(2)] _ run] by simp
    have "ledger_inv (ledger_at (xc_heap c') p)" if nd: "xc_state_node c = Some nd" "node_delta nd = Returned p" for nd p
    proof -
      have "xc_ok (ne_scheme env) (Suc 31) c" using c fuel by simp
      then obtain st where "step_guard st (ledger_at (xc_heap c) p)" "ledger_at (xc_heap c') p = step_ledger st (ledger_at (xc_heap c) p)"
        using run_program_ledger [OF assms(1) len _ nd run [unfolded fuel]] by blast
      then show ?thesis using step_ledger_inv c nd by (auto simp: conserved_def)
    qed
    then show "(context_ok env c' \<and> conserved c') \<and> run_rel operation_space c c'"
      using c r by (auto simp: conserved_def run_rel_def xc_rel_def)
  next
    fix c c' :: "'m execution_context"
    assume "context_ok env c \<and> conserved c"
    then show "run_program call_fuel env Strict (cp_id call) stdin args c \<noteq> (Threw Diverges, c')"
      using upholdsD(2) [OF run_program_upholds [OF assms(1) len]] by blast
  qed
  then show ?thesis
    unfolding Call_program apply_operation.simps apply_call_program_def by (intro run_rules)
qed

lemma operations_conserve:
  assumes "env_ok env" and "\<forall>p \<in> set ps. operation_sized p"
  shows "upholds (\<lambda>c. context_ok env c \<and> conserved c) (run_rel operation_space) (operations_loop env ps)"
  using assms(2)
proof (induction ps)
  case Nil
  then show ?case by (simp add: run_rules)
next
  case (Cons p ps)
  then have p: "operation_sized p" "upholds (\<lambda>c. context_ok env c \<and> conserved c) (run_rel operation_space) (operations_loop env ps)"
    by simp_all
  have "upholds (\<lambda>c. context_ok env c \<and> conserved c) (run_rel operation_space) (modifies (\<lambda>c. c\<lparr>xc_operation := Some p\<rparr>))"
    by (rule run_mono [OF conserved_run [OF run_plain_fields(1) [of _ _ "\<lambda>_. False"]]]) auto
  then show ?case
    by (simp only: operations_loop.simps) (intro run_rules operation_conserves assms(1) p)
qed

lemma ledger_at_view: "view h' q = view h p \<Longrightarrow> ledger_at h' q = ledger_at h p"
proof -
  assume "view h' q = view h p"
  then have "coin_object h' q = coin_object h p" by (simp add: coin_object_def node_view_def fun_eq_iff split: outcome.split)
  then show ?thesis by (simp add: ledger_at_def)
qed

lemma operations_restore_conserves:
  fixes c c' :: "'m execution_context"
  assumes "env_ok env" and "transaction_sized t" and "apply_ok env c" and "xc_state_node c = Some nd"
    and "node_delta nd = Returned p" and "operations_then_restore env nd t c = (Returned e, c')"
    and "ledger_inv (ledger_at (xc_heap c) p)"
  shows "ledger_inv (ledger_at (xc_heap c') p)"
proof -
  note eq = operations_then_restore_eq [OF assms(3-5), of t]
  obtain e1 c2 where c2: "operations_loop env (tx_operations t) (child_context nd c) = (Returned e1, c2)"
    using assms(6) eq by (auto split: prod.splits outcome.splits)
  note ch = child_context_ok [OF assms(3-5)]
  note op = operations_in_child [OF assms(1-5) c2]
  have ops: "\<forall>p \<in> set (tx_operations t). operation_sized p" using assms(2) by (simp add: transaction_sized_def)
  have node: "xc_state_node (child_context nd c) = Some (Temporary_node (Some (length (xc_heap c))))" by (simp add: child_context_def)
  have "conserved (child_context nd c)"
    using assms(7) ledger_at_view [OF ch(5)] by (simp add: conserved_def node)
  then have "conserved c2"
    using upholdsD(1) [OF operations_conserve [OF assms(1) ops] _ c2] ch(1) by (simp add: apply_ok_def)
  moreover have "xc_state_node c2 = Some (Temporary_node (Some (length (xc_heap c))))"
    using op(2) node by (simp add: run_rel_def xc_rel_def)
  ultimately have q: "ledger_inv (ledger_at (xc_heap c2) (length (xc_heap c)))" by (simp add: conserved_def)
  show ?thesis
  proof (cases "is_error e1")
    case True
    then show ?thesis using assms(6,7) eq c2 ledger_at_view [OF op(8)] by auto
  next
    case False
    then obtain x h where h: "temporary_squash (Some (length (xc_heap c))) (xc_heap c2) = (Returned x, h)" "xc_heap c' = h"
      using assms(6) eq c2 by (auto split: prod.splits outcome.splits)
    then show ?thesis using squash_child_run [OF op(4,5,7) h(1)] ledger_at_view q by metis
  qed
qed

lemma finish_receipt_heap: "finish_receipt t initial e c = (Returned r, c') \<Longrightarrow> xc_heap c' = xc_heap c"
  by (auto simp: finish_receipt_def consume_account_resources_def op_defs split: option.splits if_splits)

lemma accepted_conserves:
  fixes c c' :: "'m execution_context"
  assumes "env_ok env" and "transaction_sized t" and "apply_ok env c" and "xc_state_node c = Some nd"
    and "node_delta nd = Returned p" and "apply_transaction env t c = (Returned (Inr receipt), c')"
    and "ledger_inv (ledger_at (xc_heap c) p)"
  shows "ledger_inv (ledger_at (xc_heap c') p)"
proof -
  obtain c2 c5 c6 :: "'m execution_context" and initial where v:
    "state_rel (\<lambda>sp _. user_space sp) p (xc_heap c) (xc_heap c2)"
    "state_rel (\<lambda>sp k. sp = transaction_nonce_space \<and> k = nonce_account t) p (xc_heap c2) (xc_heap c5)"
    "apply_ok env c5" "xc_state_node c5 = Some nd" "finish_transaction env t initial c5 = (Returned (Inr receipt), c6)"
    "xc_heap c' = xc_heap c6"
    using accepted_views [OF assms(1-6)] by metis
  have "ledger_at (xc_heap c2) p = ledger_at (xc_heap c) p"
    using v(1) by (intro ledger_at_cong) (simp add: state_rel_def)
  moreover have "ledger_at (xc_heap c5) p = ledger_at (xc_heap c2) p"
    using v(2) space_simps(5) by (intro ledger_at_cong) (auto simp: state_rel_def)
  ultimately have l5: "ledger_inv (ledger_at (xc_heap c5) p)" using assms(7) by simp
  obtain e d where d: "operations_then_restore env nd t c5 = (Returned e, d)"
      "finish_receipt t initial e d = (Returned (Inr receipt), c6)"
    using v(4,5) by (auto simp: finish_transaction_eq the_node_def op_defs split: prod.splits outcome.splits)
  show ?thesis
    using operations_restore_conserves [OF assms(1,2) v(3,4) assms(5) d(1) l5] finish_receipt_heap [OF d(2)] v(6) by simp
qed

lemma transactions_conserve:
  fixes c c' :: "'m execution_context"
  assumes "env_ok env" and "\<forall>t \<in> set ts. transaction_sized t" and "apply_ok env c" and "xc_state_node c = Some nd"
    and "node_delta nd = Returned p" and "transactions_loop env ts c = (Returned (Inr receipts), c')"
    and "ledger_inv (ledger_at (xc_heap c) p)"
  shows "ledger_inv (ledger_at (xc_heap c') p)"
  using assms(2-7)
proof (induction ts arbitrary: c receipts)
  case Nil
  then show ?case by (simp add: op_defs)
next
  case (Cons t ts)
  obtain r rs d where d: "apply_transaction env t c = (Returned (Inr r), d)" "transactions_loop env ts d = (Returned (Inr rs), c')"
    using Cons.prems(5) by (auto simp: op_defs split: prod.splits outcome.splits sum.splits)
  have t: "transaction_sized t" "\<forall>t \<in> set ts. transaction_sized t" using Cons.prems(1) by simp_all
  have "apply_ok env d" "xc_state_node d = Some nd"
    using upholdsD(1) [OF apply_transaction_upholds [OF assms(1) t(1)] Cons.prems(2) d(1)] Cons.prems(3)
    by (simp_all add: context_rel_def)
  then show ?case
    using Cons.IH [OF t(2) _ _ Cons.prems(4) d(2)] accepted_conserves [OF assms(1) t(1) Cons.prems(2-4) d(1) Cons.prems(6)] by blast
qed

lemma apply_block_conserves:
  fixes c c' :: "'m execution_context"
  assumes "env_ok env" and "\<forall>t \<in> set (bl_transactions b). transaction_sized t" and "context_ok env c"
    and "xc_state_node c = Some nd" and "node_delta nd = Returned p" and "ledger_inv (ledger_at (xc_heap c) p)"
    and "apply_block env b c = (Returned (Inr receipt), c')"
  shows "ledger_inv (ledger_at (xc_heap c') p)"
proof -
  obtain rs d where d: "transactions_loop env (bl_transactions b)
      (c\<lparr>xc_resource_meter := set_resource_limits default_resource_limits (xc_resource_meter c)\<rparr>) = (Returned (Inr rs), d)"
      "xc_heap c' = xc_heap d"
    using assms(4,7)
    by (auto simp: apply_block_def the_node_def read_object_def op_defs
        split: option.splits if_splits sum.splits outcome.splits prod.splits)
  have ok: "apply_ok env (c\<lparr>xc_resource_meter := set_resource_limits default_resource_limits (xc_resource_meter c)\<rparr>)"
    using assms(3)
    by (auto simp: apply_ok_def xc_ok_def costs_set_def costs_ok_def set_resource_limits_def default_resource_limits_def)
  show ?thesis
    using transactions_conserve [OF assms(1,2) ok _ assms(5) d(1)] assms(4,6) d(2) by simp
qed

text \<open>
  C4: Coins are conserved: when the balances of the state node add up to the supply and a block is applied to it,
  they add up to the supply afterwards, whatever the transactions and programs of the block do.
\<close>

theorem block_conserves_coins:
  fixes c c' :: "'m execution_context"
  assumes "env_ok env" and "\<forall>t \<in> set (bl_transactions b). transaction_sized t" and "context_ok env c"
    and "xc_state_node c = Some nd" and "node_delta nd = Returned p" and "ledger_inv (ledger_at (xc_heap c) p)"
    and "apply_block env b c = (Returned (Inr receipt), c')"
  shows "ledger_inv (ledger_at (xc_heap c') p)"
  by (rule apply_block_conserves [OF assms])

section \<open>Sample runs\<close>

theorem program_run_refines_ledger_witness:
  "\<exists>r c' st. sample_mint = (Returned (Inr r), c') \<and> step_guard st (ledger_at (xc_heap sample_context) 3)
     \<and> ledger_at (xc_heap c') 3 = step_ledger st (ledger_at (xc_heap sample_context) 3)"
proof -
  obtain r c' where run: "sample_mint = (Returned (Inr r), c')" using sample_mint_returns by blast
  note ref = program_run_refines_ledger [OF sample_env_ok length_coin_account sample_context_ok sample_state_node, of 3]
  show ?thesis using run ref [OF _ run [unfolded sample_mint_def]] by auto
qed

text \<open>The state before the sample block has no coins.\<close>

lemma sample_view_long: "40 \<le> length k \<Longrightarrow> view sample_heap 3 k = None"
  by (auto simp: sample_view)

lemma no_coins:
  assumes "\<And>sp k. object_space_ok sp \<Longrightarrow> \<not> os_system sp \<Longrightarrow> node_view h p sp k = None"
  shows "ledger_at h p = \<lparr>lg_supply = 0, lg_balance = (\<lambda>_. 0)\<rparr>"
proof -
  have "coin_object h p i k = []" for i k
  proof -
    obtain sp where "object_space_of coin_account i = Returned sp" "object_space_ok sp" "\<not> os_system sp" by (rule coin_space)
    then show ?thesis using assms by (simp add: coin_object_def)
  qed
  then show ?thesis by (simp add: ledger_at_def ledger_of_def counter_value_def fun_eq_iff)
qed

lemma genesis_ledger: "ledger_at (xc_heap genesis_context) 3 = \<lparr>lg_supply = 0, lg_balance = (\<lambda>_. 0)\<rparr>"
proof (rule no_coins)
  fix sp k
  assume sp: "object_space_ok sp" "\<not> os_system sp"
  obtain m h where h: "node_put (Permanent_node 3) metadata_space (genesis_key (ne_hash sample_env)) (replicate 32 1) sample_heap
      = (Returned m, h)"
    using node_put_run [OF sample_heap_ok sample_live(2) sample_queries(1), of "Permanent_node 3"] by fastforce
  have heap: "xc_heap genesis_context = h"
    using h by (simp add: genesis_context_def on_heap_def sample_context_def set_state_node_def execution_context_new_def)
  have view: "view h 3 = (view sample_heap 3)(make_compound_key metadata_space (genesis_key (ne_hash sample_env)) \<mapsto> replicate 32 1)"
    using node_put_cell [OF sample_heap_ok sample_live(2) _ space_simps(3) h] by simp
  have "sp \<noteq> metadata_space" using sp(2) space_simps(6) by auto
  then show "node_view (xc_heap genesis_context) 3 sp k = None"
    using view make_compound_key_inject [OF sp(1) space_simps(3)] sample_view_long [of "make_compound_key sp k"]
      length_object_space_bytes [OF sp(1)]
    by (simp add: node_view_def heap) (simp add: make_compound_key_def)
qed

definition mint_block :: block where
  "mint_block = (sample_block 1)\<lparr>bl_transactions := [signed_transaction 1 [coin_input 7 (sample_payer @ u64_bytes 50)]]\<rparr>"

lemma sample_coin_sized: "transaction_sized (signed_transaction n [coin_input i bs])"
  using length_coin_account
  by (simp add: transaction_sized_def signed_transaction_def sample_transaction_def sample_payer_def user_account_def coin_input_def)

theorem block_conserves_coins_witness:
  "\<exists>receipt c'. apply_block sample_env mint_block genesis_context = (Returned (Inr receipt), c')
     \<and> ledger_inv (ledger_at (xc_heap c') 3)"
proof -
  have "case fst (apply_block sample_env mint_block genesis_context) of Returned (Inr r) \<Rightarrow> True | _ \<Rightarrow> False" by code_simp
  then obtain receipt c' where run: "apply_block sample_env mint_block genesis_context = (Returned (Inr receipt), c')"
    by (cases "apply_block sample_env mint_block genesis_context") (auto split: outcome.splits sum.splits)
  have "ledger_inv (ledger_at (xc_heap genesis_context) 3)"
    by (simp add: genesis_ledger ledger_inv_def ledger_total_def)
  then have "ledger_inv (ledger_at (xc_heap c') 3)"
    using block_conserves_coins [OF sample_env_ok _ genesis_context_ok _ _ run, of 3] sample_coin_sized
    by (simp add: mint_block_def sample_block_def)
  then show ?thesis using run by blast
qed

end
