(* ===== verification/Chain.thy ===== *)
theory Chain
  imports Controller Ledger
begin

text \<open>
  The chain: what the calls of the controller keep and do.  The lemmas compose the database, the execution of
  blocks and the ledger into an invariant of the controller and into what the indexed nodes show before and
  after every call.
\<close>

section \<open>Steps on the deltas of the database\<close>

text \<open>Finality and the cached root of a delta do not show in any view.\<close>

lemma view_flags:
  assumes "sd_parent d = sd_parent (h ! p)" and "sd_backend d = sd_backend (h ! p)" and "sd_removed d = sd_removed (h ! p)"
  shows "view (h[p := d]) q key = view h q key"
proof (induction q rule: less_induct)
  case (less q)
  have "sd_parent (h[p := d] ! q) = sd_parent (h ! q)" "sd_backend (h[p := d] ! q) = sd_backend (h ! q)"
      "sd_removed (h[p := d] ! q) = sd_removed (h ! q)"
    using assms by (simp_all add: nth_upd)
  then show ?case
    using less by (simp add: view.simps [of h q] view.simps [of "h[p := d]" q] delta_removed_def split: option.split)
qed

text \<open>
  The deltas \<open>h'\<close> show the nodes \<open>S\<close> as \<open>h\<close> does: same place in the tree, same finality, same objects.
\<close>

definition shows_same :: "ptr set \<Rightarrow> heap \<Rightarrow> heap \<Rightarrow> bool" where
  "shows_same S h h' \<longleftrightarrow>
     length h \<le> length h' \<and> (\<forall>x < length h. same_shape (h' ! x) (h ! x))
     \<and> (\<forall>q \<in> S. view h' q = view h q \<and> delta_final h' q = delta_final h q)"

lemma shows_same_preorder: "preorder_rel (shows_same S)"
  unfolding preorder_rel_def shows_same_def same_shape_def by auto

lemma merkle_root_run:
  assumes "heap_ok h" and "live h p" and "delta_final h p"
  obtains m h' where "delta_merkle_root H p h = (Returned m, h')" and "heap_ok h'" and "shows_same S h h'"
    and "delta_merkle_root H p h' = (Returned m, h')" and "length h' = length h"
proof (cases "sd_merkle_root (h ! p)")
  case (Some m)
  then have "delta_merkle_root H p h = (Returned m, h)"
    using assms(3) by (simp add: delta_merkle_root_def op_defs delta_final_def)
  then show ?thesis using that assms(1) preorder_relD(1) [OF shows_same_preorder] by blast
next
  case None
  let ?m = "merkle_root H (pairs_leafs (delta_changes h p))"
  let ?h = "h[p := (h ! p)\<lparr>sd_merkle_root := Some ?m\<rparr>]"
  have p: "p < length h" using assms(2) by (simp add: live_def)
  have "delta_merkle_root H p h = (Returned ?m, ?h)"
    using live_backend [OF assms(2)] by (intro delta_merkle_root_uncached assms(3) None) auto
  moreover have "heap_ok ?h"
    using heap_ok_delta [OF assms(1) p] by (intro heap_ok_upd assms(1)) (simp add: delta_ok_def)
  moreover have "shows_same S h ?h"
    by (auto simp: shows_same_def view_flags fun_eq_iff nth_upd same_shape_def delta_final_def)
  moreover have "delta_merkle_root H p ?h = (Returned ?m, ?h)"
    using assms(3) p by (simp add: delta_merkle_root_def op_defs delta_final_def)
  ultimately show ?thesis using that by simp
qed

lemma finalize_view: "view (h[p := (h ! p)\<lparr>sd_final := True\<rparr>]) q = view h q"
  by (simp add: view_flags fun_eq_iff)

text \<open>A context run on the youngest delta leaves the older nodes as they are.\<close>

lemma state_rel_shows_same:
  assumes "state_rel C p h h'" and "live h p" and "live h' p" and "length h = Suc p"
  shows "shows_same {q. q < p} h h'" and "\<forall>x < length h. same_shape (h' ! x) (h ! x)"
proof -
  have r: "\<forall>q < p. h' ! q = h ! q" "sd_parent (h' ! p) = sd_parent (h ! p)" "delta_id h' p = delta_id h p"
      "delta_revision h' p = delta_revision h p" "length h \<le> length h'"
    using assms(1) by (simp_all add: state_rel_def)
  obtain b b' where b: "sd_backend (h ! p) = Some b" "sd_backend (h' ! p) = Some b'"
    using live_backend assms(2,3) by blast
  then have "same_shape (h' ! p) (h ! p)"
    using r by (simp add: same_shape_def delta_id_def delta_revision_def get_backend_def)
  then show shape: "\<forall>x < length h. same_shape (h' ! x) (h ! x)"
    using r(1) assms(4) by (auto simp: less_Suc_eq)
  have "view h' q = view h q" if "q < p" for q
    using that r(1) ancestry_le [of _ h q] by (intro view_cong) fastforce
  then show "shows_same {q. q < p} h h'"
    using shape r by (auto simp: shows_same_def delta_final_def)
qed

section \<open>The invariant of the controller\<close>

abbreviation ct_heap :: "('c, 'm) controller \<Rightarrow> heap" where
  "ct_heap s \<equiv> db_heap (ct_db s)"

abbreviation ct_nodes :: "('c \<Rightarrow> ptr set) \<Rightarrow> ('c, 'm) controller \<Rightarrow> ptr set" where
  "ct_nodes elems s \<equiv> nodes elems (ct_db s)"

text \<open>
  An open database with the first-come comparator whose root has revision zero, a well-formed module cache, and
  at every final node balances that add up to the supply.
\<close>

definition controller_ok :: "('c \<Rightarrow> ptr set) \<Rightarrow> (heap \<Rightarrow> 'c \<Rightarrow> bool) \<Rightarrow> ('c, 'm) controller \<Rightarrow> bool" where
  "controller_ok elems ordered s \<longleftrightarrow>
     db_ok elems ordered (ct_db s) \<and> di_comp (db_index (ct_db s)) = fifo_comparator \<and> cache_ok (ct_vm s)
     \<and> (\<forall>r. di_root (db_index (ct_db s)) = Some r \<longrightarrow> delta_rev (ct_heap s) r = 0)
     \<and> (\<forall>p \<in> ct_nodes elems s. delta_final (ct_heap s) p \<longrightarrow> ledger_inv (ledger_at (ct_heap s) p))"

text \<open>The chain only grows: every node stays, at its place, and what a final node shows never changes.\<close>

definition extends_chain :: "('c \<Rightarrow> ptr set) \<Rightarrow> ('c, 'm) controller \<Rightarrow> ('c, 'm) controller \<Rightarrow> bool" where
  "extends_chain elems s s' \<longleftrightarrow>
     ct_nodes elems s \<subseteq> ct_nodes elems s' \<and> di_root (db_index (ct_db s')) = di_root (db_index (ct_db s))
     \<and> length (ct_heap s) \<le> length (ct_heap s')
     \<and> (\<forall>x < length (ct_heap s). same_shape (ct_heap s' ! x) (ct_heap s ! x))
     \<and> (\<forall>q \<in> ct_nodes elems s. delta_final (ct_heap s) q \<longrightarrow>
          delta_final (ct_heap s') q \<and> view (ct_heap s') q = view (ct_heap s) q)"

lemma same_shape_trans: "same_shape c b \<Longrightarrow> same_shape b a \<Longrightarrow> same_shape c a"
  by (simp add: same_shape_def)

lemma extends_chain_preorder:
  fixes elems :: "'c \<Rightarrow> ptr set"
  shows "preorder_rel (extends_chain elems :: ('c, 'm) controller \<Rightarrow> ('c, 'm) controller \<Rightarrow> bool)"
proof -
  have "extends_chain elems s u" if "extends_chain elems s t" "extends_chain elems t u" for s t u :: "('c, 'm) controller"
  proof -
    have "\<forall>x < length (ct_heap s). same_shape (ct_heap u ! x) (ct_heap s ! x)"
      using that unfolding extends_chain_def by (meson less_le_trans same_shape_trans)
    moreover have "\<forall>q \<in> ct_nodes elems s. delta_final (ct_heap s) q \<longrightarrow>
          delta_final (ct_heap u) q \<and> view (ct_heap u) q = view (ct_heap s) q"
      using that unfolding extends_chain_def by (metis subsetD)
    moreover have "ct_nodes elems s \<subseteq> ct_nodes elems u" "length (ct_heap s) \<le> length (ct_heap u)"
      using that unfolding extends_chain_def by (blast intro: order_trans)+
    ultimately show ?thesis using that unfolding extends_chain_def by simp
  qed
  moreover have "extends_chain elems s s" for s :: "('c, 'm) controller" by (simp add: extends_chain_def)
  ultimately show ?thesis unfolding preorder_rel_def by blast
qed

lemma controller_new_context:
  fixes s :: "('c, 'm) controller"
  assumes "heap_ok h" and "live h p" and "cache_ok vm" and "node_delta nd = Returned p"
  shows "context_ok env (set_state_node nd (execution_context_new h vm i))"
  using assms
  by (simp add: xc_ok_def set_state_node_def execution_context_new_def costs_ok_def resource_meter_new_def
      set_resource_limits_def program_stack_new_def stack_size_def call_fuel_def sigs_ok_def)

context delta_container
begin

lemma controller_step:
  fixes s :: "('c, 'm) controller"
  assumes "controller_ok elems ordered s" and "heap_ok h'" and "cache_ok vm'"
    and "shows_same {q \<in> ct_nodes elems s. delta_final (ct_heap s) q} (ct_heap s) h'"
    and "\<forall>q \<in> ct_nodes elems s. delta_final h' q = delta_final (ct_heap s) q"
    and "s' = s\<lparr>ct_db := (ct_db s)\<lparr>db_heap := h'\<rparr>, ct_vm := vm'\<rparr>"
  shows "controller_ok elems ordered s'" and "extends_chain elems s s'"
proof -
  have sh: "length (ct_heap s) \<le> length h'" "\<forall>x < length (ct_heap s). same_shape (h' ! x) (ct_heap s ! x)"
      "\<forall>q \<in> ct_nodes elems s. delta_final (ct_heap s) q \<longrightarrow> view h' q = view (ct_heap s) q"
    using assms(4) by (auto simp: shows_same_def)
  have db: "db_ok elems ordered ((ct_db s)\<lparr>db_heap := h'\<rparr>)"
    using assms(1) by (intro db_ok_heap assms(2,5) sh(1,2)) (simp add: controller_ok_def)
  have root: "delta_rev h' r = delta_rev (ct_heap s) r" if "di_root (db_index (ct_db s)) = Some r" for r
  proof -
    have "r \<in> ct_nodes elems s" using assms(1) that by (auto simp: controller_ok_def db_ok_def tree_nodes_def)
    then have "r < length (ct_heap s)" using assms(1) db_ok_bound by (auto simp: controller_ok_def live_def)
    then show ?thesis using sh(2) same_shape_keys(3) by blast
  qed
  have "\<forall>q \<in> ct_nodes elems s. delta_final (ct_heap s) q \<longrightarrow> ledger_at h' q = ledger_at (ct_heap s) q"
    using sh(3) ledger_at_view by blast
  then show "controller_ok elems ordered s'"
    using assms(1,3,5,6) db root by (simp add: controller_ok_def)
  show "extends_chain elems s s'"
    using sh assms(5,6) by (simp add: extends_chain_def)
qed

end

text \<open>The revision of a node is at most its address, so that the memory bounds it.\<close>

lemma tree_rev_bound:
  assumes "heap_ok h" and "tree_nodes h S r" and "delta_rev h r = 0" and "p \<in> S"
  shows "delta_rev h p \<le> p"
  using assms(4)
proof (induction p rule: less_induct)
  case (less p)
  show ?case
  proof (cases "p = r")
    case False
    then obtain q where q: "q \<in> S" "sd_parent (h ! p) = Some q" "delta_rev h p = Suc (delta_rev h q)"
      using assms(2) less.prems unfolding tree_nodes_def by blast
    have "live h p" using assms(2) less.prems by (simp add: tree_nodes_def)
    then show ?thesis
      using less.IH [OF _ q(1)] live_parent [OF assms(1) _ q(2)] q(3) by fastforce
  qed (simp add: assms(3))
qed

lemma permanent_make_child_heap:
  assumes "permanent_make_child mi True p i s = (r, s')" and "sd_backend (db_heap s ! p) = Some b"
  shows "db_heap s' = db_heap s @ [state_delta_default\<lparr>sd_parent := Some p,
            sd_backend := Some (map_backend_new (if i = null_id then be_id b else i) (be_revision b + 1))\<rparr>]"
    and "di_root (db_index s') = di_root (db_index s)" and "di_comp (db_index s') = di_comp (db_index s)"
    and "di_head (db_index s') = di_head (db_index s)"
  using assms(1)
  by (auto simp: permanent_make_child_def op_defs delta_make_child_eq [OF assms(2)] index_add_def split: prod.splits if_splits)

lemma on_db_simp [simp]: "on_db m s = (fst (m (ct_db s)), s\<lparr>ct_db := snd (m (ct_db s))\<rparr>)"
  by (simp add: on_db_def case_prod_beta)

context delta_container
begin

lemma controller_live:
  assumes "controller_ok elems ordered s" and "p \<in> ct_nodes elems s"
  shows "live (ct_heap s) p" and "heap_ok (ct_heap s)" and "p < length (ct_heap s)" and "delta_rev (ct_heap s) p \<le> p"
proof -
  have db: "db_ok elems ordered (ct_db s)" using assms(1) by (simp add: controller_ok_def)
  obtain r where r: "di_root (db_index (ct_db s)) = Some r" "tree_nodes (ct_heap s) (ct_nodes elems s) r"
    using db by (auto simp: db_ok_def)
  show h: "heap_ok (ct_heap s)" using db by (simp add: db_ok_def)
  show "live (ct_heap s) p" by (rule db_ok_bound [OF db assms(2)])
  then show "p < length (ct_heap s)" by (simp add: live_def)
  show "delta_rev (ct_heap s) p \<le> p"
    using tree_rev_bound [OF h r(2) _ assms(2)] assms(1) r(1) by (simp add: controller_ok_def)
qed

lemma new_block_node:
  fixes s s1 :: "('c, 'm) controller"
  assumes ok: "controller_ok elems ordered s" and p: "p \<in> ct_nodes elems s" and len: "length (ct_heap s) + 1 < 2 ^ 64"
    and run: "on_db (permanent_make_child mi True p i) s = (Returned nd, s1)" and n: "n = length (ct_heap s)"
  shows "nd = Permanent_node n" and "controller_ok elems ordered s1" and "extends_chain elems s s1"
    and "ct_nodes elems s1 = insert n (ct_nodes elems s)" and "length (ct_heap s1) = Suc n"
    and "view (ct_heap s1) n = view (ct_heap s) p" and "\<not> delta_final (ct_heap s1) n"
    and "sd_parent (ct_heap s1 ! n) = Some p" and "delta_rev (ct_heap s1) n = Suc (delta_rev (ct_heap s) p)"
    and "i \<noteq> null_id \<Longrightarrow> index_get mi (ct_db s1) i = Returned (Some n)"
proof -
  note lv = controller_live [OF ok p]
  have db: "db_ok elems ordered (ct_db s)" using ok by (simp add: controller_ok_def)
  obtain b where b: "sd_backend (ct_heap s ! p) = Some b" using live_backend [OF lv(1)] by blast
  have "unat (be_revision b) = delta_rev (ct_heap s) p" using b by (simp add: delta_rev_def)
  then have rb: "unat (be_revision b) + 1 < 2 ^ 64" using lv(3,4) len by linarith
  have run': "permanent_make_child mi True p i (ct_db s) = (Returned nd, ct_db s1)" "s1 = s\<lparr>ct_db := ct_db s1\<rparr>"
    using run by (auto simp: prod_eq_iff)
  note mk = permanent_make_child_run [OF db p b rb refl, of i]
  note hp = permanent_make_child_heap [OF run'(1) b]
  show nd: "nd = Permanent_node n" and nodes: "ct_nodes elems s1 = insert n (ct_nodes elems s)"
    and vw: "view (ct_heap s1) n = view (ct_heap s) p" and fin: "\<not> delta_final (ct_heap s1) n"
    and "i \<noteq> null_id \<Longrightarrow> index_get mi (ct_db s1) i = Returned (Some n)"
    using mk run'(1) n by (auto split: if_splits)
  have views: "\<forall>q \<in> ct_nodes elems s. view (ct_heap s1) q = view (ct_heap s) q" and db1: "db_ok elems ordered (ct_db s1)"
    using mk run'(1) by (auto split: if_splits)
  show "length (ct_heap s1) = Suc n" "sd_parent (ct_heap s1 ! n) = Some p"
    using hp(1) n by simp_all
  show "delta_rev (ct_heap s1) n = Suc (delta_rev (ct_heap s) p)"
    using hp(1) n b unat_suc [OF rb] by (simp add: delta_rev_def map_backend_new_def)
  have old: "ct_heap s1 ! x = ct_heap s ! x" if "x < length (ct_heap s)" for x
    using that hp(1) by (simp add: nth_append)
  have inb: "q < length (ct_heap s)" if "q \<in> ct_nodes elems s" for q by (rule controller_live(3) [OF ok that])
  have old_node: "delta_final (ct_heap s1) q = delta_final (ct_heap s) q" "delta_rev (ct_heap s1) q = delta_rev (ct_heap s) q"
    if "q \<in> ct_nodes elems s" for q
    using old [OF inb [OF that]] by (simp_all add: delta_final_def delta_rev_def)
  show "extends_chain elems s s1"
    using views nodes old hp old_node by (auto simp: extends_chain_def)
  have "r \<in> ct_nodes elems s" if "di_root (db_index (ct_db s)) = Some r" for r
    using db that by (auto simp: db_ok_def tree_nodes_def)
  moreover have "ledger_inv (ledger_at (ct_heap s1) q)" if "q \<in> ct_nodes elems s" "delta_final (ct_heap s) q" for q
    using ok that views ledger_at_view [of "ct_heap s1" q "ct_heap s"] by (simp add: controller_ok_def)
  moreover have "ct_vm s1 = ct_vm s" by (subst run'(2)) simp
  ultimately show "controller_ok elems ordered s1"
    using ok db1 hp nodes fin old_node by (auto simp: controller_ok_def)
qed

end

text \<open>The header of a block fits its parent \<open>p\<close>; the parent of a first block has the null id.\<close>

definition follows_parent :: "('m, 'k) node_env \<Rightarrow> block \<Rightarrow> heap \<Rightarrow> ptr \<Rightarrow> bool" where
  "follows_parent env b h p \<longleftrightarrow>
     (if bl_previous b = null_id then bl_height b = 1
      else fst (delta_merkle_root (ne_hash env) p h) = Returned (bl_state_merkle_root b)
        \<and> (\<exists>r. delta_revision h p = Returned r \<and> bl_height b = r + 1))"

lemma follows_parent_cong:
  assumes "h' ! p = h ! p"
  shows "follows_parent env b h' p = follows_parent env b h p"
proof -
  have "fst (delta_merkle_root (ne_hash env) p h') = fst (delta_merkle_root (ne_hash env) p h)"
    using assms by (auto simp: delta_merkle_root_def op_defs get_backend_def Let_def split: option.splits outcome.splits)
  then show ?thesis using assms by (simp add: follows_parent_def delta_revision_def get_backend_def)
qed

lemma node_keys: "node_id h (Permanent_node p) = delta_id h p" "node_revision h (Permanent_node p) = delta_revision h p"
    "node_parent_id h (Permanent_node p) = delta_parent_id h p"
  by (simp_all add: node_id_def node_revision_def node_parent_id_def)

lemma xc_head_run:
  assumes "heap_ok h" and "live h p" and "delta_final h p" and "delta_merkle_root H p h = (Returned m, h)"
    and "delta_revision h p = Returned r" and "xc_heap c = h" and "xc_state_node c = Some (Permanent_node p)"
  obtains hd where "xc_head H c = (Returned hd, c)" and "hi_height hd = r" and "hi_time hd = 0" and "hi_state_merkle_root hd = m"
    and "delta_id h p = Returned (hi_id hd)" and "delta_parent_id h p = Returned (hi_previous hd)"
proof -
  obtain i where i: "delta_id h p = Returned i" using live_backend [OF assms(2)] by (auto simp: delta_id_def get_backend_def)
  have "\<exists>j. delta_parent_id h p = Returned j"
  proof (cases "sd_parent (h ! p)")
    case (Some q)
    then have "live h q" using live_parent [OF assms(1,2)] by simp
    then show ?thesis using Some live_backend [of h q] by (auto simp: delta_parent_id_def delta_id_def get_backend_def)
  qed (simp add: delta_parent_id_def)
  then obtain j where j: "delta_parent_id h p = Returned j" by blast
  have "c\<lparr>xc_heap := h\<rparr> = c" using assms(6) by (cases c) simp
  then show ?thesis
    using that [of "\<lparr>hi_id = i, hi_height = r, hi_previous = j, hi_last_irreversible_block = 0, hi_state_merkle_root = m, hi_time = 0\<rparr>"]
      assms i j by (simp add: xc_head_def the_node_def op_defs node_keys on_heap_def)
qed

context delta_container
begin

lemma check_parent_run:
  fixes s :: "('c, 'm) controller"
  assumes "controller_ok elems ordered s" and "p \<in> ct_nodes elems s" and "delta_final (ct_heap s) p"
  obtains x h' where "check_parent env b p s = (Returned x, s\<lparr>ct_db := (ct_db s)\<lparr>db_heap := h'\<rparr>\<rparr>)"
    and "heap_ok h'" and "shows_same UNIV (ct_heap s) h'" and "length h' = length (ct_heap s)"
    and "\<forall>low. x = Inr low \<longrightarrow> low = 0 \<and> follows_parent env b (ct_heap s) p"
    and "follows_parent env b (ct_heap s) p \<longrightarrow> x = Inr 0"
proof (cases "bl_previous b = null_id")
  case True
  let ?x = "if bl_height b \<noteq> 1 then Inl (controller_error Controller_unexpected_height) else Inr 0"
  have "check_parent env b p s = (Returned ?x, s\<lparr>ct_db := (ct_db s)\<lparr>db_heap := ct_heap s\<rparr>\<rparr>)"
    using True by (simp add: check_parent_def op_defs)
  then show ?thesis
    using True controller_live(2) [OF assms(1,2)] preorder_relD(1) [OF shows_same_preorder]
    by (rule_tac that [of ?x "ct_heap s"]) (simp_all add: follows_parent_def split: if_splits)
next
  case False
  let ?H = "ne_hash env"
  note lv = controller_live [OF assms(1,2)]
  obtain m h' where m: "delta_merkle_root ?H p (ct_heap s) = (Returned m, h')" "heap_ok h'" "shows_same UNIV (ct_heap s) h'"
      "delta_merkle_root ?H p h' = (Returned m, h')" "length h' = length (ct_heap s)"
    using merkle_root_run [OF lv(2,1) assms(3)] by metis
  have sh: "\<forall>x < length (ct_heap s). same_shape (h' ! x) (ct_heap s ! x)" "delta_final h' p"
    using m(3) assms(3) by (simp_all add: shows_same_def)
  have lv': "live h' p" using same_shape_live(1) [OF sh(1) _ lv(1)] m(5) by simp
  obtain r where r: "delta_revision (ct_heap s) p = Returned r" using delta_revision_rev [OF lv(1)] by blast
  then have r': "delta_revision h' p = Returned r" using same_shape_keys(2) sh(1) lv(3) by metis
  let ?c = "set_state_node (Permanent_node p) (execution_context_new h' (ct_vm s) Read_only)"
  obtain hd where hd: "xc_head ?H ?c = (Returned hd, ?c)" "hi_height hd = r" "hi_time hd = 0"
    using xc_head_run [OF m(2) lv' sh(2) m(4) r', of ?c] by (auto simp: set_state_node_def execution_context_new_def)
  let ?s = "s\<lparr>ct_db := (ct_db s)\<lparr>db_heap := h'\<rparr>\<rparr>"
  have root: "on_db (permanent_merkle_root ?H p) s = (Returned m, ?s)"
    using m(1) by (simp add: permanent_merkle_root_def)
  have "in_context Read_only (set_state_node (Permanent_node p)) (xc_head ?H) ?s = (Returned hd, ?s)"
    using hd(1) by (simp add: in_context_def set_state_node_def execution_context_new_def)
  then have "check_parent env b p s =
      (Returned (if bl_state_merkle_root b \<noteq> m then Inl (controller_error Controller_state_merkle_mismatch)
                 else if bl_height b \<noteq> r + 1 then Inl (controller_error Controller_unexpected_height) else Inr 0), ?s)"
    using False root hd by (simp only: check_parent_def andThen_def) (simp add: op_defs)
  then show ?thesis
    by (rule that [OF _ m(2,3,5)]) (use False m(1) r in \<open>simp_all add: follows_parent_def split: if_splits\<close>)
qed

end

lemma in_contextD:
  assumes "in_context i setup m s = (r, s')"
  obtains c' where "m (setup (execution_context_new (ct_heap s) (ct_vm s) i)) = (r, c')"
    and "s' = s\<lparr>ct_db := (ct_db s)\<lparr>db_heap := xc_heap c'\<rparr>, ct_vm := xc_vm c'\<rparr>"
  using assms by (auto simp: in_context_def split: prod.splits)

context delta_container
begin

text \<open>A context that runs on the youngest delta \<open>n\<close>, which is not final.\<close>

lemma run_on_youngest:
  fixes s :: "('c, 'm) controller"
  assumes "controller_ok elems ordered s" and "live (ct_heap s) n" and "\<not> delta_final (ct_heap s) n"
    and "length (ct_heap s) = Suc n" and "state_rel C n (ct_heap s) h'" and "heap_ok h'" and "live h' n" and "cache_ok vm'"
    and "s' = s\<lparr>ct_db := (ct_db s)\<lparr>db_heap := h'\<rparr>, ct_vm := vm'\<rparr>"
  shows "controller_ok elems ordered s'" and "extends_chain elems s s'" and "\<not> delta_final (ct_heap s') n"
    and "length (ct_heap s) \<le> length (ct_heap s')" and "delta_rev (ct_heap s') n = delta_rev (ct_heap s) n"
    and "sd_parent (ct_heap s' ! n) = sd_parent (ct_heap s ! n)"
proof -
  note sh = state_rel_shows_same [OF assms(5,2,7,4)]
  have fin: "delta_final h' n = delta_final (ct_heap s) n" and len: "length (ct_heap s) \<le> length h'"
    using assms(5) by (simp_all add: state_rel_def)
  have inb: "q < n \<or> q = n" if "q \<in> ct_nodes elems s" for q
    using controller_live(3) [OF assms(1) that] assms(4) by auto
  have "shows_same {q \<in> ct_nodes elems s. delta_final (ct_heap s) q} (ct_heap s) h'"
    using sh(1) inb assms(3) unfolding shows_same_def by auto
  moreover have "\<forall>q \<in> ct_nodes elems s. delta_final h' q = delta_final (ct_heap s) q"
    using sh(1) inb fin unfolding shows_same_def by auto
  ultimately show "controller_ok elems ordered s'" "extends_chain elems s s'"
    using controller_step [OF assms(1,6,8) _ _ assms(9)] by blast+
  show "\<not> delta_final (ct_heap s') n" "length (ct_heap s) \<le> length (ct_heap s')"
    using fin len assms(3,9) by simp_all
  show "delta_rev (ct_heap s') n = delta_rev (ct_heap s) n" "sd_parent (ct_heap s' ! n) = sd_parent (ct_heap s ! n)"
    using sh(2) assms(4,9) same_shape_keys(3) [of h' n "ct_heap s"] by (auto simp: same_shape_def)
qed

lemma apply_block_node:
  fixes s s' :: "('c, 'm) controller"
  assumes "env_ok env" and "\<forall>t \<in> set (bl_transactions b). transaction_sized t" and "controller_ok elems ordered s"
    and "n \<in> ct_nodes elems s" and "\<not> delta_final (ct_heap s) n" and "length (ct_heap s) = Suc n"
    and "in_context Block_application (set_state_node (Permanent_node n)) (apply_block env b) s = (r, s')"
  shows "r \<noteq> Threw Diverges"
    and "r = Returned x \<Longrightarrow> controller_ok elems ordered s' \<and> extends_chain elems s s' \<and> db_index (ct_db s') = db_index (ct_db s)
      \<and> \<not> delta_final (ct_heap s') n"
    and "r = Returned (Inr receipt) \<Longrightarrow>
      node_view (ct_heap s) n metadata_space (genesis_key (ne_hash env)) = Some (account_public_key (bl_signer b))
      \<and> (\<forall>a k. nonce_at (ct_heap s) n a = Returned k \<longrightarrow>
           nonce_at (ct_heap s') n a = Returned (k + of_nat (nonce_count a (bl_transactions b))))
      \<and> (ledger_inv (ledger_at (ct_heap s) n) \<longrightarrow> ledger_inv (ledger_at (ct_heap s') n))"
proof -
  let ?c = "set_state_node (Permanent_node n) (execution_context_new (ct_heap s) (ct_vm s) Block_application)"
  note lv = controller_live [OF assms(3,4)]
  have c: "context_ok env ?c" "xc_state_node ?c = Some (Permanent_node n)" "xc_heap ?c = ct_heap s"
    using controller_new_context [OF lv(2,1), of "ct_vm s" "Permanent_node n"] assms(3)
    by (simp_all add: controller_ok_def set_state_node_def execution_context_new_def)
  obtain c' where run: "apply_block env b ?c = (r, c')"
      and s': "s' = s\<lparr>ct_db := (ct_db s)\<lparr>db_heap := xc_heap c'\<rparr>, ct_vm := xc_vm c'\<rparr>"
    using in_contextD [OF assms(7)] by blast
  note whole = apply_block_run [OF assms(1,2) c(1,2) node_delta.simps(1) run]
  show "r \<noteq> Threw Diverges" using whole by blast
  show "controller_ok elems ordered s' \<and> extends_chain elems s s' \<and> db_index (ct_db s') = db_index (ct_db s)
      \<and> \<not> delta_final (ct_heap s') n" if "r = Returned x"
  proof -
    note keep = apply_block_keeps [OF assms(1,2) c(1) run [unfolded that]]
    have "state_rel (\<lambda>sp k. \<exists>t \<in> set (bl_transactions b). transaction_writes t sp k) n (ct_heap s) (xc_heap c')"
      using keep(2) c(2,3) by (simp add: context_rel_def)
    moreover have "heap_ok (xc_heap c')" "live (xc_heap c') n" "cache_ok (xc_vm c')"
      using keep c(2) by (auto simp: apply_ok_def xc_ok_def context_rel_def)
    ultimately show ?thesis
      using run_on_youngest [OF assms(3) lv(1) assms(5,6) _ _ _ _ s'] s' by simp
  qed
  show "node_view (ct_heap s) n metadata_space (genesis_key (ne_hash env)) = Some (account_public_key (bl_signer b))
      \<and> (\<forall>a k. nonce_at (ct_heap s) n a = Returned k \<longrightarrow>
           nonce_at (ct_heap s') n a = Returned (k + of_nat (nonce_count a (bl_transactions b))))
      \<and> (ledger_inv (ledger_at (ct_heap s) n) \<longrightarrow> ledger_inv (ledger_at (ct_heap s') n))" if "r = Returned (Inr receipt)"
    using whole that c(3) s' apply_block_conserves [OF assms(1,2) c(1,2) node_delta.simps(1) _ run [unfolded that]] by simp
qed

end

lemma permanent_finalize_heap:
  assumes "permanent_finalize True p s = (r, s')"
  shows "db_heap s' = (db_heap s)[p := (db_heap s ! p)\<lparr>sd_final := True\<rparr>]"
    and "di_comp (db_index s') = di_comp (db_index s)" and "di_index (db_index s') = di_index (db_index s)"
  using assms
  by (auto simp: permanent_finalize_def index_finalize_def op_defs delta_finalize_def upd_delta_def
      split: outcome.splits if_splits option.splits)

context delta_container
begin

lemma finalize_node:
  fixes s :: "('c, 'm) controller"
  assumes "controller_ok elems ordered s" and "n \<in> ct_nodes elems s" and "ledger_inv (ledger_at (ct_heap s) n)"
    and "di_head (db_index (ct_db s)) = Some t"
  obtains s' where "on_db (permanent_finalize True n) s = (Returned (), s')" and "controller_ok elems ordered s'"
    and "extends_chain elems s s'" and "ct_nodes elems s' = ct_nodes elems s" and "delta_final (ct_heap s') n"
    and "view (ct_heap s') n = view (ct_heap s) n"
    and "di_head (db_index (ct_db s')) = Some (if delta_rev (ct_heap s) t < delta_rev (ct_heap s) n then n else t)"
    and "length (ct_heap s') = length (ct_heap s)"
proof -
  have db: "db_ok elems ordered (ct_db s)" and comp: "di_comp (db_index (ct_db s)) = fifo_comparator"
    using assms(1) by (simp_all add: controller_ok_def)
  obtain d where d: "permanent_finalize True n (ct_db s) = (Returned (), d)" "db_ok elems ordered d" "nodes elems d = ct_nodes elems s"
      "delta_final (db_heap d) n" "di_root (db_index d) = di_root (db_index (ct_db s))"
      "di_head (db_index d) = Some (if delta_rev (ct_heap s) t < delta_rev (ct_heap s) n then n else t)"
    using permanent_finalize_run [OF db assms(2) comp assms(4)] by blast
  note hp = permanent_finalize_heap [OF d(1)]
  let ?s = "s\<lparr>ct_db := d\<rparr>"
  have views: "view (db_heap d) q = view (ct_heap s) q" for q by (simp add: hp(1) finalize_view)
  have fin: "delta_final (db_heap d) q \<longleftrightarrow> delta_final (ct_heap s) q \<or> q = n" if "q \<in> ct_nodes elems s" for q
    using controller_live(3) [OF assms(1) that] by (auto simp: hp(1) delta_final_def nth_upd)
  have rev: "delta_rev (db_heap d) q = delta_rev (ct_heap s) q" for q
    by (simp add: hp(1) delta_rev_def nth_upd)
  have led: "ledger_at (db_heap d) q = ledger_at (ct_heap s) q" for q by (rule ledger_at_view [OF views])
  have "controller_ok elems ordered ?s"
    using assms(1,3) d(2,3,5) hp(2) rev by (auto simp: controller_ok_def fin led)
  moreover have "extends_chain elems s ?s"
    using finalize_shape [of "ct_heap s" n] d(3,5) by (auto simp: extends_chain_def fin views) (simp_all add: hp(1))
  moreover have "on_db (permanent_finalize True n) s = (Returned (), ?s)" using d(1) by simp
  ultimately show ?thesis using that [of ?s] d(3,4,6) views hp(1) by simp
qed

end

context delta_container
begin

lemma controller_root:
  assumes "controller_ok elems ordered s"
  obtains r t where "di_root (db_index (ct_db s)) = Some r" and "di_head (db_index (ct_db s)) = Some t"
    and "r \<in> ct_nodes elems s" and "t \<in> ct_nodes elems s" and "delta_revision (ct_heap s) r = Returned 0"
    and "delta_rev (ct_heap s) r = 0" and "delta_final (ct_heap s) t"
proof -
  obtain r t where r: "di_root (db_index (ct_db s)) = Some r" "di_head (db_index (ct_db s)) = Some t"
      "tree_nodes (ct_heap s) (ct_nodes elems s) r" "head_ok (ct_heap s) (ct_nodes elems s) t"
    using assms by (auto simp: controller_ok_def db_ok_def)
  then have in_nodes: "r \<in> ct_nodes elems s" "t \<in> ct_nodes elems s" by (simp_all add: tree_nodes_def head_ok_def)
  have zero: "delta_rev (ct_heap s) r = 0" using assms r(1) by (simp add: controller_ok_def)
  obtain k where "delta_revision (ct_heap s) r = Returned k" "unat k = 0"
    using delta_revision_rev [OF controller_live(1) [OF assms in_nodes(1)]] zero by auto
  then show ?thesis using that [OF r(1,2) in_nodes _ zero] r(4) by (simp add: unat_eq_0 head_ok_def)
qed

text \<open>The commit of a block that became irreversible ends in an exception, whatever the node.\<close>

lemma commit_step:
  fixes s :: "('c, 'm) controller"
  assumes "controller_ok elems ordered s"
  obtains e s' where "andThen (readsE (\<lambda>s. database_at_revision mi (ct_db s) k i)) (\<lambda>node.
      andThen (readsE (\<lambda>_. case node of None \<Rightarrow> Threw Null_dereference | Some n \<Rightarrow> node_delta n)) (\<lambda>q.
      on_db (permanent_commit H mi True q))) s = (Threw e, s')" and "e \<noteq> Diverges"
proof -
  have db: "db_ok elems ordered (ct_db s)" using assms by (simp add: controller_ok_def)
  obtain r t where r: "di_root (db_index (ct_db s)) = Some r" "di_head (db_index (ct_db s)) = Some t"
      "t \<in> ct_nodes elems s" "delta_rev (ct_heap s) r = 0"
    using controller_root [OF assms] by metis
  let ?p = "case mi_find mi (ct_heap s) (di_index (db_index (ct_db s))) i of Some q \<Rightarrow> q | None \<Rightarrow> t"
  obtain q where q: "q \<in> set (ancestry (ct_heap s) ?p)" "index_at_revision mi (ct_db s) k i = Returned (Some q)"
    using index_at_revision_run [OF db r(1,2) refl, of k i] r(4) by auto
  have "?p \<in> ct_nodes elems s"
    using r(3) db find_iff [of "ct_heap s" "di_index (db_index (ct_db s))" i] by (auto simp: db_ok_def split: option.splits)
  then have "q \<in> ct_nodes elems s"
    using tree_ancestry [of "ct_heap s" "ct_nodes elems s" r ?p] db r(1) q(1) by (auto simp: db_ok_def)
  then show ?thesis
    using permanent_commit_run [OF db, of q H] q(2) that
    by (cases "permanent_commit H mi True q (ct_db s)") (auto simp: op_defs database_at_revision_def split: if_splits)
qed

end

context delta_container
begin

text \<open>Finalizing a node and reading its merkle root.\<close>

lemma settle_node:
  fixes s :: "('c, 'm) controller"
  assumes "controller_ok elems ordered s" and "n \<in> ct_nodes elems s" and "ledger_inv (ledger_at (ct_heap s) n)"
    and "di_head (db_index (ct_db s)) = Some t"
  obtains m s1 s2 where "on_db (permanent_finalize True n) s = (Returned (), s1)"
    and "on_db (permanent_merkle_root H n) s1 = (Returned m, s2)"
    and "controller_ok elems ordered s2" and "extends_chain elems s s2"
    and "ct_nodes elems s2 = ct_nodes elems s" and "delta_final (ct_heap s2) n" and "view (ct_heap s2) n = view (ct_heap s) n"
    and "di_head (db_index (ct_db s2)) = Some (if delta_rev (ct_heap s) t < delta_rev (ct_heap s) n then n else t)"
    and "delta_merkle_root H n (ct_heap s2) = (Returned m, ct_heap s2)"
proof -
  obtain s1 where s1: "on_db (permanent_finalize True n) s = (Returned (), s1)" "controller_ok elems ordered s1"
      "extends_chain elems s s1" "ct_nodes elems s1 = ct_nodes elems s" "delta_final (ct_heap s1) n"
      "view (ct_heap s1) n = view (ct_heap s) n"
      "di_head (db_index (ct_db s1)) = Some (if delta_rev (ct_heap s) t < delta_rev (ct_heap s) n then n else t)"
    using finalize_node [OF assms] by metis
  have n1: "n \<in> ct_nodes elems s1" using assms(2) s1(4) by simp
  note lv = controller_live [OF s1(2) n1]
  obtain m h2 where m: "delta_merkle_root H n (ct_heap s1) = (Returned m, h2)" "heap_ok h2" "shows_same UNIV (ct_heap s1) h2"
      "delta_merkle_root H n h2 = (Returned m, h2)"
    using merkle_root_run [OF lv(2,1) s1(5)] by metis
  define s2 where "s2 = s1\<lparr>ct_db := (ct_db s1)\<lparr>db_heap := h2\<rparr>\<rparr>"
  have "s2 = s1\<lparr>ct_db := (ct_db s1)\<lparr>db_heap := h2\<rparr>, ct_vm := ct_vm s1\<rparr>" by (simp add: s2_def)
  note step = controller_step [OF s1(2) m(2) _ _ _ this]
  have s2: "controller_ok elems ordered s2" "extends_chain elems s1 s2"
    using step m(3) s1(2) by (simp_all add: controller_ok_def shows_same_def)
  have "on_db (permanent_merkle_root H n) s1 = (Returned m, s2)"
    using m(1) by (simp add: permanent_merkle_root_def s2_def)
  moreover have "extends_chain elems s s2" using preorder_relD(2) [OF extends_chain_preorder] s1(3) s2(2) by blast
  ultimately show ?thesis
    using s1(4-7) m(3,4) by (intro that [OF s1(1) _ s2(1)]) (simp_all add: s2_def shows_same_def)
qed

lemma finish_block_node:
  fixes s :: "('c, 'm) controller"
  assumes "controller_ok elems ordered s" and "n \<in> ct_nodes elems s" and "ledger_inv (ledger_at (ct_heap s) n)"
    and "di_head (db_index (ct_db s)) = Some t"
  obtains r s' where "finish_block env mi b (Permanent_node n) receipt s = (r, s')" and "r \<noteq> Threw Diverges"
    and "(\<exists>x. r = Returned x) \<longleftrightarrow> delta_rev (ct_heap s) n \<le> 60"
    and "\<forall>x. r = Returned x \<longrightarrow> controller_ok elems ordered s' \<and> extends_chain elems s s'
        \<and> ct_nodes elems s' = ct_nodes elems s \<and> delta_final (ct_heap s') n \<and> view (ct_heap s') n = view (ct_heap s) n
        \<and> di_head (db_index (ct_db s')) = Some (if delta_rev (ct_heap s) t < delta_rev (ct_heap s) n then n else t)
        \<and> (\<exists>m. x = Inr (receipt\<lparr>br_state_merkle_root := m\<rparr>) \<and> delta_merkle_root (ne_hash env) n (ct_heap s') = (Returned m, ct_heap s'))"
proof -
  let ?H = "ne_hash env"
  obtain m s1 s2 where m: "on_db (permanent_finalize True n) s = (Returned (), s1)"
      "on_db (permanent_merkle_root ?H n) s1 = (Returned m, s2)"
      and s2: "controller_ok elems ordered s2" "extends_chain elems s s2" "ct_nodes elems s2 = ct_nodes elems s"
      "delta_final (ct_heap s2) n" "view (ct_heap s2) n = view (ct_heap s) n"
      "di_head (db_index (ct_db s2)) = Some (if delta_rev (ct_heap s) t < delta_rev (ct_heap s) n then n else t)"
      "delta_merkle_root ?H n (ct_heap s2) = (Returned m, ct_heap s2)"
    using settle_node [OF assms] by metis
  obtain k where k: "delta_revision (ct_heap s) n = Returned k" "unat k = delta_rev (ct_heap s) n"
    using delta_revision_rev [OF controller_live(1) [OF assms(1,2)]] by blast
  obtain rt where rt: "di_root (db_index (ct_db s2)) = Some rt" "delta_revision (ct_heap s2) rt = Returned 0"
    using controller_root [OF s2(1)] by metis
  define commit where "commit irr = andThen (readsE (\<lambda>s :: ('c, 'm) controller. database_at_revision mi (ct_db s) irr (bl_id b))) (\<lambda>node.
      andThen (readsE (\<lambda>_. case node of None \<Rightarrow> Threw Null_dereference | Some n \<Rightarrow> node_delta n)) (\<lambda>q.
      on_db (permanent_commit ?H mi True q)))" for irr
  let ?irr = "if default_irreversible_threshold < k then k - default_irreversible_threshold else 0"
  have eq: "finish_block env mi b (Permanent_node n) receipt s =
      andThen (if 0 < ?irr then commit ?irr else returns ()) (\<lambda>_. returns (Inr (receipt\<lparr>br_state_merkle_root := m\<rparr>))) s2"
    using m k(1) rt unfolding finish_block_def commit_def
    by (simp del: on_db_simp add: andThen_def reads_def readsE_def node_keys database_root_def Let_def)
  have irr: "0 < ?irr \<longleftrightarrow> \<not> delta_rev (ct_heap s) n \<le> 60"
    using k(2) by (auto simp: default_irreversible_threshold_def word_less_nat_alt unat_sub_if' word_le_nat_alt)
  obtain e s3 where e: "commit ?irr s2 = (Threw e, s3)" "e \<noteq> Diverges"
    using commit_step [OF s2(1)] unfolding commit_def by metis
  show ?thesis
  proof (cases "delta_rev (ct_heap s) n \<le> 60")
    case True
    then have "finish_block env mi b (Permanent_node n) receipt s = (Returned (Inr (receipt\<lparr>br_state_merkle_root := m\<rparr>)), s2)"
      using eq irr by (simp add: op_defs)
    then show ?thesis by (rule that) (use True s2 in simp_all)
  next
    case False
    then have "finish_block env mi b (Permanent_node n) receipt s = (Threw e, s3)"
      using eq irr e(1) by (simp add: andThen_def)
    then show ?thesis by (rule that) (use False e(2) in simp_all)
  qed
qed

end

lemma nonce_at_view: "view h' p = view h q \<Longrightarrow> nonce_at h' p a = nonce_at h q a"
  by (simp add: nonce_at_def node_view_def)

text \<open>What an accepted block leaves at its node \<open>n\<close>, on top of the state of its parent that \<open>n\<close> showed before.\<close>

definition block_applied ::
    "('m, 'k) node_env \<Rightarrow> block \<Rightarrow> int \<Rightarrow> block_receipt \<Rightarrow> heap \<Rightarrow> ptr \<Rightarrow> heap \<Rightarrow> ptr \<Rightarrow> bool" where
  "block_applied env b now receipt h p h' n \<longleftrightarrow>
     delta_final h' n \<and> fst (delta_merkle_root (ne_hash env) n h') = Returned (br_state_merkle_root receipt)
     \<and> 0 < bl_timestamp b \<and> bl_timestamp b \<le> time_upper_bound now
     \<and> node_view h p metadata_space (genesis_key (ne_hash env)) = Some (account_public_key (bl_signer b))
     \<and> (\<forall>a k. nonce_at h p a = Returned k \<longrightarrow> nonce_at h' n a = Returned (k + of_nat (nonce_count a (bl_transactions b))))"

context delta_container
begin

lemma checked_parent:
  fixes s :: "('c, 'm) controller"
  assumes "controller_ok elems ordered s" and "p \<in> ct_nodes elems s" and "delta_final (ct_heap s) p"
  obtains x s' where "check_parent env b p s = (Returned x, s')" and "controller_ok elems ordered s'"
    and "extends_chain elems s s'" and "db_index (ct_db s') = db_index (ct_db s)" and "length (ct_heap s') = length (ct_heap s)"
    and "\<forall>q. view (ct_heap s') q = view (ct_heap s) q \<and> delta_final (ct_heap s') q = delta_final (ct_heap s) q"
    and "\<forall>low. x = Inr low \<longrightarrow> low = 0 \<and> follows_parent env b (ct_heap s) p"
    and "follows_parent env b (ct_heap s) p \<longrightarrow> x = Inr 0"
proof -
  obtain x h' where c: "check_parent env b p s = (Returned x, s\<lparr>ct_db := (ct_db s)\<lparr>db_heap := h'\<rparr>\<rparr>)"
    "heap_ok h'" "shows_same UNIV (ct_heap s) h'" "length h' = length (ct_heap s)"
    "\<forall>low. x = Inr low \<longrightarrow> low = 0 \<and> follows_parent env b (ct_heap s) p"
    "follows_parent env b (ct_heap s) p \<longrightarrow> x = Inr 0"
    by (rule check_parent_run [OF assms, of env b])
  have "s\<lparr>ct_db := (ct_db s)\<lparr>db_heap := h'\<rparr>\<rparr> = s\<lparr>ct_db := (ct_db s)\<lparr>db_heap := h'\<rparr>, ct_vm := ct_vm s\<rparr>" by simp
  note step = controller_step [OF assms(1) c(2) _ _ _ this]
  have "controller_ok elems ordered (s\<lparr>ct_db := (ct_db s)\<lparr>db_heap := h'\<rparr>\<rparr>)"
      "extends_chain elems s (s\<lparr>ct_db := (ct_db s)\<lparr>db_heap := h'\<rparr>\<rparr>)"
    using step c(3) assms(1) by (simp_all add: controller_ok_def shows_same_def)
  then show ?thesis
    using c(3-6) by (intro that [OF c(1)]) (simp_all add: shows_same_def)
qed

lemma apply_then_finish:
  fixes s s' :: "('c, 'm) controller"
  assumes env: "env_ok env" and sized: "\<forall>t \<in> set (bl_transactions b). transaction_sized t"
    and ok: "controller_ok elems ordered s" and n: "n \<in> ct_nodes elems s" "\<not> delta_final (ct_heap s) n" "length (ct_heap s) = Suc n"
    and led: "ledger_inv (ledger_at (ct_heap s) n)" and hd: "di_head (db_index (ct_db s)) = Some t"
    and time: "0 < bl_timestamp b" "bl_timestamp b \<le> time_upper_bound now"
    and run: "andThen (in_context Block_application (set_state_node (Permanent_node n)) (apply_block env b)) (\<lambda>r.
           case r of Inl e \<Rightarrow> returns (Inl e) | Inr receipt \<Rightarrow> finish_block env mi b (Permanent_node n) receipt) s = (r, s')"
  shows "r \<noteq> Threw Diverges \<and> (\<forall>x. r = Returned x \<longrightarrow> controller_ok elems ordered s' \<and> extends_chain elems s s')
    \<and> (\<forall>receipt. r = Returned (Inr receipt) \<longrightarrow> block_applied env b now receipt (ct_heap s) n (ct_heap s') n
      \<and> delta_rev (ct_heap s) n \<le> 60
      \<and> di_head (db_index (ct_db s')) = Some (if delta_rev (ct_heap s) t < delta_rev (ct_heap s) n then n else t))"
proof -
  obtain ra s3 where ap: "in_context Block_application (set_state_node (Permanent_node n)) (apply_block env b) s = (ra, s3)"
    by (cases "in_context Block_application (set_state_node (Permanent_node n)) (apply_block env b) s")
  note an = apply_block_node [OF env sized ok n ap]
  show ?thesis
  proof (cases "\<exists>receipt. ra = Returned (Inr receipt)")
    case False
    then show ?thesis using an(1,2) run ap by (cases ra) (auto simp: andThen_def returns_def split: sum.splits)
  next
    case True
    then obtain rc where rc: "ra = Returned (Inr rc)" by blast
    have fin: "finish_block env mi b (Permanent_node n) rc s3 = (r, s')"
      using run ap rc by (simp add: andThen_def)
    have s3: "controller_ok elems ordered s3" "extends_chain elems s s3" "db_index (ct_db s3) = db_index (ct_db s)"
      using an(2) [OF rc] by blast+
    have n3: "n \<in> ct_nodes elems s3" "ledger_inv (ledger_at (ct_heap s3) n)" "di_head (db_index (ct_db s3)) = Some t"
      using n(1) an(3) [OF rc] led s3(3) hd by simp_all
    have rev3: "delta_rev (ct_heap s3) q = delta_rev (ct_heap s) q" if "q \<in> ct_nodes elems s" for q
      using s3(2) controller_live(3) [OF ok that] same_shape_keys(3) unfolding extends_chain_def by metis
    have t: "t \<in> ct_nodes elems s" using controller_root [OF ok] hd by (metis option.inject)
    obtain r' s4 where f: "finish_block env mi b (Permanent_node n) rc s3 = (r', s4)" "r' \<noteq> Threw Diverges"
      "(\<exists>x. r' = Returned x) \<longleftrightarrow> delta_rev (ct_heap s3) n \<le> 60"
      "\<forall>x. r' = Returned x \<longrightarrow> controller_ok elems ordered s4 \<and> extends_chain elems s3 s4
        \<and> ct_nodes elems s4 = ct_nodes elems s3 \<and> delta_final (ct_heap s4) n \<and> view (ct_heap s4) n = view (ct_heap s3) n
        \<and> di_head (db_index (ct_db s4)) = Some (if delta_rev (ct_heap s3) t < delta_rev (ct_heap s3) n then n else t)
        \<and> (\<exists>m. x = Inr (rc\<lparr>br_state_merkle_root := m\<rparr>)
             \<and> delta_merkle_root (ne_hash env) n (ct_heap s4) = (Returned m, ct_heap s4))"
      by (rule finish_block_node [OF s3(1) n3])
    have same: "r' = r" "s4 = s'" using f(1) fin by simp_all
    have ext: "extends_chain elems s s'" if "extends_chain elems s3 s'"
      using preorder_relD(2) [OF extends_chain_preorder] s3(2) that by metis
    have app: "block_applied env b now receipt (ct_heap s) n (ct_heap s') n" if "r = Returned (Inr receipt)" for receipt
      using f(4) an(3) [OF rc] that time nonce_at_view [of "ct_heap s'" n "ct_heap s3" n] unfolding same block_applied_def by auto
    moreover have "delta_rev (ct_heap s) n \<le> 60" if "r = Returned y" for y
      using f(3) that rev3 [OF n(1)] unfolding same by simp
    ultimately show ?thesis
      using f(2,4) ext rev3 [OF n(1)] rev3 [OF t] unfolding same by simp
  qed
qed

lemma process_child_node:
  fixes s s' :: "('c, 'm) controller"
  assumes env: "env_ok env" and sized: "\<forall>t \<in> set (bl_transactions b). transaction_sized t"
    and ok: "controller_ok elems ordered s" and p: "p \<in> ct_nodes elems s" "delta_final (ct_heap s) p"
    and n: "n \<in> ct_nodes elems s" "\<not> delta_final (ct_heap s) n" "length (ct_heap s) = Suc n"
    and led: "ledger_inv (ledger_at (ct_heap s) n)" and hd: "di_head (db_index (ct_db s)) = Some t"
    and run: "process_child env mi b now p (Permanent_node n) s = (r, s')"
  shows "r \<noteq> Threw Diverges \<and> (\<forall>x. r = Returned x \<longrightarrow> controller_ok elems ordered s' \<and> extends_chain elems s s')
    \<and> (\<forall>receipt. r = Returned (Inr receipt) \<longrightarrow> block_applied env b now receipt (ct_heap s) n (ct_heap s') n
      \<and> delta_rev (ct_heap s) n \<le> 60
      \<and> di_head (db_index (ct_db s')) = Some (if delta_rev (ct_heap s) t < delta_rev (ct_heap s) n then n else t)
      \<and> follows_parent env b (ct_heap s) p)"
proof -
  obtain y s2 where s2: "check_parent env b p s = (Returned y, s2)" "controller_ok elems ordered s2" "extends_chain elems s s2"
      "db_index (ct_db s2) = db_index (ct_db s)" "length (ct_heap s2) = length (ct_heap s)"
      "\<forall>q. view (ct_heap s2) q = view (ct_heap s) q \<and> delta_final (ct_heap s2) q = delta_final (ct_heap s) q"
      and y: "\<forall>low. y = Inr low \<longrightarrow> low = 0 \<and> follows_parent env b (ct_heap s) p"
    by (rule checked_parent [OF ok p, of env b]) blast
  have n2: "n \<in> ct_nodes elems s2" "\<not> delta_final (ct_heap s2) n" "length (ct_heap s2) = Suc n"
    using n s2(4-6) by simp_all
  have led2: "ledger_inv (ledger_at (ct_heap s2) n)" using led ledger_at_view s2(6) by metis
  have rev2: "delta_rev (ct_heap s2) q = delta_rev (ct_heap s) q" if "q \<in> ct_nodes elems s" for q
    using s2(3) controller_live(3) [OF ok that] same_shape_keys(3) unfolding extends_chain_def by blast
  show ?thesis
  proof (cases "\<exists>e. y = Inl e \<or> y = Inr 0 \<and> (time_upper_bound now < bl_timestamp b \<or> bl_timestamp b \<le> 0)")
    case True
    then have "\<exists>e. r = Returned (Inl e)" "s' = s2"
      using run s2(1) by (auto simp: process_child_def andThen_def returns_def)
    then show ?thesis using s2(2,3) by auto
  next
    case False
    then have y0: "y = Inr 0" and time: "0 < bl_timestamp b" "bl_timestamp b \<le> time_upper_bound now"
      using y by (cases y; simp add: word_gt_0 not_less)+
    have "andThen (in_context Block_application (set_state_node (Permanent_node n)) (apply_block env b)) (\<lambda>r.
           case r of Inl e \<Rightarrow> returns (Inl e) | Inr receipt \<Rightarrow> finish_block env mi b (Permanent_node n) receipt) s2 = (r, s')"
      using run s2(1) y0 time by (simp add: process_child_def andThen_def not_less [symmetric])
    note fin = apply_then_finish [OF env sized s2(2) n2 led2 _ time this, of t]
    have t: "t \<in> ct_nodes elems s" using controller_root [OF ok] hd by (metis option.inject)
    have "block_applied env b now receipt (ct_heap s) n (ct_heap s') n" if "block_applied env b now receipt (ct_heap s2) n (ct_heap s') n" for receipt
      using that s2(6) nonce_at_view [of "ct_heap s2" n "ct_heap s" n] by (simp add: block_applied_def node_view_def)
    then show ?thesis
      using fin y y0 rev2 [OF n(1)] rev2 [OF t] s2(4) hd preorder_relD(2) [OF extends_chain_preorder s2(3)] by simp
  qed
qed

end

context delta_container
begin

lemma new_block_id:
  fixes s s1 :: "('c, 'm) controller"
  assumes ok: "controller_ok elems ordered s" and p: "p \<in> ct_nodes elems s" and len: "length (ct_heap s) + 1 < 2 ^ 64"
    and run: "on_db (permanent_make_child mi True p i) s = (r, s1)"
  shows "r \<noteq> Threw Diverges" and "r = Returned nd \<Longrightarrow> i \<noteq> null_id \<and> delta_id (ct_heap s1) (length (ct_heap s)) = Returned i"
proof -
  note lv = controller_live [OF ok p]
  have db: "db_ok elems ordered (ct_db s)" using ok by (simp add: controller_ok_def)
  obtain b where b: "sd_backend (ct_heap s ! p) = Some b" using live_backend [OF lv(1)] by blast
  have "unat (be_revision b) = delta_rev (ct_heap s) p" using b by (simp add: delta_rev_def)
  then have rb: "unat (be_revision b) + 1 < 2 ^ 64" using lv(3,4) len by linarith
  have run': "permanent_make_child mi True p i (ct_db s) = (r, ct_db s1)"
    using run by (auto simp: prod_eq_iff)
  note mk = permanent_make_child_run [OF db p b rb refl, of i]
  show "r \<noteq> Threw Diverges" using mk run' by (auto split: if_splits)
  have "delta_id (ct_heap s) p = Returned (be_id b)" using b by (simp add: delta_id_def get_backend_def)
  then have i: "i \<noteq> null_id" if "r = Returned nd" using mk run' that p by (auto split: if_splits)
  then show "i \<noteq> null_id \<and> delta_id (ct_heap s1) (length (ct_heap s)) = Returned i" if "r = Returned nd"
    using that permanent_make_child_heap(1) [OF run' b] by (simp add: delta_id_def get_backend_def map_backend_new_def)
qed

lemma index_get_node:
  assumes "controller_ok elems ordered s" and "n \<in> ct_nodes elems s" and "delta_id (ct_heap s) n = Returned i"
  shows "index_get mi (ct_db s) i = Returned (Some n)"
  using assms find_iff [of "ct_heap s" "di_index (db_index (ct_db s))" i n] db_ok_is_open [of "ct_db s"]
  by (simp add: index_get_def controller_ok_def db_ok_def)

lemma index_get_Some:
  assumes "controller_ok elems ordered s" and "index_get mi (ct_db s) i = Returned (Some n)"
  shows "n \<in> ct_nodes elems s" and "delta_id (ct_heap s) n = Returned i"
  using assms find_iff [of "ct_heap s" "di_index (db_index (ct_db s))" i n]
  by (auto simp: index_get_def controller_ok_def db_ok_def split: if_splits)

lemma index_get_returns:
  assumes "controller_ok elems ordered s"
  obtains x where "index_get mi (ct_db s) i = Returned x"
  using assms db_ok_is_open [of "ct_db s"] by (auto simp: index_get_def controller_ok_def)

lemma missing_parent_run:
  fixes s :: "('c, 'm) controller"
  assumes "controller_ok elems ordered s"
  obtains e where "missing_parent b s = (Returned e, s)"
proof -
  obtain r where r: "di_root (db_index (ct_db s)) = Some r" "r \<in> ct_nodes elems s" "delta_revision (ct_heap s) r = Returned 0"
    using controller_root [OF assms] by metis
  obtain i where "delta_id (ct_heap s) r = Returned i"
    using live_backend [OF controller_live(1) [OF assms r(2)]] by (auto simp: delta_id_def get_backend_def)
  then show ?thesis
    using that r by (auto simp: missing_parent_def op_defs database_root_def node_keys)
qed

end

text \<open>A block \<open>b\<close> accepted between two states: its node \<open>n\<close> is new, hangs below the node \<open>p\<close> of its parent and is final.\<close>

definition block_accepted ::
    "('m, 'k) node_env \<Rightarrow> 'c multi_index \<Rightarrow> block \<Rightarrow> int \<Rightarrow> block_receipt \<Rightarrow> ('c, 'm) controller \<Rightarrow> ptr
       \<Rightarrow> ('c, 'm) controller \<Rightarrow> ptr \<Rightarrow> bool" where
  "block_accepted env mi b now receipt s p s' n \<longleftrightarrow>
     index_get mi (ct_db s) (bl_id b) = Returned None
     \<and> index_get mi (ct_db s) (bl_previous b) = Returned (Some p) \<and> delta_final (ct_heap s) p
     \<and> index_get mi (ct_db s') (bl_id b) = Returned (Some n) \<and> sd_parent (ct_heap s' ! n) = Some p
     \<and> block_applied env b now receipt (ct_heap s) p (ct_heap s') n
     \<and> delta_rev (ct_heap s') n = Suc (delta_rev (ct_heap s) p) \<and> delta_rev (ct_heap s') n \<le> 60
     \<and> bl_height b = of_nat (delta_rev (ct_heap s') n) \<and> follows_parent env b (ct_heap s) p
     \<and> (\<forall>t. di_head (db_index (ct_db s)) = Some t \<longrightarrow>
          di_head (db_index (ct_db s')) = Some (if delta_rev (ct_heap s) t \<le> delta_rev (ct_heap s) p then n else t))"

lemma process_block_rejects:
  assumes "process_block env mi b now s = (r, s')"
  shows "\<not> block_validate (ne_hash env) (ne_scheme env) b \<Longrightarrow> r = Returned (Inl (controller_error Controller_malformed_block)) \<and> s' = s"
    and "block_validate (ne_hash env) (ne_scheme env) b \<Longrightarrow> index_get mi (ct_db s) (bl_id b) = Returned (Some q) \<Longrightarrow>
      index_get mi (ct_db s) (bl_previous b) = Returned y \<Longrightarrow> r = Returned (Inl (controller_error Controller_ok)) \<and> s' = s"
    and "block_validate (ne_hash env) (ne_scheme env) b \<Longrightarrow> index_get mi (ct_db s) (bl_id b) = Returned None \<Longrightarrow>
      index_get mi (ct_db s) (bl_previous b) = Returned None \<Longrightarrow> missing_parent b s = (Returned e, s) \<Longrightarrow> r = Returned (Inl e) \<and> s' = s"
    and "block_validate (ne_hash env) (ne_scheme env) b \<Longrightarrow> index_get mi (ct_db s) (bl_id b) = Returned None \<Longrightarrow>
      index_get mi (ct_db s) (bl_previous b) = Returned (Some p) \<Longrightarrow> \<not> delta_final (ct_heap s) p \<Longrightarrow>
      r = Returned (Inl (controller_error Controller_unknown_previous_block)) \<and> s' = s"
    and "block_validate (ne_hash env) (ne_scheme env) b \<Longrightarrow> index_get mi (ct_db s) (bl_id b) = Returned None \<Longrightarrow>
      index_get mi (ct_db s) (bl_previous b) = Returned (Some p) \<Longrightarrow> delta_final (ct_heap s) p \<Longrightarrow>
      andThen (on_db (permanent_make_child mi True p (bl_id b))) (process_child env mi b now p) s = (r, s')"
  using assms by (auto simp: process_block_def andThen_def readsE_def reads_def returns_def database_get_def permanent_final_def)

context delta_container
begin

lemma parent_height:
  fixes s :: "('c, 'm) controller"
  assumes "controller_ok elems ordered s" and "index_get mi (ct_db s) (bl_previous b) = Returned (Some p)"
    and "follows_parent env b (ct_heap s) p"
  shows "bl_height b = of_nat (Suc (delta_rev (ct_heap s) p))"
proof -
  note p = index_get_Some [OF assms(1,2)]
  obtain rp where rp: "delta_revision (ct_heap s) p = Returned rp" "unat rp = delta_rev (ct_heap s) p"
    using delta_revision_rev [OF controller_live(1) [OF assms(1) p(1)]] by blast
  show ?thesis
  proof (cases "bl_previous b = null_id")
    case True
    obtain r where r: "tree_nodes (ct_heap s) (ct_nodes elems s) r" "delta_rev (ct_heap s) r = 0"
      using assms(1) by (auto simp: controller_ok_def db_ok_def)
    then have "p = r" using p True by (auto simp: tree_nodes_def)
    then show ?thesis using assms(3) True r(2) by (simp add: follows_parent_def)
  next
    case False
    then show ?thesis using assms(3) rp by (auto simp: follows_parent_def simp flip: rp(2))
  qed
qed

end

context delta_container
begin

lemma child_accepted:
  fixes s s1 s' :: "('c, 'm) controller"
  assumes ok: "controller_ok elems ordered s" and len: "length (ct_heap s) + 1 < 2 ^ 64"
    and new: "index_get mi (ct_db s) (bl_id b) = Returned None"
    and par: "index_get mi (ct_db s) (bl_previous b) = Returned (Some p)" and fin: "delta_final (ct_heap s) p"
    and mk: "on_db (permanent_make_child mi True p (bl_id b)) s = (Returned nd, s1)" and n: "n = length (ct_heap s)"
    and t: "di_head (db_index (ct_db s)) = Some t"
    and s': "controller_ok elems ordered s'" "extends_chain elems s1 s'"
    and c: "block_applied env b now receipt (ct_heap s1) n (ct_heap s') n" "delta_rev (ct_heap s1) n \<le> 60"
        "di_head (db_index (ct_db s')) = Some (if delta_rev (ct_heap s1) t < delta_rev (ct_heap s1) n then n else t)"
        "follows_parent env b (ct_heap s1) p"
  shows "block_accepted env mi b now receipt s p s' n"
proof -
  note p = index_get_Some [OF ok par]
  note nw = new_block_node [OF ok p(1) len mk n]
  obtain b0 where b0: "sd_backend (ct_heap s ! p) = Some b0" using live_backend [OF controller_live(1) [OF ok p(1)]] by blast
  have "permanent_make_child mi True p (bl_id b) (ct_db s) = (Returned nd, ct_db s1)" using mk by (auto simp: prod_eq_iff)
  note hp = permanent_make_child_heap(1) [OF this b0]
  have shape: "same_shape (ct_heap s' ! n) (ct_heap s1 ! n)" using s'(2) nw(5) by (simp add: extends_chain_def)
  have "n \<in> ct_nodes elems s'" using s'(2) nw(4) by (auto simp: extends_chain_def)
  moreover have "delta_id (ct_heap s') n = Returned (bl_id b)"
    using new_block_id(2) [OF ok p(1) len mk refl] same_shape_keys(1) [OF shape] by (simp add: n)
  ultimately have "index_get mi (ct_db s') (bl_id b) = Returned (Some n)" by (rule index_get_node [OF s'(1)])
  moreover have "sd_parent (ct_heap s' ! n) = Some p" using shape nw(8) by (simp add: same_shape_def)
  moreover have "block_applied env b now receipt (ct_heap s) p (ct_heap s') n"
    using c(1) nw(6) nonce_at_view [OF nw(6)] by (simp add: block_applied_def node_view_def)
  moreover have "delta_rev (ct_heap s') n = Suc (delta_rev (ct_heap s) p)"
    using same_shape_keys(3) [OF shape] nw(9) by simp
  moreover have "ct_heap s1 ! p = ct_heap s ! p" using hp controller_live(3) [OF ok p(1)] by (simp add: nth_append)
  then have fp: "follows_parent env b (ct_heap s) p" using c(4) follows_parent_cong by metis
  moreover note parent_height [OF ok par fp]
  moreover have "t \<in> ct_nodes elems s" using controller_root [OF ok] t by (metis option.inject)
  then have "delta_rev (ct_heap s1) t = delta_rev (ct_heap s) t"
    using nw(3) controller_live(3) [OF ok] same_shape_keys(3) unfolding extends_chain_def by blast
  ultimately show ?thesis
    using c(2,3) nw(9) new par fin t by (simp add: block_accepted_def less_Suc_eq_le)
qed

lemma process_new_node:
  fixes s s' :: "('c, 'm) controller"
  assumes env: "env_ok env" and sized: "\<forall>t \<in> set (bl_transactions b). transaction_sized t"
    and ok: "controller_ok elems ordered s" and len: "length (ct_heap s) + 1 < 2 ^ 64"
    and new: "index_get mi (ct_db s) (bl_id b) = Returned None"
    and par: "index_get mi (ct_db s) (bl_previous b) = Returned (Some p)" and fin: "delta_final (ct_heap s) p"
    and mk: "on_db (permanent_make_child mi True p (bl_id b)) s = (Returned nd, s1)"
    and run: "process_child env mi b now p nd s1 = (r, s')"
  shows "r \<noteq> Threw Diverges \<and> (\<forall>x. r = Returned x \<longrightarrow> controller_ok elems ordered s' \<and> extends_chain elems s s')
    \<and> (\<forall>receipt. r = Returned (Inr receipt) \<longrightarrow> (\<exists>n. block_accepted env mi b now receipt s p s' n))"
proof -
  define n where "n = length (ct_heap s)"
  note p = index_get_Some [OF ok par]
  note nw = new_block_node [OF ok p(1) len mk n_def]
  have p1: "p \<in> ct_nodes elems s1" "delta_final (ct_heap s1) p" "n \<in> ct_nodes elems s1"
    using nw(3,4) p(1) fin by (auto simp: extends_chain_def)
  have led: "ledger_inv (ledger_at (ct_heap s1) n)"
    using ok p(1) fin ledger_at_view [OF nw(6)] by (simp add: controller_ok_def)
  obtain b0 where b0: "sd_backend (ct_heap s ! p) = Some b0" using live_backend [OF controller_live(1) [OF ok p(1)]] by blast
  have "permanent_make_child mi True p (bl_id b) (ct_db s) = (Returned nd, ct_db s1)" using mk by (auto simp: prod_eq_iff)
  note hp = permanent_make_child_heap(4) [OF this b0]
  obtain t where t: "di_head (db_index (ct_db s)) = Some t" using controller_root [OF ok] by metis
  note ch = process_child_node [OF env sized nw(2) p1(1,2,3) nw(7,5) led _ run [unfolded nw(1)], of t]
  have "block_accepted env mi b now receipt s p s' n" if "r = Returned (Inr receipt)" for receipt
    by (rule child_accepted [OF ok len new par fin mk n_def t]) (use ch t hp that in auto)
  then show ?thesis
    using ch t hp preorder_relD(2) [OF extends_chain_preorder nw(3)] by auto
qed

lemma process_block_run:
  fixes s s' :: "('c, 'm) controller"
  assumes env: "env_ok env" and sized: "\<forall>t \<in> set (bl_transactions b). transaction_sized t"
    and ok: "controller_ok elems ordered s" and len: "length (ct_heap s) + 1 < 2 ^ 64"
    and run: "process_block env mi b now s = (r, s')"
  shows "r \<noteq> Threw Diverges \<and> (\<forall>x. r = Returned x \<longrightarrow> controller_ok elems ordered s' \<and> extends_chain elems s s')
    \<and> (\<forall>receipt. r = Returned (Inr receipt) \<longrightarrow> (\<exists>p n. block_accepted env mi b now receipt s p s' n))"
proof -
  note rej = process_block_rejects [OF run]
  have refl: "extends_chain elems s s" by (rule preorder_relD(1) [OF extends_chain_preorder])
  obtain x y where xy: "index_get mi (ct_db s) (bl_id b) = Returned x" "index_get mi (ct_db s) (bl_previous b) = Returned y"
    using index_get_returns [OF ok] by metis
  obtain e where e: "missing_parent b s = (Returned e, s)" using missing_parent_run [OF ok] by blast
  show ?thesis
  proof (cases "block_validate (ne_hash env) (ne_scheme env) b \<and> x = None \<and> (\<exists>p. y = Some p \<and> delta_final (ct_heap s) p)")
    case False
    then have "\<exists>e. r = Returned (Inl e) \<and> s' = s" using rej(1-4) xy e by (cases x; cases y; blast)
    then show ?thesis using ok refl by auto
  next
    case True
    then obtain p where p: "x = None" "y = Some p" "delta_final (ct_heap s) p" "block_validate (ne_hash env) (ne_scheme env) b" by blast
    obtain rm s1 where mk: "on_db (permanent_make_child mi True p (bl_id b)) s = (rm, s1)" by fastforce
    note pn = index_get_Some(1) [OF ok xy(2) [unfolded p(2)]]
    have rest: "andThen (on_db (permanent_make_child mi True p (bl_id b))) (process_child env mi b now p) s = (r, s')"
      using rej(5) p xy by blast
    show ?thesis
    proof (cases rm)
      case (Threw e)
      then show ?thesis using rest mk new_block_id(1) [OF ok pn len mk] by (auto simp: andThen_def simp del: on_db_simp)
    next
      case (Returned nd)
      then have "process_child env mi b now p nd s1 = (r, s')" using rest mk by (simp add: andThen_def del: on_db_simp)
      then show ?thesis
        using process_new_node [OF env sized ok len _ _ p(3) mk [unfolded Returned]] xy p(1,2) by blast
    qed
  qed
qed

end

section \<open>Transactions and reads leave the chain alone\<close>

lemma shows_same_mono: "shows_same S h h' \<Longrightarrow> U \<subseteq> S \<Longrightarrow> shows_same U h h'"
  by (auto simp: shows_same_def)

lemma cell_rel_final:
  assumes "cell_rel W p h h'" and "delta_final h p"
  shows "h' = h"
proof (rule nth_equalityI)
  show "length h' = length h" using assms(1) by (simp add: cell_rel_def)
  show "h' ! i = h ! i" for i using assms by (cases "i = p") (auto simp: cell_rel_def)
qed

lemma node_make_child_run:
  assumes "heap_ok h" and "live h t" and "n = length h"
  obtains h1 where "node_make_child (Permanent_node t) h = (Returned (Temporary_node (Some n)), h1)" and "heap_ok h1"
    and "live h1 n" and "view h1 n = view h t" and "\<not> delta_final h1 n" and "length h1 = Suc n" and "\<forall>x < n. h1 ! x = h ! x"
proof -
  obtain b where b: "sd_backend (h ! t) = Some b" using live_backend [OF assms(2)] by blast
  note eq = delta_make_child_eq [OF b, of null_id]
  show ?thesis
    using that delta_make_child_run [OF assms(1,2) b, of null_id] assms(3)
    by (auto simp: node_make_child_def op_defs eq nth_append)
qed

context delta_container
begin

lemma controller_head_node:
  fixes s :: "('c, 'm) controller"
  assumes "controller_ok elems ordered s"
  obtains t where "database_head (ct_db s) = Some (Permanent_node t)" and "t \<in> ct_nodes elems s" and "live (ct_heap s) t"
    and "delta_final (ct_heap s) t"
  using controller_root [OF assms] controller_live(1) [OF assms] unfolding database_head_def by (metis option.simps(9))

text \<open>A temporary child of the head, the youngest delta of a controller that otherwise shows the same.\<close>

lemma temporary_child:
  fixes s :: "('c, 'm) controller"
  assumes "controller_ok elems ordered s" and "database_head (ct_db s) = Some (Permanent_node hp)"
  obtains n s1 where "on_db (in_heap (node_make_child (Permanent_node hp))) s = (Returned (Temporary_node (Some n)), s1)"
    and "controller_ok elems ordered s1" and "live (ct_heap s1) n" and "\<not> delta_final (ct_heap s1) n"
    and "length (ct_heap s1) = Suc n" and "db_index (ct_db s1) = db_index (ct_db s)" and "ct_vm s1 = ct_vm s"
    and "shows_same (ct_nodes elems s) (ct_heap s) (ct_heap s1)" and "ct_nodes elems s \<subseteq> {q. q < n}"
proof -
  have live: "live (ct_heap s) hp" using controller_head_node [OF assms(1)] assms(2) by (metis option.inject state_node.inject(1))
  have hok: "heap_ok (ct_heap s)" using assms(1) by (simp add: controller_ok_def db_ok_def)
  define n where "n = length (ct_heap s)"
  obtain h1 where h1: "node_make_child (Permanent_node hp) (ct_heap s) = (Returned (Temporary_node (Some n)), h1)" "heap_ok h1"
      "live h1 n" "\<not> delta_final h1 n" "length h1 = Suc n" "\<forall>x < n. h1 ! x = ct_heap s ! x"
    by (rule node_make_child_run [OF hok live n_def]) blast
  define s1 where "s1 = s\<lparr>ct_db := (ct_db s)\<lparr>db_heap := h1\<rparr>\<rparr>"
  have inb: "q < n" if "q \<in> ct_nodes elems s" for q using controller_live(3) [OF assms(1) that] by (simp add: n_def)
  have v1: "view h1 q = view (ct_heap s) q" if "q < n" for q
    using that h1(6) ancestry_le [of _ "ct_heap s" q] by (intro view_cong) fastforce
  have same: "shows_same (ct_nodes elems s) (ct_heap s) h1"
    using inb v1 h1(5,6) by (auto simp: shows_same_def delta_final_def n_def)
  have "s1 = s\<lparr>ct_db := (ct_db s)\<lparr>db_heap := h1\<rparr>, ct_vm := ct_vm s\<rparr>" by (simp add: s1_def)
  then have "controller_ok elems ordered s1"
    using same assms(1) by (intro controller_step(1) [OF assms(1) h1(2)]) (auto simp: shows_same_def controller_ok_def)
  then show ?thesis
    using h1 same inb by (intro that [of n s1]) (auto simp: s1_def)
qed

lemma process_transaction_run:
  fixes s s' :: "('c, 'm) controller"
  assumes env: "env_ok env" and sized: "transaction_sized t" and ok: "controller_ok elems ordered s"
    and run: "process_transaction env t s = (r, s')"
  shows "r \<noteq> Threw Diverges
    \<and> (\<forall>x. r = Returned x \<longrightarrow> controller_ok elems ordered s' \<and> db_index (ct_db s') = db_index (ct_db s)
         \<and> shows_same (ct_nodes elems s) (ct_heap s) (ct_heap s'))"
proof (cases "transaction_validate (ne_hash env) t \<and> network_id (ne_hash env) = tx_network_id t")
  case False
  then have "(\<exists>e. r = Returned (Inl e)) \<and> s' = s"
    using run by (auto simp: process_transaction_def returns_def split: if_splits)
  then show ?thesis using ok preorder_relD(1) [OF shows_same_preorder] by auto
next
  case True
  obtain hp where hp: "database_head (ct_db s) = Some (Permanent_node hp)"
    using controller_head_node [OF ok] by metis
  obtain n s1 where s1: "on_db (in_heap (node_make_child (Permanent_node hp))) s = (Returned (Temporary_node (Some n)), s1)"
      "controller_ok elems ordered s1" "live (ct_heap s1) n" "\<not> delta_final (ct_heap s1) n" "length (ct_heap s1) = Suc n"
      "db_index (ct_db s1) = db_index (ct_db s)" "ct_vm s1 = ct_vm s"
      "shows_same (ct_nodes elems s) (ct_heap s) (ct_heap s1)" "ct_nodes elems s \<subseteq> {q. q < n}"
    by (rule temporary_child [OF ok hp])
  let ?set = "\<lambda>c :: 'm execution_context. (set_state_node (Temporary_node (Some n)) c)
      \<lparr>xc_resource_meter := set_resource_limits default_resource_limits (xc_resource_meter c)\<rparr>"
  let ?c = "?set (execution_context_new (ct_heap s1) (ct_vm s1) Transaction_application)"
  have c: "apply_ok env ?c" "xc_heap ?c = ct_heap s1" "xc_state_node ?c = Some (Temporary_node (Some n))"
    using controller_new_context [of "ct_heap s1" n "ct_vm s1" "Temporary_node (Some n)" env] s1(2,3)
    by (auto simp: apply_ok_def costs_set_def xc_ok_def costs_ok_def set_resource_limits_def default_resource_limits_def
        controller_ok_def db_ok_def set_state_node_def execution_context_new_def)
  have "in_context Transaction_application ?set (apply_transaction env t) s1 = (r, s')"
    using run True hp s1(1) by (simp add: process_transaction_def andThen_def readsE_def reads_def del: on_db_simp)
  then obtain c' where c': "apply_transaction env t ?c = (r, c')"
      and s': "s' = s1\<lparr>ct_db := (ct_db s1)\<lparr>db_heap := xc_heap c'\<rparr>, ct_vm := xc_vm c'\<rparr>"
    by (rule in_contextD)
  note up = upholdsD [OF apply_transaction_upholds [OF env sized] c(1)]
  have "controller_ok elems ordered s' \<and> shows_same {q. q < n} (ct_heap s1) (ct_heap s')" if "r = Returned x" for x
  proof -
    have keep: "apply_ok env c'" "state_rel (transaction_writes t) n (ct_heap s1) (xc_heap c')" "xc_state_node c' = xc_state_node ?c"
      using up(1) c' that c(2,3) by (auto simp: context_rel_def)
    then have "heap_ok (xc_heap c')" "live (xc_heap c') n" "cache_ok (xc_vm c')"
      using c(3) by (auto simp: apply_ok_def xc_ok_def)
    then show ?thesis
      using run_on_youngest(1) [OF s1(2-5) keep(2) _ _ _ s'] state_rel_shows_same(1) [OF keep(2) s1(3) _ s1(5)] s' by simp
  qed
  moreover have "shows_same (ct_nodes elems s) (ct_heap s) h" if "shows_same {q. q < n} (ct_heap s1) h" for h
    using preorder_relD(2) [OF shows_same_preorder s1(8) shows_same_mono [OF that s1(9)]] .
  moreover have "r \<noteq> Threw Diverges" using up(2) c' by auto
  ultimately show ?thesis using s1(6) s' by simp
qed

text \<open>A context on the head, for queries.\<close>

lemma head_context:
  fixes s :: "('c, 'm) controller"
  assumes "controller_ok elems ordered s"
  obtains t where "context_ok env (at_head s (execution_context_new (ct_heap s) (ct_vm s) i))"
    and "xc_state_node (at_head s (execution_context_new (ct_heap s) (ct_vm s) i)) = Some (Permanent_node t)"
    and "delta_final (ct_heap s) t" and "live (ct_heap s) t"
proof -
  obtain t where t: "database_head (ct_db s) = Some (Permanent_node t)" "live (ct_heap s) t" "delta_final (ct_heap s) t"
    using controller_head_node [OF assms] by metis
  have "heap_ok (ct_heap s)" "cache_ok (ct_vm s)" using assms by (simp_all add: controller_ok_def db_ok_def)
  then show ?thesis
    using that [of t] t controller_new_context [of "ct_heap s" t "ct_vm s" "Permanent_node t" env i]
    by (simp add: at_head_def set_state_node_def)
qed

lemma read_program_run:
  fixes s s' :: "('c, 'm) controller"
  assumes env: "env_ok env" and len: "length a = 33" and ok: "controller_ok elems ordered s"
    and run: "read_program env a input s = (r, s')"
  shows "r \<noteq> Threw Diverges \<and> (\<forall>x. r = Returned x \<longrightarrow> controller_ok elems ordered s' \<and> ct_db s' = ct_db s)"
proof -
  let ?set = "\<lambda>c. (at_head s c)\<lparr>xc_resource_meter :=
      set_resource_limits (read_limits (ct_read_compute_bandwidth_limit s)) (xc_resource_meter c)\<rparr>"
  let ?c = "?set (execution_context_new (ct_heap s) (ct_vm s) Read_only)"
  let ?run = "run_program call_fuel env Relaxed a (pi_stdin input) (pi_arguments input)"
  obtain t where t: "context_ok env ?c" "xc_state_node ?c = Some (Permanent_node t)" "delta_final (ct_heap s) t" "xc_heap ?c = ct_heap s"
    using head_context [OF ok, of env Read_only]
    by (auto simp: xc_ok_def costs_ok_def set_resource_limits_def at_head_def execution_context_new_def resource_meter_new_def)
  obtain x s1 where x: "in_context Read_only ?set ?run s = (x, s1)" by fastforce
  have out: "r = (case x of Threw e \<Rightarrow> Threw e | Returned y \<Rightarrow> Returned (case y of Inl e \<Rightarrow> Inl e | Inr f \<Rightarrow> Inr (frame_output f)))" "s' = s1"
    using run x by (auto simp: read_program_def andThen_def returns_def split: outcome.splits)
  obtain c' where c': "?run ?c = (x, c')" and s1: "s1 = s\<lparr>ct_db := (ct_db s)\<lparr>db_heap := xc_heap c'\<rparr>, ct_vm := xc_vm c'\<rparr>"
    by (rule in_contextD [OF x])
  note up = upholdsD [OF run_program_upholds [OF env len] t(1)]
  have "ct_db s1 = ct_db s \<and> cache_ok (ct_vm s1)" if "x = Returned y" for y
  proof -
    have keep: "context_ok env c'" "run_rel (writes_of a) ?c c'" using up(1) c' that by blast+
    then have "cell_rel (writes_of a) t (ct_heap s) (xc_heap c')" using t(2,4) by (auto simp: run_rel_def xc_rel_def)
    then show ?thesis using cell_rel_final t(3) keep(1) s1 by (auto simp: xc_ok_def)
  qed
  moreover have "x \<noteq> Threw Diverges" using up(2) c' by auto
  moreover have "controller_ok elems ordered s1" if "ct_db s1 = ct_db s" "cache_ok (ct_vm s1)"
    using ok that by (simp add: controller_ok_def)
  ultimately show ?thesis using out by (auto split: outcome.splits)
qed

end

lemma apply_empty_block:
  assumes "bl_transactions b = []" and "xc_state_node c = Some nd" and "node_delta nd = Returned p" and "live (xc_heap c) p" and "heap_ok (xc_heap c)"
    and "node_view (xc_heap c) p metadata_space (genesis_key (ne_hash env)) = Some (account_public_key (bl_signer b))"
  shows "\<exists>receipt c'. apply_block env b c = (Returned (Inr receipt), c')"
  using assms
  by (auto simp: apply_block_def the_node_def op_defs read_object_def node_get_def node_view_def delta_get_view)

context delta_container
begin

lemma new_block_returns:
  fixes s :: "('c, 'm) controller"
  assumes ok: "controller_ok elems ordered s" and p: "p \<in> ct_nodes elems s" and len: "length (ct_heap s) + 1 < 2 ^ 64"
    and "i \<noteq> null_id" and "index_get mi (ct_db s) i = Returned None"
  obtains nd s1 where "on_db (permanent_make_child mi True p i) s = (Returned nd, s1)"
proof -
  note lv = controller_live [OF ok p]
  have db: "db_ok elems ordered (ct_db s)" using ok by (simp add: controller_ok_def)
  obtain b where b: "sd_backend (ct_heap s ! p) = Some b" using live_backend [OF lv(1)] by blast
  have "unat (be_revision b) = delta_rev (ct_heap s) p" using b by (simp add: delta_rev_def)
  then have rb: "unat (be_revision b) + 1 < 2 ^ 64" using lv(3,4) len by linarith
  have "\<not> (\<exists>q \<in> ct_nodes elems s. delta_id (ct_heap s) q = Returned i)"
    using index_get_node [OF ok] assms(5) by fastforce
  then show ?thesis
    using permanent_make_child_run [OF db p b rb refl, of i] assms(4) that by auto
qed

lemma empty_block_child:
  fixes s :: "('c, 'm) controller"
  assumes env: "env_ok env" and ok: "controller_ok elems ordered s" and p: "p \<in> ct_nodes elems s" "delta_final (ct_heap s) p"
    and n: "n \<in> ct_nodes elems s" "\<not> delta_final (ct_heap s) n" "length (ct_heap s) = Suc n"
    and led: "ledger_inv (ledger_at (ct_heap s) n)" and rev: "delta_rev (ct_heap s) n \<le> 60"
    and fp: "follows_parent env b (ct_heap s) p" and time: "0 < bl_timestamp b" "bl_timestamp b \<le> time_upper_bound now"
    and empty: "bl_transactions b = []"
    and key: "node_view (ct_heap s) n metadata_space (genesis_key (ne_hash env)) = Some (account_public_key (bl_signer b))"
  shows "\<exists>receipt s'. process_child env mi b now p (Permanent_node n) s = (Returned (Inr receipt), s')"
proof -
  obtain s2 where s2: "check_parent env b p s = (Returned (Inr 0), s2)" "controller_ok elems ordered s2" "extends_chain elems s s2"
      "db_index (ct_db s2) = db_index (ct_db s)" "length (ct_heap s2) = length (ct_heap s)"
      "\<forall>q. view (ct_heap s2) q = view (ct_heap s) q \<and> delta_final (ct_heap s2) q = delta_final (ct_heap s) q"
    by (rule checked_parent [OF ok p, of env b]) (use fp in blast)
  have n2: "n \<in> ct_nodes elems s2" "\<not> delta_final (ct_heap s2) n" "length (ct_heap s2) = Suc n"
    using n s2(4-6) by simp_all
  note lv = controller_live [OF s2(2) n2(1)]
  let ?c = "set_state_node (Permanent_node n) (execution_context_new (ct_heap s2) (ct_vm s2) Block_application)"
  obtain rc c' where "apply_block env b ?c = (Returned (Inr rc), c')"
    using apply_empty_block [OF empty, of ?c "Permanent_node n" n env] lv(1,2) key s2(6)
    by (auto simp: set_state_node_def execution_context_new_def node_view_def)
  then obtain s3 where ap: "in_context Block_application (set_state_node (Permanent_node n)) (apply_block env b) s2 = (Returned (Inr rc), s3)"
    by (simp add: in_context_def)
  note an = apply_block_node [OF env _ s2(2) n2 ap]
  have s3: "controller_ok elems ordered s3" "extends_chain elems s2 s3" "db_index (ct_db s3) = db_index (ct_db s2)"
    using an(2) empty by simp_all
  have "ledger_inv (ledger_at (ct_heap s2) n)" using led ledger_at_view s2(6) by metis
  then have led3: "ledger_inv (ledger_at (ct_heap s3) n)" using an(3) empty by simp
  have n3: "n \<in> ct_nodes elems s3" using n2(1) s3(3) by simp
  obtain t where t: "di_head (db_index (ct_db s3)) = Some t" using controller_root [OF s3(1)] by metis
  have "extends_chain elems s s3" using preorder_relD(2) [OF extends_chain_preorder s2(3) s3(2)] .
  then have "delta_rev (ct_heap s3) n \<le> 60" using n(3) rev same_shape_keys(3) [of "ct_heap s3" n "ct_heap s"] by (simp add: extends_chain_def)
  moreover obtain r' s4 where "finish_block env mi b (Permanent_node n) rc s3 = (r', s4)"
      "(\<exists>x. r' = Returned x) \<longleftrightarrow> delta_rev (ct_heap s3) n \<le> 60"
      "\<forall>x. r' = Returned x \<longrightarrow> (\<exists>m. x = Inr (rc\<lparr>br_state_merkle_root := m\<rparr>))"
    by (rule finish_block_node [OF s3(1) n3 led3 t]) blast
  ultimately show ?thesis
    using s2(1) time ap by (auto simp: process_child_def andThen_def not_less [symmetric])
qed

lemma empty_block_run:
  fixes s :: "('c, 'm) controller"
  assumes env: "env_ok env" and ok: "controller_ok elems ordered s" and len: "length (ct_heap s) + 1 < 2 ^ 64"
    and valid: "block_validate (ne_hash env) (ne_scheme env) b" "bl_id b \<noteq> null_id"
    and new: "index_get mi (ct_db s) (bl_id b) = Returned None"
    and par: "index_get mi (ct_db s) (bl_previous b) = Returned (Some p)" and fin: "delta_final (ct_heap s) p"
    and rev: "delta_rev (ct_heap s) p < 60"
    and fp: "follows_parent env b (ct_heap s) p" and time: "bl_timestamp b \<le> time_upper_bound now"
    and empty: "bl_transactions b = []"
    and key: "node_view (ct_heap s) p metadata_space (genesis_key (ne_hash env)) = Some (account_public_key (bl_signer b))"
  shows "\<exists>receipt s'. process_block env mi b now s = (Returned (Inr receipt), s')"
proof -
  define n where "n = length (ct_heap s)"
  note p = index_get_Some [OF ok par]
  obtain nd s1 where mk: "on_db (permanent_make_child mi True p (bl_id b)) s = (Returned nd, s1)"
    by (rule new_block_returns [OF ok p(1) len valid(2) new])
  note nw = new_block_node [OF ok p(1) len mk n_def]
  have p1: "p \<in> ct_nodes elems s1" "delta_final (ct_heap s1) p" "n \<in> ct_nodes elems s1"
    using nw(3,4) p(1) fin by (auto simp: extends_chain_def)
  have led: "ledger_inv (ledger_at (ct_heap s1) n)"
    using ok p(1) fin ledger_at_view [OF nw(6)] by (simp add: controller_ok_def)
  obtain b0 where b0: "sd_backend (ct_heap s ! p) = Some b0" using live_backend [OF controller_live(1) [OF ok p(1)]] by blast
  have "permanent_make_child mi True p (bl_id b) (ct_db s) = (Returned nd, ct_db s1)" using mk by (auto simp: prod_eq_iff)
  then have "ct_heap s1 ! p = ct_heap s ! p"
    using permanent_make_child_heap(1) [OF _ b0] controller_live(3) [OF ok p(1)] by (simp add: nth_append)
  then have fp1: "follows_parent env b (ct_heap s1) p" using fp follows_parent_cong by metis
  have "\<exists>receipt s'. process_child env mi b now p (Permanent_node n) s1 = (Returned (Inr receipt), s')"
    using valid(1) key nw(6,9) rev
    by (intro empty_block_child [OF env nw(2) p1(1,2,3) nw(7,5) led _ fp1 _ time empty])
       (simp_all add: block_validate_def word_gt_0 node_view_def)
  moreover obtain r s' where run: "process_block env mi b now s = (r, s')" by fastforce
  ultimately show ?thesis
    using process_block_rejects(5) [OF run valid(1) new par fin] mk nw(1) by (auto simp: andThen_def simp del: on_db_simp)
qed

end

section \<open>Opening with genesis data\<close>

definition genesis_pairs :: "genesis_entry list \<Rightarrow> (bytes \<times> bytes) list" where
  "genesis_pairs data = map (\<lambda>e. (make_compound_key (ge_space e) (ge_key e), ge_value e)) data"

lemma fresh_keys_Cons:
  "v k = None \<Longrightarrow> distinct (k # ks) \<and> (\<forall>x \<in> set (k # ks). v x = None)
     \<longleftrightarrow> distinct ks \<and> (\<forall>x \<in> set ks. (v(k \<mapsto> u)) x = None)"
  by auto

lemma genesis_loop_run:
  assumes "heap_ok h" and "live h p" and "\<not> delta_final h p" and "node_delta nd = Returned p"
    and "\<forall>e \<in> set data. object_space_ok (ge_space e)"
  shows "\<exists>r h'. genesis_loop data nd h = (r, h') \<and> heap_ok h' \<and> live h' p \<and> cell_rel (\<lambda>_. True) p h h'
     \<and> (if distinct (map fst (genesis_pairs data)) \<and> (\<forall>k \<in> set (map fst (genesis_pairs data)). view h p k = None)
        then r = Returned () \<and> view h' p = view h p ++ map_of (genesis_pairs data)
        else r = Threw (Runtime_error ''encountered unexpected object in initial state''))"
  using assms
proof (induction data arbitrary: h)
  case Nil
  then show ?case using preorder_relD(1) [OF cell_rel_preorder] by (simp add: returns_def genesis_pairs_def)
next
  case (Cons e es)
  let ?k = "make_compound_key (ge_space e) (ge_key e)"
  have get: "node_get h nd (ge_space e) (ge_key e) = Returned (view h p ?k)"
    using Cons.prems by (simp add: node_get_def delta_get_view)
  have sp: "object_space_ok (ge_space e)" "\<forall>e \<in> set es. object_space_ok (ge_space e)" using Cons.prems(5) by simp_all
  show ?case
  proof (cases "view h p ?k")
    case (Some v)
    then show ?thesis
      using get Cons.prems preorder_relD(1) [OF cell_rel_preorder] by (simp add: op_defs genesis_pairs_def)
  next
    case None
    obtain m h1 where put: "node_put nd (ge_space e) (ge_key e) (ge_value e) h = (Returned m, h1)"
      using node_put_run [OF Cons.prems(1-4)] by blast
    note c1 = node_put_cell [OF Cons.prems(1,2,4) sp(1) put]
    have c: "cell_rel (\<lambda>_. True) p h h1" using cell_rel_mono [of "\<lambda>t. t = ge_space e" p h h1 "\<lambda>_. True"] c1 by blast
    then have fin: "\<not> delta_final h1 p" using Cons.prems(3) by (simp add: cell_rel_def delta_final_def)
    obtain r h' where ih: "genesis_loop es nd h1 = (r, h')" "heap_ok h'" "live h' p" "cell_rel (\<lambda>_. True) p h1 h'"
      "if distinct (map fst (genesis_pairs es)) \<and> (\<forall>k \<in> set (map fst (genesis_pairs es)). view h1 p k = None)
        then r = Returned () \<and> view h' p = view h1 p ++ map_of (genesis_pairs es)
        else r = Threw (Runtime_error ''encountered unexpected object in initial state'')"
      using Cons.IH [OF _ _ fin Cons.prems(4) sp(2)] c1 by blast
    have run: "genesis_loop (e # es) nd h = (r, h')" using get put None ih(1) by (simp add: op_defs)
    have pairs: "genesis_pairs (e # es) = (?k, ge_value e) # genesis_pairs es" by (simp add: genesis_pairs_def)
    have v1: "view h1 p = (view h p)(?k \<mapsto> ge_value e)" using c1 by blast
    have keys: "distinct (map fst (genesis_pairs (e # es))) \<and> (\<forall>k \<in> set (map fst (genesis_pairs (e # es))). view h p k = None)
      \<longleftrightarrow> distinct (map fst (genesis_pairs es)) \<and> (\<forall>k \<in> set (map fst (genesis_pairs es)). view h1 p k = None)"
      unfolding pairs v1 list.map fst_conv by (rule fresh_keys_Cons [where v = "view h p" and k = ?k, OF None])
    have "view h1 p ++ map_of (genesis_pairs es) = view h p ++ map_of (genesis_pairs (e # es))"
      if "?k \<notin> fst ` set (genesis_pairs es)"
      using that unfolding pairs v1 by (simp add: map_add_upd_left dom_map_of_conv_image_fst)
    moreover have "?k \<notin> fst ` set (genesis_pairs es)" if "distinct (map fst (genesis_pairs (e # es)))"
      using that by (simp add: pairs)
    moreover have "cell_rel (\<lambda>_. True) p h h'" by (rule preorder_relD(2) [OF cell_rel_preorder c ih(4)])
    ultimately show ?thesis using run ih(2,3,5) unfolding keys [symmetric] by (auto split: if_splits)
  qed
qed

definition genesis_data_ok :: "(bytes \<Rightarrow> digest) \<Rightarrow> genesis_entry list \<Rightarrow> bool" where
  "genesis_data_ok H data \<longleftrightarrow> distinct (map fst (genesis_pairs data))
     \<and> make_compound_key metadata_space (genesis_key H) \<in> set (map fst (genesis_pairs data))"

lemma fresh_root:
  "heap_ok [state_delta_default]" "live [state_delta_default] 0" "\<not> delta_final [state_delta_default] 0"
  "view [state_delta_default] 0 = Map.empty" "delta_rev [state_delta_default] 0 = 0"
proof -
  show "heap_ok [state_delta_default]" "live [state_delta_default] 0" "\<not> delta_final [state_delta_default] 0"
      "delta_rev [state_delta_default] 0 = 0"
    by (simp_all add: heap_ok_def delta_ok_def state_delta_default_def backend_ok_def map_backend_default_def live_def
        ancestry_root delta_final_def delta_rev_def)
  show "view [state_delta_default] 0 = Map.empty"
    using view_root [of "[state_delta_default]" 0 map_backend_default]
    by (simp add: state_delta_default_def map_backend_default_def backend_get_def [abs_def] fun_eq_iff)
qed

lemma genesis_function_run:
  assumes "\<forall>e \<in> set data. object_space_ok (ge_space e)"
  obtains r h' where "genesis_function H data (Temporary_node (Some 0)) [state_delta_default] = (r, h')" and "heap_ok h'" and "live h' 0"
    and "length h' = 1" and "sd_parent (h' ! 0) = None" and "delta_rev h' 0 = 0"
    and "if genesis_data_ok H data then r = Returned () \<and> view h' 0 = map_of (genesis_pairs data) else \<exists>m. r = Threw (Runtime_error m)"
proof -
  let ?n = "Temporary_node (Some 0)" and ?h = "[state_delta_default]" and ?k = "make_compound_key metadata_space (genesis_key H)"
  obtain r h' where g: "genesis_loop data ?n ?h = (r, h')" "heap_ok h'" "live h' 0" "cell_rel (\<lambda>_. True) 0 ?h h'"
     "if distinct (map fst (genesis_pairs data)) then r = Returned () \<and> view h' 0 = map_of (genesis_pairs data)
      else r = Threw (Runtime_error ''encountered unexpected object in initial state'')"
    using genesis_loop_run [OF fresh_root(1-3) _ assms, of ?n] by (auto simp: fresh_root(4))
  have c: "length h' = 1" "sd_parent (h' ! 0) = None" "delta_revision h' 0 = delta_revision ?h 0"
    using g(4) by (simp_all add: cell_rel_def state_delta_default_def)
  then have "delta_rev h' 0 = 0"
    using delta_revision_rev [OF g(3)] delta_revision_rev [OF fresh_root(2)] fresh_root(5) by auto
  moreover have get: "node_get h' ?n metadata_space (genesis_key H) = Returned (view h' 0 ?k)"
    using g(2,3) by (simp add: node_get_def delta_get_view)
  define r' where "r' = (case r of Threw e \<Rightarrow> Threw e | Returned _ \<Rightarrow>
      if view h' 0 ?k = None then Threw (Runtime_error ''could not find genesis public key in database'') else Returned ())"
  have "genesis_function H data ?n ?h = (r', h')"
    using g(1) get by (simp add: genesis_function_def op_defs r'_def split: outcome.split)
  moreover have "if genesis_data_ok H data then r' = Returned () \<and> view h' 0 = map_of (genesis_pairs data) else \<exists>m. r' = Threw (Runtime_error m)"
    using g(5) by (auto simp: r'_def genesis_data_ok_def map_of_eq_None_iff rev_image_eqI split: if_splits)
  ultimately show ?thesis using that g(2,3) c(1,2) by blast
qed

lemma controller_open_run:
  assumes "delta_container mi elems ordered" and "\<forall>e \<in> set data. object_space_ok (ge_space e)"
  obtains r and s' :: "('c, 'm) controller" where "controller_open env mi data Fifo False (controller_new mi limit) = (r, s')"
    and "if genesis_data_ok (ne_hash env) data then r = Returned () \<and> ct_nodes elems s' = {0} \<and> delta_final (ct_heap s') 0
        \<and> database_root (ct_db s') = Some (Permanent_node 0) \<and> database_head (ct_db s') = Some (Permanent_node 0)
        \<and> view (ct_heap s') 0 = map_of (genesis_pairs data)
        \<and> (ledger_inv (ledger_at (ct_heap s') 0) \<longrightarrow> controller_ok elems ordered s')
      else \<exists>m. r = Threw (Runtime_error m)"
proof -
  let ?init = "genesis_function (ne_hash env) data"
  obtain r h' where g: "?init (Temporary_node (Some 0)) [state_delta_default] = (r, h')" "heap_ok h'" "live h' 0" "length h' = 1"
      "sd_parent (h' ! 0) = None" "delta_rev h' 0 = 0"
      "if genesis_data_ok (ne_hash env) data then r = Returned () \<and> view h' 0 = map_of (genesis_pairs data) else \<exists>m. r = Threw (Runtime_error m)"
    by (rule genesis_function_run [OF assms(2)])
  show ?thesis
  proof (cases "genesis_data_ok (ne_hash env) data")
    case True
    obtain b where b: "sd_backend (h' ! 0) = Some b" using live_backend [OF g(3)] by blast
    obtain d where d: "database_open mi ?init Fifo (database_new mi []) = (Returned (), d)" "db_ok elems ordered d" "nodes elems d = {0}"
        "database_root d = Some (Permanent_node 0)" "database_head d = Some (Permanent_node 0)" "delta_final (db_heap d) 0"
        "di_comp (db_index d) = fifo_comparator" "db_heap d = h'[0 := (h' ! 0)\<lparr>sd_final := True\<rparr>]"
      using database_open_run [OF assms(1), of ?init "[]" h' b] g True b by auto
    let ?s = "(controller_new mi limit)\<lparr>ct_db := d\<rparr> :: ('c, 'm) controller"
    have "view (db_heap d) 0 = view h' 0" "delta_rev (db_heap d) 0 = 0"
      using g(4,6) by (simp_all add: d(8) finalize_view delta_rev_def nth_upd)
    moreover have "cache_ok (module_cache_new default_module_cache_size :: 'm module_cache)" by (rule cache_ok_new) (simp add: default_module_cache_size_def)
    ultimately have "ledger_inv (ledger_at (db_heap d) 0) \<Longrightarrow> controller_ok elems ordered ?s"
      using d(2-7) by (auto simp: controller_ok_def controller_new_def database_root_def)
    moreover have "controller_open env mi data Fifo False (controller_new mi limit) = (Returned (), ?s)"
      using d(1) by (simp add: controller_open_def op_defs controller_new_def)
    ultimately show ?thesis
      using that [of "Returned ()" ?s] True g(7) d \<open>view (db_heap d) 0 = view h' 0\<close> by simp
  next
    case False
    then obtain m where m: "r = Threw (Runtime_error m)" using g(7) by auto
    have "delta_revision [state_delta_default] 0 = Returned 0"
      by (simp add: delta_revision_def get_backend_def state_delta_default_def map_backend_default_def)
    then have "fst (controller_open env mi data Fifo False (controller_new mi limit)) = Threw (Runtime_error m)"
      using g(1) m
      by (simp add: controller_open_def op_defs controller_new_def database_open_def index_open_def index_open_comp_def
          database_new_def make_shared_def)
    then show ?thesis
      using that [of "Threw (Runtime_error m)" "snd (controller_open env mi data Fifo False (controller_new mi limit))"] False
      by (simp add: prod_eq_iff)
  qed
qed

section \<open>Sequences of calls\<close>

text \<open>The calls of the controller between opening and closing, each returning, on an index that fits the address space.\<close>

inductive chain_step :: "('m, 'k) node_env \<Rightarrow> 'c multi_index \<Rightarrow> ('c, 'm) controller \<Rightarrow> ('c, 'm) controller \<Rightarrow> bool"
  for env :: "('m, 'k) node_env" and mi :: "'c multi_index" where
  Block: "chain_step env mi s s'"
    if "process_block env mi b now s = (Returned x, s')" "\<forall>t \<in> set (bl_transactions b). transaction_sized t"
      "length (ct_heap s) + 1 < 2 ^ 64"
| Transaction: "chain_step env mi s s'"
    if "process_transaction env t s = (Returned y, s')" "transaction_sized t"
| Read: "chain_step env mi s s'"
    if "read_program env a input s = (Returned z, s')" "length a = 33"
| Head: "chain_step env mi s s'"
    if "controller_head env s = (Returned u, s')"
| Nonce: "chain_step env mi s s'"
    if "controller_account_nonce a s = (Returned v, s')"

inductive chain_reaches :: "('m, 'k) node_env \<Rightarrow> 'c multi_index \<Rightarrow> ('c, 'm) controller \<Rightarrow> ('c, 'm) controller \<Rightarrow> bool"
  for env :: "('m, 'k) node_env" and mi :: "'c multi_index" where
  Start: "chain_reaches env mi s s"
| Step: "chain_reaches env mi s s''"
    if "chain_reaches env mi s s'" "chain_step env mi s' s''"

lemma shows_same_extends:
  assumes "shows_same (ct_nodes elems s) (ct_heap s) (ct_heap s')" and "db_index (ct_db s') = db_index (ct_db s)"
  shows "extends_chain elems s s'"
  using assms by (auto simp: shows_same_def extends_chain_def)

context delta_container
begin

lemma controller_head_run:
  fixes s :: "('c, 'm) controller"
  assumes "controller_ok elems ordered s"
  obtains u s' where "controller_head env s = (Returned u, s')" and "controller_ok elems ordered s'" and "extends_chain elems s s'"
proof -
  let ?H = "ne_hash env"
  obtain t where t: "database_head (ct_db s) = Some (Permanent_node t)" "t \<in> ct_nodes elems s" "live (ct_heap s) t" "delta_final (ct_heap s) t"
    using controller_head_node [OF assms] by metis
  have hok: "heap_ok (ct_heap s)" "cache_ok (ct_vm s)" using assms by (simp_all add: controller_ok_def db_ok_def)
  obtain m h' where m: "delta_merkle_root ?H t (ct_heap s) = (Returned m, h')" "heap_ok h'" "shows_same UNIV (ct_heap s) h'"
    using merkle_root_run [OF hok(1) t(3,4)] by metis
  have i: "\<exists>i. delta_id (ct_heap s) t = Returned i" "\<exists>r. delta_revision (ct_heap s) t = Returned r"
    using live_backend [OF t(3)] by (auto simp: delta_id_def delta_revision_def get_backend_def)
  have j: "\<exists>j. delta_parent_id (ct_heap s) t = Returned j"
    using ordered_keys assms t(2) by (auto simp: controller_ok_def db_ok_def)
  let ?s = "s\<lparr>ct_db := (ct_db s)\<lparr>db_heap := h'\<rparr>, ct_vm := ct_vm s\<rparr>"
  obtain u where "controller_head env s = (Returned u, ?s)"
    using m(1) t(1) i j
    by (auto simp: controller_head_def in_context_def at_head_def execution_context_new_def xc_head_def the_node_def op_defs
        node_keys on_heap_def)
  moreover have "controller_ok elems ordered ?s" "extends_chain elems s ?s"
    using controller_step [OF assms m(2) hok(2) _ _ refl] m(3) by (simp_all add: shows_same_def)
  ultimately show ?thesis using that by blast
qed

lemma account_nonce_pure:
  assumes "controller_account_nonce a s = (r, s')"
  shows "s' = s"
  using assms
  by (auto simp: controller_account_nonce_def in_context_def account_nonce_def at_head_def execution_context_new_def the_node_def
      read_object_def op_defs split: option.splits outcome.splits prod.splits)

lemma chain_step_keeps:
  fixes s s' :: "('c, 'm) controller"
  assumes "chain_step env mi s s'" and env: "env_ok env" and ok: "controller_ok elems ordered s"
  shows "controller_ok elems ordered s' \<and> extends_chain elems s s'"
  using assms(1)
proof cases
  case (Block b now x)
  then show ?thesis using process_block_run [OF env Block(2) ok Block(3,1)] by blast
next
  case (Transaction t y)
  then show ?thesis using process_transaction_run [OF env Transaction(2) ok Transaction(1)] shows_same_extends by blast
next
  case (Read a input z)
  then show ?thesis
    using read_program_run [OF env Read(2) ok Read(1)] preorder_relD(1) [OF extends_chain_preorder, of elems s]
    by (auto simp: extends_chain_def)
next
  case (Head u)
  then show ?thesis using controller_head_run [OF ok, of env] by (metis Pair_inject)
next
  case (Nonce a v)
  then show ?thesis using account_nonce_pure ok preorder_relD(1) [OF extends_chain_preorder] by metis
qed

lemma chain_reaches_keeps:
  fixes s s' :: "('c, 'm) controller"
  assumes "chain_reaches env mi s s'" and "env_ok env" and "controller_ok elems ordered s"
  shows "controller_ok elems ordered s' \<and> extends_chain elems s s'"
  using assms
proof (induction rule: chain_reaches.induct)
  case (Start s)
  then show ?case using preorder_relD(1) [OF extends_chain_preorder] by blast
next
  case (Step s s' s'')
  then show ?case using chain_step_keeps preorder_relD(2) [OF extends_chain_preorder] by blast
qed

end

section \<open>The properties of the controller\<close>

text \<open>
  C1: History is immutable.  Whatever blocks, transactions, reads and queries the controller serves, in any
  order, as long as each call returns: every node stays indexed at its place below the same root, what a final node shows never
  changes, the invariant of the controller is kept, and so the balances at every final node add up to the supply.
\<close>

theorem chain_history:
  fixes s s' :: "('c, 'm) controller"
  assumes "delta_container mi elems ordered" and "env_ok env" and "controller_ok elems ordered s" and "chain_reaches env mi s s'"
  shows "controller_ok elems ordered s' \<and> extends_chain elems s s'"
  by (rule delta_container.chain_reaches_keeps [OF assms(1,4,2,3)])


text \<open>
  C36: The chain ends at height 60: no block above it ever gets a receipt, because accepting one would commit a
  block that became irreversible, and the commit throws or reads a discarded delta.
\<close>

theorem chain_ends_at_60:
  fixes s s' :: "('c, 'm) controller"
  assumes "delta_container mi elems ordered" and "env_ok env" and "\<forall>t \<in> set (bl_transactions b). transaction_sized t"
    and "controller_ok elems ordered s" and "length (ct_heap s) + 1 < 2 ^ 64" and "60 < bl_height b"
  shows "process_block env mi b now s \<noteq> (Returned (Inr receipt), s')"
proof
  assume "process_block env mi b now s = (Returned (Inr receipt), s')"
  then obtain p n where "block_accepted env mi b now receipt s p s' n"
    using delta_container.process_block_run [OF assms(1-5)] by blast
  then have "bl_height b = of_nat (delta_rev (ct_heap s') n)" "delta_rev (ct_heap s') n \<le> 60"
    unfolding block_accepted_def by blast+
  then show False using assms(6) by (auto simp: word_less_nat_alt unat_of_nat)
qed





section \<open>A sample chain\<close>

definition chain_env :: "(bytes, unit) node_env" where
  "chain_env = sample_env\<lparr>ne_hash := (\<lambda>_. replicate 32 1)\<rparr>"

definition chain_genesis :: "genesis_entry list" where
  "chain_genesis = [\<lparr>ge_space = metadata_space, ge_key = genesis_key (ne_hash chain_env), ge_value = replicate 32 1\<rparr>]"

definition chain_start :: "(ptr list, bytes) controller" where
  "chain_start = snd (controller_open chain_env list_index chain_genesis Fifo False (controller_new list_index 1000))"

definition chain_block :: block where
  "chain_block = (sample_block 1)\<lparr>bl_id := replicate 32 1, bl_signature := replicate 32 1\<rparr>"

lemma chain_env_ok: "env_ok chain_env"
  using sample_env_ok by (simp add: env_ok_def chain_env_def)

lemma chain_genesis_ok: "\<forall>e \<in> set chain_genesis. object_space_ok (ge_space e)" "genesis_data_ok (ne_hash chain_env) chain_genesis"
  by (simp_all add: chain_genesis_def space_simps genesis_data_ok_def genesis_pairs_def)

lemma chain_start_run:
  "ct_nodes set chain_start = {0}" "delta_final (ct_heap chain_start) 0" "database_head (ct_db chain_start) = Some (Permanent_node 0)"
  "view (ct_heap chain_start) 0 = map_of (genesis_pairs chain_genesis)" "controller_ok set list_ordered chain_start"
proof -
  let ?run = "controller_open chain_env list_index chain_genesis Fifo False (controller_new list_index 1000)"
  obtain r where r: "?run = (r, chain_start)" by (metis chain_start_def surjective_pairing)
  have all: "ct_nodes set chain_start = {0} \<and> delta_final (ct_heap chain_start) 0
        \<and> database_root (ct_db chain_start) = Some (Permanent_node 0) \<and> database_head (ct_db chain_start) = Some (Permanent_node 0)
        \<and> view (ct_heap chain_start) 0 = map_of (genesis_pairs chain_genesis)
        \<and> (ledger_inv (ledger_at (ct_heap chain_start) 0) \<longrightarrow> controller_ok set list_ordered chain_start)"
    by (rule controller_open_run [OF lx.delta_container_axioms chain_genesis_ok(1), of chain_env 1000])
       (use r chain_genesis_ok(2) in simp)
  then show "ct_nodes set chain_start = {0}" "delta_final (ct_heap chain_start) 0"
      "database_head (ct_db chain_start) = Some (Permanent_node 0)"
      "view (ct_heap chain_start) 0 = map_of (genesis_pairs chain_genesis)"
    by blast+
  have "ledger_at (ct_heap chain_start) 0 = \<lparr>lg_supply = 0, lg_balance = (\<lambda>_. 0)\<rparr>"
  proof (rule no_coins)
    fix sp k
    assume sp: "object_space_ok sp" "\<not> os_system sp"
    then have "sp \<noteq> metadata_space" using space_simps(6) by auto
    then show "node_view (ct_heap chain_start) 0 sp k = None"
      using all make_compound_key_inject [OF sp(1) space_simps(3)]
      by (simp add: node_view_def genesis_pairs_def chain_genesis_def)
  qed
  then show "controller_ok set list_ordered chain_start"
    using all by (simp add: ledger_inv_def ledger_total_def)
qed

lemma chain_block_run:
  "\<exists>receipt s'. process_block chain_env list_index chain_block 0 chain_start = (Returned (Inr receipt), s')"
proof -
  have "case fst (process_block chain_env list_index chain_block 0 chain_start) of Returned (Inr r) \<Rightarrow> True | _ \<Rightarrow> False" by code_simp
  then show ?thesis
    by (cases "process_block chain_env list_index chain_block 0 chain_start") (auto split: outcome.splits sum.splits)
qed

definition chain_transaction :: transaction where
  "chain_transaction = (signed_transaction 1 [coin_input 1 []])
     \<lparr>tx_id := replicate 32 1, tx_network_id := replicate 32 1,
      tx_authorizations := [\<lparr>au_signer = sample_payer, au_signature = replicate 32 1\<rparr>]\<rparr>"

lemma chain_short: "length (ct_heap chain_start) + 1 < 2 ^ 64"
proof -
  have "length (ct_heap chain_start) = 1" by code_simp
  then show ?thesis by simp
qed

theorem chain_history_witness:
  "\<exists>receipt s'. process_block chain_env list_index chain_block 0 chain_start = (Returned (Inr receipt), s')
     \<and> controller_ok set list_ordered s' \<and> view (ct_heap s') 0 = view (ct_heap chain_start) 0"
proof -
  obtain receipt s' where run: "process_block chain_env list_index chain_block 0 chain_start = (Returned (Inr receipt), s')"
    using chain_block_run by blast
  have "chain_step chain_env list_index chain_start s'"
    by (rule Block [OF run _ chain_short]) (simp add: chain_block_def sample_block_def)
  then have "chain_reaches chain_env list_index chain_start s'" by (intro Step [OF Start])
  then have "controller_ok set list_ordered s' \<and> extends_chain set chain_start s'"
    by (rule chain_history [OF lx.delta_container_axioms chain_env_ok chain_start_run(5)])
  then show ?thesis using run chain_start_run(1,2) by (auto simp: extends_chain_def)
qed


theorem chain_ends_at_60_witness:
  "\<forall>receipt s'. process_block chain_env list_index (chain_block\<lparr>bl_height := 61\<rparr>) 0 chain_start \<noteq> (Returned (Inr receipt), s')"
  by (intro allI chain_ends_at_60 [OF lx.delta_container_axioms chain_env_ok _ chain_start_run(5) chain_short])
     (simp_all add: chain_block_def sample_block_def)





end
