(* ===== verification/Encode.thy ===== *)
theory Encode
  imports Errors
begin

text \<open>
  The text encodings (\<open>encode/hex.cpp\<close>, \<open>encode/base58.cpp\<close>).  Base58 is the multiplication-and-carry algorithm of the
  source on a vector of digits; the lemmas relate it to the positional digits of a number, and from that follow the
  round trips and the exact set of texts that decode.
\<close>

section \<open>Hexadecimal text\<close>

text \<open>\<open>char\<close> is a signed type.\<close>

definition char_value :: "char \<Rightarrow> int" where
  "char_value c = (let v = of_char c in if v < 128 then v else v - 256)"

definition hex_alphabet :: string where
  "hex_alphabet = ''0123456789abcdef''"

definition hex_digit :: "nat \<Rightarrow> char" where
  "hex_digit d = hex_alphabet ! d"

text \<open>What a stream in \<open>std::hex\<close> mode prints for an unsigned number, and \<open>std::setw\<close> with \<open>std::setfill\<close>.\<close>

fun put_hex :: "nat \<Rightarrow> string" where
  "put_hex n = (if n < 16 then [hex_digit n] else put_hex (n div 16) @ [hex_digit (n mod 16)])"

declare put_hex.simps [simp del]

definition setw :: "nat \<Rightarrow> char \<Rightarrow> string \<Rightarrow> string" where
  "setw w fill s = replicate (w - length s) fill @ s"

definition to_hex :: "bytes \<Rightarrow> string" where
  "to_hex bs = ''0x'' @ concat (map (\<lambda>b. setw 2 (CHR ''0'') (put_hex (unat b))) bs)"

definition hex_offset :: int where
  "hex_offset = 10"

definition hex_to_char :: "char \<Rightarrow> u8 result" where
  "hex_to_char c =
     (let v = char_value c
      in if char_value CHR ''0'' \<le> v \<and> v \<le> char_value CHR ''9'' then Inr (word_of_int (v - char_value CHR ''0''))
         else if char_value CHR ''a'' \<le> v \<and> v \<le> char_value CHR ''f'' then Inr (word_of_int (v - char_value CHR ''a'' + hex_offset))
         else if char_value CHR ''A'' \<le> v \<and> v \<le> char_value CHR ''F'' then Inr (word_of_int (v - char_value CHR ''A'' + hex_offset))
         else Inl (encode_error Encode_invalid_character))"

text \<open>\<open>std::string_view::at\<close>: the exception would leave a \<open>noexcept\<close> function and ends the process.\<close>

definition sv_at :: "string \<Rightarrow> nat \<Rightarrow> char outcome" where
  "sv_at sv i = (if i < length sv then Returned (sv ! i) else Threw Terminated)"

function from_hex_loop :: "string \<Rightarrow> nat \<Rightarrow> bytes \<Rightarrow> bytes result outcome" where
  "from_hex_loop sv i bs =
     (if i < length sv then
        bindO (sv_at sv i) (\<lambda>c.
        case hex_to_char c of
          Inl e \<Rightarrow> Returned (Inl e)
        | Inr first_char \<Rightarrow>
            bindO (sv_at sv (i + 1)) (\<lambda>d.
            case hex_to_char d of
              Inl e \<Rightarrow> Returned (Inl e)
            | Inr second_char \<Rightarrow> from_hex_loop sv (i + 2) (bs @ [push_bit 4 first_char OR second_char])))
      else Returned (Inr bs))"
  by pat_completeness auto
termination
  by (relation "measure (\<lambda>(sv, i, bs). length sv - i)") auto

declare from_hex_loop.simps [simp del]

definition from_hex :: "string \<Rightarrow> bytes result outcome" where
  "from_hex sv =
     (if length sv mod 2 \<noteq> 0 then Returned (Inl (encode_error Encode_invalid_length))
      else
        bindO (sv_at sv 0) (\<lambda>c.
        if c = CHR ''0'' then
          bindO (sv_at sv 1) (\<lambda>d. from_hex_loop sv (if d = CHR ''x'' then 2 else 0) [])
        else from_hex_loop sv 0 []))"

section \<open>Base58\<close>

definition max_array_size :: int where
  "max_array_size = 1024 * 1024 * 10"

definition pszBase58 :: string where
  "pszBase58 = ''123456789ABCDEFGHJKLMNPQRSTUVWXYZabcdefghijkmnopqrstuvwxyz''"

definition mapBase58 :: "int list" where
  "mapBase58 =
     [-1, -1, -1, -1, -1, -1, -1, -1, -1, -1, -1, -1, -1, -1, -1, -1, -1, -1, -1, -1, -1, -1, -1, -1, -1, -1, -1, -1, -1,
      -1, -1, -1, -1, -1, -1, -1, -1, -1, -1, -1, -1, -1, -1, -1, -1, -1, -1, -1, -1, 0, 1, 2, 3, 4, 5, 6, 7, 8,
      -1, -1, -1, -1, -1, -1, -1, 9, 10, 11, 12, 13, 14, 15, 16, -1, 17, 18, 19, 20, 21, -1, 22, 23, 24, 25, 26, 27, 28,
      29, 30, 31, 32, -1, -1, -1, -1, -1, -1, 33, 34, 35, 36, 37, 38, 39, 40, 41, 42, 43, -1, 44, 45, 46, 47, 48, 49, 50,
      51, 52, 53, 54, 55, 56, 57, -1, -1, -1, -1, -1, -1, -1, -1, -1, -1, -1, -1, -1, -1, -1, -1, -1, -1, -1, -1, -1, -1,
      -1, -1, -1, -1, -1, -1, -1, -1, -1, -1, -1, -1, -1, -1, -1, -1, -1, -1, -1, -1, -1, -1, -1, -1, -1, -1, -1, -1, -1,
      -1, -1, -1, -1, -1, -1, -1, -1, -1, -1, -1, -1, -1, -1, -1, -1, -1, -1, -1, -1, -1, -1, -1, -1, -1, -1, -1, -1, -1,
      -1, -1, -1, -1, -1, -1, -1, -1, -1, -1, -1, -1, -1, -1, -1, -1, -1, -1, -1, -1, -1, -1, -1, -1, -1, -1, -1, -1, -1,
      -1, -1, -1, -1, -1, -1, -1, -1, -1, -1, -1, -1, -1, -1, -1, -1, -1, -1, -1, -1, -1, -1, -1, -1]"

definition is_space :: "char \<Rightarrow> bool" where
  "is_space c \<longleftrightarrow> c = CHR '' '' \<or> c = CHR 0x0C \<or> c = CHR 0x0A \<or> c = CHR 0x0D \<or> c = CHR 0x09 \<or> c = CHR 0x0B"

text \<open>
  The loop the two directions share, on the digits from the back of the vector: \<open>carry += m * *it; *it = carry % d; carry /= d\<close> while
  there is a carry or a used digit.  It returns the carry left, the number of digits visited and the digits.
\<close>

fun carry_loop :: "int \<Rightarrow> int \<Rightarrow> nat \<Rightarrow> int \<Rightarrow> nat \<Rightarrow> bytes \<Rightarrow> int \<times> nat \<times> bytes" where
  "carry_loop m d len carry i [] = (carry, i, [])"
| "carry_loop m d len carry i (x # xs) =
     (if carry \<noteq> 0 \<or> i < len then
        let c = carry + m * uint x
        in case carry_loop m d len (c div d) (Suc i) xs of
             (c', i', ys) \<Rightarrow> (c', i', word_of_int (c mod d) # ys)
      else (carry, i, x # xs))"

text \<open>
  A text is a pointer into memory and a size: \<open>mem\<close> is what is readable from the pointer on, \<open>e\<close> the position of
  the end of the text in it, \<open>p\<close> the position of \<open>psz\<close>.
\<close>

function skip_spaces :: "string \<Rightarrow> nat \<Rightarrow> nat \<Rightarrow> nat outcome" where
  "skip_spaces mem e p =
     (if p = e then Returned p
      else if p < length mem then (if is_space (mem ! p) then skip_spaces mem e (Suc p) else Returned p)
      else Threw Out_of_range)"
  by pat_completeness auto
termination
  by (relation "measure (\<lambda>(mem, e, p). length mem - p)") auto

function skip_ones :: "string \<Rightarrow> int \<Rightarrow> nat \<Rightarrow> nat \<Rightarrow> (nat \<times> nat) result outcome" where
  "skip_ones mem max_ret_len zeroes p =
     (if p < length mem then
        if mem ! p = CHR ''1'' then
          if max_ret_len < int (zeroes + 1) then Returned (Inl (encode_error Encode_invalid_length))
          else skip_ones mem max_ret_len (zeroes + 1) (Suc p)
        else Returned (Inr (zeroes, p))
      else Threw Out_of_range)"
  by pat_completeness auto
termination
  by (relation "measure (\<lambda>(mem, m, z, p). length mem - p)") auto

function decode_loop ::
    "string \<Rightarrow> nat \<Rightarrow> int \<Rightarrow> nat \<Rightarrow> bytes \<Rightarrow> nat \<Rightarrow> nat \<Rightarrow> (bytes \<times> nat \<times> nat) result outcome" where
  "decode_loop mem e max_ret_len zeroes b256 len p =
     (if p = e then Returned (Inr (b256, len, p))
      else if p < length mem then
        if is_space (mem ! p) then Returned (Inr (b256, len, p))
        else
          let carry = mapBase58 ! of_char (mem ! p)
          in if carry = -1 then Returned (Inl (encode_error Encode_invalid_character))
             else
               case carry_loop 58 256 len carry 0 (rev b256) of
                 (carry', i, ds) \<Rightarrow>
                   if carry' \<noteq> 0 then Threw Assertion_failed
                   else if max_ret_len < int (i + zeroes) then Returned (Inl (encode_error Encode_invalid_length))
                   else decode_loop mem e max_ret_len zeroes (rev ds) i (Suc p)
      else Threw Out_of_range)"
  by pat_completeness auto
termination
  by (relation "measure (\<lambda>(mem, e, m, z, b, l, p). length mem - p)") auto

declare skip_spaces.simps [simp del] skip_ones.simps [simp del] decode_loop.simps [simp del]

definition decode_base58 :: "string \<Rightarrow> nat \<Rightarrow> int \<Rightarrow> bytes result outcome" where
  "decode_base58 mem sz max_ret_len =
     bindO (skip_spaces mem sz 0) (\<lambda>p.
     bindO (skip_ones mem max_ret_len 0 p) (\<lambda>ones.
     case ones of
       Inl e \<Rightarrow> Returned (Inl e)
     | Inr (zeroes, p) \<Rightarrow>
         let n = nat (int sz * 733 mod 2 ^ 64 div 1000 + 1)
         in bindO (decode_loop mem sz max_ret_len zeroes (replicate n 0) 0 p) (\<lambda>decoded.
            case decoded of
              Inl e \<Rightarrow> Returned (Inl e)
            | Inr (b256, len, p) \<Rightarrow>
                bindO (skip_spaces mem sz p) (\<lambda>p.
                if p \<noteq> sz then Returned (Inl (encode_error Encode_invalid_length))
                else Returned (Inr (replicate zeroes 0 @ drop (n - len) b256))))))"

text \<open>
  A conversion to \<open>int\<close>; a negative size given to \<open>std::vector\<close> throws out of \<open>noexcept\<close> \<open>to_base58\<close>.
  Counters of type \<open>int\<close> never exceed the number of bytes of the input.
\<close>

definition to_int32 :: "int \<Rightarrow> int" where
  "to_int32 x = sint (word_of_int x :: u32)"

fun encode_loop :: "bytes \<Rightarrow> bytes \<Rightarrow> nat \<Rightarrow> (bytes \<times> nat) outcome" where
  "encode_loop [] b58 len = Returned (b58, len)"
| "encode_loop (b # bs) b58 len =
     (case carry_loop 256 58 len (uint b) 0 (rev b58) of
        (carry, i, ds) \<Rightarrow> if carry \<noteq> 0 then Threw Assertion_failed else encode_loop bs (rev ds) i)"

text \<open>\<open>pszBase58[ d ]\<close>: the position after the last character holds the terminator.\<close>

fun base58_chars :: "bytes \<Rightarrow> string outcome" where
  "base58_chars [] = Returned []"
| "base58_chars (d # ds) =
     (if length pszBase58 < unat d then Threw Out_of_range
      else bindO (base58_chars ds) (\<lambda>s.
        Returned ((if unat d = length pszBase58 then CHR 0x00 else pszBase58 ! unat d) # s)))"

definition encode_base58 :: "bytes \<Rightarrow> string outcome" where
  "encode_base58 bs =
     (let zeroes = length (takeWhile (\<lambda>b. b = 0) bs);
          bytes = dropWhile (\<lambda>b. b = 0) bs;
          sz = to_int32 (int (length bytes) * 138 div 100 + 1)
      in if sz < 0 then Threw Terminated
         else
           bindO (encode_loop bytes (replicate (nat sz) 0) 0) (\<lambda>(b58, len).
           bindO (base58_chars (dropWhile (\<lambda>d. d = 0) (drop (nat sz - len) b58))) (\<lambda>s.
           Returned (replicate zeroes CHR ''1'' @ s))))"

definition to_base58 :: "bytes \<Rightarrow> string outcome" where
  "to_base58 s = encode_base58 s"

text \<open>
  \<open>rest\<close> is the memory that follows the view; taking \<open>&sv.front()\<close> of an empty view is undefined.
\<close>

definition from_base58 :: "string \<Rightarrow> string \<Rightarrow> bytes result outcome" where
  "from_base58 sv rest =
     (if sv = [] then Threw Out_of_range else decode_base58 (sv @ rest) (length sv) max_array_size)"

section \<open>Hexadecimal text decodes to what was encoded\<close>

definition to_lower :: "char \<Rightarrow> char" where
  "to_lower c = (if char_value CHR ''A'' \<le> char_value c \<and> char_value c \<le> char_value CHR ''Z'' then char_of (of_char c + 32 :: nat) else c)"

definition hex_pair :: "byte \<Rightarrow> string" where
  "hex_pair b = [hex_digit (unat b div 16), hex_digit (unat b mod 16)]"

text \<open>The text without the prefix \<open>0x\<close>.\<close>

definition hex_payload :: "string \<Rightarrow> string" where
  "hex_payload sv = (if take 2 sv = ''0x'' then drop 2 sv else sv)"

fun hex_decode :: "string \<Rightarrow> bytes result" where
  "hex_decode [] = Inr []"
| "hex_decode [c] = Inr []"
| "hex_decode (c # d # s) =
     (case hex_to_char c of
        Inl e \<Rightarrow> Inl e
      | Inr x \<Rightarrow> (case hex_to_char d of
          Inl e \<Rightarrow> Inl e
        | Inr y \<Rightarrow> (case hex_decode s of Inl e \<Rightarrow> Inl e | Inr bs \<Rightarrow> Inr ((push_bit 4 x OR y) # bs))))"

definition hex_char_ok :: "char \<Rightarrow> bool" where
  "hex_char_ok c = (case hex_to_char c of
     Inl e \<Rightarrow> e = encode_error Encode_invalid_character \<and> to_lower c \<notin> set hex_alphabet
   | Inr x \<Rightarrow> unat x < 16 \<and> to_lower c = hex_digit (unat x))"

lemma hex_to_char_cases: "hex_char_ok c"
proof -
  have "\<forall>c. hex_char_ok c" by code_simp
  then show ?thesis by blast
qed

lemma hex_digit_inject:
  assumes "d < 16" and "d' < 16" and "hex_digit d = hex_digit d'"
  shows "d = d'"
proof -
  have "list_all (\<lambda>d. list_all (\<lambda>d'. hex_digit d = hex_digit d' \<longrightarrow> d = d') [0..<16]) [0..<16]" by code_simp
  then show ?thesis using assms by (simp add: list_all_iff)
qed

lemma hex_digit_in: "d < 16 \<Longrightarrow> hex_digit d \<in> set hex_alphabet"
  unfolding hex_digit_def by (rule nth_mem) (simp add: hex_alphabet_def)

lemma hex_to_char_iff: "hex_to_char c = Inr x \<longleftrightarrow> unat x < 16 \<and> to_lower c = hex_digit (unat x)"
  using hex_to_char_cases [of c] hex_digit_inject hex_digit_in by (auto simp: hex_char_ok_def word_unat_eq_iff split: sum.splits)

lemma nibbles:
  assumes "unat (x :: byte) < 16" and "unat y < 16"
  shows "unat (push_bit 4 x OR y) = 16 * unat x + unat y"
proof -
  have "list_all (\<lambda>d. list_all (\<lambda>d'. unat (push_bit 4 (word_of_nat d) OR word_of_nat d' :: byte) = 16 * d + d') [0..<16]) [0..<16]"
    by code_simp
  then have "d < 16 \<Longrightarrow> d' < 16 \<Longrightarrow> unat (push_bit 4 (word_of_nat d) OR word_of_nat d' :: byte) = 16 * d + d'" for d d'
    by (simp add: list_all_iff)
  from this [OF assms] show ?thesis by simp
qed

lemma hex_pair_iff:
  "map to_lower [c, d] = hex_pair b \<longleftrightarrow> (\<exists>x y. hex_to_char c = Inr x \<and> hex_to_char d = Inr y \<and> push_bit 4 x OR y = b)"
proof
  assume l: "map to_lower [c, d] = hex_pair b"
  have b: "unat b < 256" using unsigned_less [of b, where ?'a = nat] by simp
  let ?x = "word_of_nat (unat b div 16) :: byte" and ?y = "word_of_nat (unat b mod 16) :: byte"
  have u: "unat ?x = unat b div 16" "unat ?y = unat b mod 16" using b by (simp_all add: unat_of_nat)
  then have "unat (push_bit 4 ?x OR ?y) = unat b" using b by (subst nibbles) auto
  then show "\<exists>x y. hex_to_char c = Inr x \<and> hex_to_char d = Inr y \<and> push_bit 4 x OR y = b"
    using l u b by (intro exI [of _ ?x] exI [of _ ?y]) (auto simp: hex_to_char_iff hex_pair_def word_unat_eq_iff)
next
  assume "\<exists>x y. hex_to_char c = Inr x \<and> hex_to_char d = Inr y \<and> push_bit 4 x OR y = b"
  then show "map to_lower [c, d] = hex_pair b"
    by (auto simp: hex_to_char_iff hex_pair_def nibbles)
qed

lemma hex_decode_iff:
  "even (length s) \<Longrightarrow> hex_decode s = Inr bs \<longleftrightarrow> map to_lower s = concat (map hex_pair bs)"
proof (induction s arbitrary: bs rule: induct_list012)
  case 1
  then show ?case by (cases bs) (auto simp: hex_pair_def)
next
  case (3 c d s)
  then have ev: "even (length s)" by simp
  show ?case
  proof (cases bs)
    case Nil
    then show ?thesis by (simp split: sum.split)
  next
    case (Cons b bs')
    have "hex_decode (c # d # s) = Inr bs \<longleftrightarrow>
        (\<exists>x y. hex_to_char c = Inr x \<and> hex_to_char d = Inr y \<and> push_bit 4 x OR y = b) \<and> hex_decode s = Inr bs'"
      unfolding Cons by (auto split: sum.split)
    also have "hex_decode s = Inr bs' \<longleftrightarrow> map to_lower s = concat (map hex_pair bs')"
      by (rule "3.IH"(1) [OF ev])
    finally show ?thesis
      unfolding hex_pair_iff [symmetric] Cons by (simp add: hex_pair_def [of b])
  qed
qed simp

lemma put_byte: "setw 2 (CHR ''0'') (put_hex (unat (b :: byte))) = hex_pair b"
proof -
  have "unat b < 256" using unsigned_less [of b, where ?'a = nat] by simp
  then have "unat b div 16 < 16" by simp
  then have "put_hex (unat b div 16) = [hex_digit (unat b div 16)]" by (subst put_hex.simps) simp
  moreover have "hex_digit 0 = CHR ''0''" by code_simp
  ultimately show ?thesis
    by (subst put_hex.simps) (auto simp: setw_def hex_pair_def numeral_2_eq_2)
qed

lemma to_hex_pairs: "to_hex bs = ''0x'' @ concat (map hex_pair bs)"
  by (simp add: to_hex_def put_byte)

lemma from_hex_loop_decode:
  assumes "even (length sv - i)" and "i \<le> length sv"
  shows "from_hex_loop sv i bs = Returned (case hex_decode (drop i sv) of Inl e \<Rightarrow> Inl e | Inr cs \<Rightarrow> Inr (bs @ cs))"
  using assms
proof (induction sv i bs rule: from_hex_loop.induct)
  case (1 sv i bs)
  show ?case
  proof (cases "i < length sv")
    case True
    then have i: "i + 1 < length sv" using "1.prems" by (cases "length sv = i + 1") auto
    then have d: "drop i sv = sv ! i # sv ! (i + 1) # drop (i + 2) sv"
      by (metis Cons_nth_drop_Suc Suc_eq_plus1 True add_2_eq_Suc')
    have at: "sv_at sv i = Returned (sv ! i)" "sv_at sv (i + 1) = Returned (sv ! (i + 1))" using i by (simp_all add: sv_at_def)
    have "from_hex_loop sv (i + 2) (bs @ [push_bit 4 x OR y]) =
        Returned (case hex_decode (drop (i + 2) sv) of Inl e \<Rightarrow> Inl e | Inr cs \<Rightarrow> Inr ((bs @ [push_bit 4 x OR y]) @ cs))"
      if "hex_to_char (sv ! i) = Inr x" "hex_to_char (sv ! (i + 1)) = Inr y" for x y
      using "1.IH" [OF True that] "1.prems" i by auto
    then show ?thesis
      using at i by (subst from_hex_loop.simps) (auto simp: d split: sum.split)
  next
    case False
    then show ?thesis using "1.prems" by (subst from_hex_loop.simps) simp
  qed
qed

lemma from_hex_decode:
  "from_hex sv =
     (if odd (length sv) then Returned (Inl (encode_error Encode_invalid_length))
      else if sv = [] then Threw Terminated else Returned (hex_decode (hex_payload sv)))"
proof -
  have "from_hex_loop sv 0 [] = Returned (hex_decode sv)" if "even (length sv)"
    using that by (subst from_hex_loop_decode) (auto split: sum.split)
  moreover have "from_hex_loop sv 2 [] = Returned (hex_decode (drop 2 sv))" if "even (length sv)" "2 \<le> length sv"
    using that by (subst from_hex_loop_decode) (auto split: sum.split)
  ultimately show ?thesis
    by (cases sv; cases "tl sv") (auto simp: from_hex_def sv_at_def hex_payload_def numeral_2_eq_2)
qed

text \<open>
  C39: Hexadecimal text: what \<open>to_hex\<close> prints decodes to the bytes; \<open>from_hex\<close> accepts exactly the texts
  that are, up to upper case letters and a prefix \<open>0x\<close>, what \<open>to_hex\<close> prints; a text of odd length and any other character
  are the two errors, and the empty text ends the process.
\<close>

theorem hex_roundtrip:
  "from_hex (to_hex bs) = Returned (Inr bs)
   \<and> (from_hex sv = Returned (Inr bs) \<longleftrightarrow> sv \<noteq> [] \<and> ''0x'' @ map to_lower (hex_payload sv) = to_hex bs)
   \<and> (from_hex sv = Threw Terminated \<longleftrightarrow> sv = [])"
proof -
  have low: "map to_lower (hex_payload (to_hex bs)) = concat (map hex_pair bs)"
  proof -
    have "to_lower (hex_digit d) = hex_digit d" if "d < 16" for d
    proof -
      have "list_all (\<lambda>d. to_lower (hex_digit d) = hex_digit d) [0..<16]" by code_simp
      then show ?thesis using that by (simp add: list_all_iff)
    qed
    moreover have "unat b div 16 < 16" for b :: byte using unsigned_less [of b, where ?'a = nat] by simp
    ultimately have "map to_lower (hex_pair b) = hex_pair b" for b by (simp add: hex_pair_def)
    then show ?thesis by (simp add: to_hex_pairs hex_payload_def map_concat comp_def)
  qed
  have iff: "from_hex sv = Returned (Inr bs) \<longleftrightarrow> sv \<noteq> [] \<and> ''0x'' @ map to_lower (hex_payload sv) = to_hex bs" for sv bs
  proof -
    have ev: "even (length (hex_payload sv)) \<longleftrightarrow> even (length sv)"
      by (auto simp: hex_payload_def)
    have len: "even (length (concat (map hex_pair bs)))" by (induction bs) (auto simp: hex_pair_def)
    have "odd (length sv) \<Longrightarrow> map to_lower (hex_payload sv) \<noteq> concat (map hex_pair bs)"
      using ev len by (metis length_map)
    then show ?thesis
      using ev hex_decode_iff [of "hex_payload sv" bs] by (simp add: from_hex_decode to_hex_pairs)
  qed
  have "from_hex (to_hex bs) = Returned (Inr bs)"
    unfolding iff using low by (simp add: to_hex_pairs)
  moreover have "from_hex sv = Threw Terminated \<longleftrightarrow> sv = []" by (simp add: from_hex_decode)
  ultimately show ?thesis using iff by blast
qed

section \<open>Positional digits\<close>

text \<open>The digits of a number, the least significant first, without leading zeros.\<close>

function base_digits :: "nat \<Rightarrow> nat \<Rightarrow> nat list" where
  "base_digits d n = (if n = 0 \<or> d < 2 then [] else n mod d # base_digits d (n div d))"
  by pat_completeness auto
termination
  by (relation "measure snd") auto

declare base_digits.simps [simp del]

lemma base_digits_0 [simp]: "base_digits d 0 = []"
  by (subst base_digits.simps) simp

lemma base_digits_pos: "2 \<le> d \<Longrightarrow> 0 < n \<Longrightarrow> base_digits d n = n mod d # base_digits d (n div d)"
  by (subst base_digits.simps) simp

lemma length_base_digits: "2 \<le> d \<Longrightarrow> length (base_digits d n) \<le> k \<longleftrightarrow> n < d ^ k"
proof (induction k arbitrary: n)
  case 0
  then show ?case by (cases "n = 0") (simp_all add: base_digits_pos)
next
  case (Suc k)
  show ?case
  proof (cases "n = 0")
    case False
    then have "length (base_digits d n) \<le> Suc k \<longleftrightarrow> n div d < d ^ k"
      using Suc by (simp add: base_digits_pos)
    also have "\<dots> \<longleftrightarrow> n < d ^ Suc k"
      using Suc.prems by (simp add: div_less_iff_less_mult mult.commute)
    finally show ?thesis .
  qed (use Suc.prems in simp)
qed

lemma base_digits_less: "2 \<le> d \<Longrightarrow> x \<in> set (base_digits d n) \<Longrightarrow> x < d"
proof (induction n rule: less_induct)
  case (less n)
  show ?case
  proof (cases "n = 0")
    case False
    then show ?thesis using less.prems less.IH [of "n div d"] by (auto simp: base_digits_pos)
  qed (use less.prems in simp)
qed

text \<open>The value of a sequence of digits, the most significant first.\<close>

definition big_value :: "nat \<Rightarrow> nat list \<Rightarrow> nat" where
  "big_value d xs = foldl (\<lambda>v x. d * v + x) 0 xs"

lemma big_value_simps [simp]: "big_value d [] = 0" "big_value d (xs @ [x]) = d * big_value d xs + x"
  by (simp_all add: big_value_def)

lemma big_value_digits: "2 \<le> d \<Longrightarrow> big_value d (rev (base_digits d n)) = n"
proof (induction n rule: less_induct)
  case (less n)
  show ?case
  proof (cases "n = 0")
    case False
    then show ?thesis using less by (simp add: base_digits_pos)
  qed simp
qed

lemma digits_big_value:
  assumes "2 \<le> d" and "\<forall>x \<in> set xs. x < d" and "xs = [] \<or> hd xs \<noteq> 0"
  shows "base_digits d (big_value d xs) = rev xs"
  using assms(2,3)
proof (induction xs rule: rev_induct)
  case (snoc x xs)
  show ?case
  proof (cases xs)
    case Nil
    then show ?thesis using snoc.prems assms(1) by (simp add: big_value_def base_digits_pos)
  next
    case (Cons y ys)
    then have ih: "base_digits d (big_value d xs) = rev xs" using snoc by simp
    then have "0 < big_value d xs" using Cons by (cases "big_value d xs") simp_all
    then show ?thesis using ih snoc.prems(1) assms(1) by (simp add: base_digits_pos)
  qed
qed simp

lemma big_value_less: "\<forall>x \<in> set xs. x < d \<Longrightarrow> big_value d xs < d ^ length xs"
proof (induction xs rule: rev_induct)
  case (snoc x xs)
  then have "Suc (big_value d xs) \<le> d ^ length xs" "x < d" by simp_all
  then have "d * big_value d xs + x < d * Suc (big_value d xs)" by simp
  also have "\<dots> \<le> d * d ^ length xs" using \<open>Suc _ \<le> _\<close> by (rule mult_le_mono2)
  finally show ?case by simp
qed simp

lemma big_value_mono: "big_value d xs \<le> d * big_value d xs + x" if "0 < d"
  using that by (cases d) simp_all

section \<open>The carry loop multiplies and adds\<close>

abbreviation byte_digits :: "nat \<Rightarrow> nat \<Rightarrow> bytes" where
  "byte_digits d n \<equiv> map word_of_nat (base_digits d n)"

lemma carry_loop_digits:
  assumes d: "2 \<le> d" "d \<le> 256" and m: "0 < m"
    and "len - i = length (base_digits d v)" and "length (base_digits d (m * v + c)) \<le> length (base_digits d v) + k"
  shows "carry_loop (int m) (int d) len (int c) i (byte_digits d v @ replicate k 0) =
    (0, i + length (base_digits d (m * v + c)),
     byte_digits d (m * v + c) @ replicate (length (base_digits d v) + k - length (base_digits d (m * v + c))) 0)"
  using assms(4,5)
proof (induction "length (base_digits d v) + k" arbitrary: v c i k)
  case 0
  then have "base_digits d v = []" "k = 0" by simp_all
  moreover have "m * v + c = 0"
    using 0 length_base_digits [OF d(1), of "m * v + c" 0] by simp
  ultimately show ?case using m by (simp only: add_is_0 mult_is_0) auto
next
  case (Suc n)
  show ?case
  proof (cases "v = 0 \<and> c = 0")
    case True
    then show ?thesis using Suc by (cases k) simp_all
  next
    case False
    define k' where "k' = (if v = 0 then k - 1 else k)"
    have k: "length (base_digits d (v div d)) + k' = n"
      using Suc(2) d(1) by (cases "v = 0") (simp_all add: k'_def base_digits_pos)
    have list: "byte_digits d v @ replicate k 0 = word_of_nat (v mod d) # (byte_digits d (v div d) @ replicate k' 0)"
      using Suc(2) d(1) by (cases "v = 0"; cases k) (simp_all add: k'_def base_digits_pos)
    let ?c = "c + m * (v mod d)" and ?r = "m * v + c"
    have pos: "0 < ?r" using False m by auto
    have r: "?r div d = m * (v div d) + ?c div d" "?r mod d = ?c mod d"
    proof -
      have "?r = ?c + d * (m * (v div d))"
        using mult_div_mod_eq [of d v] by (metis add.assoc add.commute distrib_left mult.left_commute)
      then have "?r div d = (?c + d * (m * (v div d))) div d" "?r mod d = (?c + d * (m * (v div d))) mod d" by (rule arg_cong)+
      then show "?r div d = m * (v div d) + ?c div d" "?r mod d = ?c mod d" using d(1) by (simp_all only: div_mult_self2 mod_mult_self2)
    qed
    have len: "length (base_digits d ?r) = Suc (length (base_digits d (m * (v div d) + ?c div d)))"
      using base_digits_pos [OF d(1) pos] r(1) by simp
    have u: "uint (word_of_nat (v mod d) :: byte) = int (v mod d)"
    proof -
      have "v mod d < d" using d(1) by simp
      then have "v mod d < 256" using d(2) by linarith
      then show ?thesis by (simp add: uint_nat unat_of_nat)
    qed
    have "v \<noteq> 0 \<Longrightarrow> 0 < len - i" using Suc.prems(1) d(1) by (simp add: base_digits_pos)
    then have go: "int c \<noteq> 0 \<or> i < len" using False by (cases "v = 0") simp_all
    have fit: "length (base_digits d (m * (v div d) + ?c div d)) \<le> length (base_digits d (v div d)) + k'"
      using Suc.prems(2) len k Suc(2) by simp
    have "len - Suc i = length (base_digits d (v div d))"
      using Suc.prems(1) d(1) by (cases "v = 0") (simp_all add: base_digits_pos)
    then have "carry_loop (int m) (int d) len (int (?c div d)) (Suc i) (byte_digits d (v div d) @ replicate k' 0) =
        (0, Suc i + length (base_digits d (m * (v div d) + ?c div d)),
         byte_digits d (m * (v div d) + ?c div d) @
           replicate (length (base_digits d (v div d)) + k' - length (base_digits d (m * (v div d) + ?c div d))) 0)"
      by (rule Suc.hyps(1) [OF k [symmetric] _ fit])
    moreover have "byte_digits d ?r = word_of_nat (?c mod d) # byte_digits d (m * (v div d) + ?c div d)"
      using base_digits_pos [OF d(1) pos] r by simp
    moreover have cc: "int c + int m * uint (word_of_nat (v mod d) :: byte) = int ?c" by (simp add: u)
    ultimately show ?thesis
      using go len k Suc(2) unfolding list carry_loop.simps Let_def cc zdiv_int [symmetric] zmod_int [symmetric] by simp
  qed
qed

text \<open>A vector of \<open>n\<close> digits, the most significant first, that holds the number \<open>v\<close>.\<close>

definition digit_vector :: "nat \<Rightarrow> nat \<Rightarrow> nat \<Rightarrow> bytes" where
  "digit_vector d n v = rev (byte_digits d v @ replicate (n - length (base_digits d v)) 0)"

definition feed :: "nat \<Rightarrow> nat \<Rightarrow> nat list \<Rightarrow> nat" where
  "feed m v xs = foldl (\<lambda>v x. m * v + x) v xs"

lemma feed_simps [simp]: "feed m v [] = v" "feed m v (x # xs) = feed m (m * v + x) xs" "feed m 0 xs = big_value m xs"
  by (simp_all add: feed_def big_value_def)

lemma feed_mono: "0 < m \<Longrightarrow> v \<le> feed m v xs"
proof (induction xs arbitrary: v)
  case (Cons x xs)
  have "v \<le> m * v + x" using Cons.prems by (cases m) simp_all
  also have "\<dots> \<le> feed m (m * v + x) xs" by (rule Cons.IH [OF Cons.prems])
  finally show ?case by simp
qed simp

lemma length_base_digits_mono: "2 \<le> d \<Longrightarrow> v \<le> w \<Longrightarrow> length (base_digits d v) \<le> length (base_digits d w)"
  using length_base_digits [of d] by (metis le_less_trans order_refl)

lemma carry_loop_vector:
  assumes "2 \<le> d" and "d \<le> 256" and "0 < m" and "m * v + c < d ^ n"
  shows "carry_loop (int m) (int d) (length (base_digits d v)) (int c) 0 (rev (digit_vector d n v)) =
    (0, length (base_digits d (m * v + c)), rev (digit_vector d n (m * v + c)))"
proof -
  have len: "length (base_digits d (m * v + c)) \<le> n" using length_base_digits [OF assms(1)] assms(4) by simp
  moreover have "v \<le> m * v + c" using assms(3) by (cases m) simp_all
  then have "length (base_digits d v) \<le> n" using length_base_digits_mono [OF assms(1)] len order_trans by blast
  ultimately show ?thesis
    using carry_loop_digits [OF assms(1-3), of "length (base_digits d v)" 0 v c "n - length (base_digits d v)"]
    by (simp add: digit_vector_def)
qed

lemma digit_vector_0 [simp]: "digit_vector d n 0 = replicate n 0"
  by (simp add: digit_vector_def)

lemma drop_digit_vector:
  assumes "2 \<le> d" and "v < d ^ n"
  shows "drop (n - length (base_digits d v)) (digit_vector d n v) = rev (byte_digits d v)"
  using length_base_digits [OF assms(1), of v n] assms(2) by (simp add: digit_vector_def)

section \<open>The size estimates suffice\<close>

lemma power_gap:
  fixes a b :: nat
  assumes "a ^ q < b ^ p" and "0 < q" and "1 < b"
  shows "a ^ n < b ^ (n * p div q + 1)"
proof (rule power_less_imp_less_base [of _ q])
  have "(a ^ n) ^ q = (a ^ q) ^ n" by (simp add: mult.commute flip: power_mult)
  also have "\<dots> \<le> (b ^ p) ^ n" using assms(1) by (intro power_mono) simp_all
  also have "\<dots> = b ^ (n * p)" by (simp add: mult.commute flip: power_mult)
  also have "\<dots> < b ^ ((n * p div q + 1) * q)"
    using assms(2,3) by (intro power_strict_increasing) (simp_all add: dividend_less_div_times)
  finally show "(a ^ n) ^ q < (b ^ (n * p div q + 1)) ^ q" by (simp only: power_mult)
qed simp

lemma base58_fits: "(58 :: nat) ^ n < 256 ^ (n * 733 div 1000 + 1)"
proof -
  have *: "(58 :: nat) ^ n < 256 ^ (n * 52 div 71 + 1)" by (rule power_gap) simp_all
  have le: "n * 52 div 71 \<le> n * 733 div 1000"
    using div_times_less_eq_dividend [of "n * 52" 71] by (subst less_eq_div_iff_mult_less_eq) linarith+
  then have "(256 :: nat) ^ (n * 52 div 71 + 1) \<le> 256 ^ (n * 733 div 1000 + 1)" by (intro power_increasing) simp_all
  with * show ?thesis by (rule less_le_trans)
qed

lemma base256_fits: "(256 :: nat) ^ n < 58 ^ (n * 138 div 100 + 1)"
proof -
  have *: "(256 :: nat) ^ n < 58 ^ (n * 26 div 19 + 1)" by (rule power_gap) simp_all
  have le: "n * 26 div 19 \<le> n * 138 div 100"
    using div_times_less_eq_dividend [of "n * 26" 19] by (subst less_eq_div_iff_mult_less_eq) linarith+
  then have "(58 :: nat) ^ (n * 26 div 19 + 1) \<le> 58 ^ (n * 138 div 100 + 1)" by (intro power_increasing) simp_all
  with * show ?thesis by (rule less_le_trans)
qed

section \<open>The alphabet\<close>

definition base58_char :: "char \<Rightarrow> bool" where
  "base58_char c \<longleftrightarrow> mapBase58 ! of_char c \<noteq> -1"

definition base58_value :: "char \<Rightarrow> nat" where
  "base58_value c = nat (mapBase58 ! of_char c)"

definition alphabet_ok :: "char \<Rightarrow> bool" where
  "alphabet_ok c \<longleftrightarrow> base58_char c \<longrightarrow>
     0 \<le> mapBase58 ! of_char c \<and> mapBase58 ! of_char c < 58 \<and> pszBase58 ! base58_value c = c \<and> \<not> is_space c"

lemma base58_charD:
  assumes "base58_char c"
  shows "mapBase58 ! of_char c = int (base58_value c)" and "base58_value c < 58" and "pszBase58 ! base58_value c = c"
    and "\<not> is_space c"
proof -
  have "\<forall>c. alphabet_ok c" by code_simp
  then have "alphabet_ok c" by blast
  then show "mapBase58 ! of_char c = int (base58_value c)" and "base58_value c < 58" and "pszBase58 ! base58_value c = c"
      and "\<not> is_space c"
    using assms by (simp_all add: alphabet_ok_def base58_value_def nat_less_iff)
qed

lemma psz_char:
  assumes "i < 58"
  shows "base58_char (pszBase58 ! i)" and "base58_value (pszBase58 ! i) = i"
proof -
  have "list_all (\<lambda>i. base58_char (pszBase58 ! i) \<and> base58_value (pszBase58 ! i) = i) [0..<58]" by code_simp
  then show "base58_char (pszBase58 ! i)" "base58_value (pszBase58 ! i) = i"
    using assms by (simp_all add: list_all_iff)
qed

lemma psz_simps [simp]: "length pszBase58 = 58" "pszBase58 ! 0 = CHR ''1''"
  by code_simp+

lemma psz_one: "i < 58 \<Longrightarrow> pszBase58 ! i = CHR ''1'' \<longleftrightarrow> i = 0"
  using psz_char(2) [of i] psz_char(2) [of 0] by (metis psz_simps(2) zero_less_numeral)

lemma base58_one [simp]: "base58_value CHR ''1'' = 0" "base58_char CHR ''1''"
  using psz_char [of 0] by simp_all

section \<open>What the encoder computes\<close>

definition base58_text :: "bytes \<Rightarrow> string" where
  "base58_text bs = replicate (length (takeWhile (\<lambda>b. b = 0) bs)) CHR ''1''
     @ map (\<lambda>d. pszBase58 ! d) (rev (base_digits 58 (big_value 256 (map unat bs))))"

lemma unat_bytes: "\<forall>x \<in> set (map unat (bs :: bytes)). x < 256"
  using unat_byte_less by auto

lemma encode_loop_run:
  assumes "feed 256 v (map unat bs) < 58 ^ n"
  shows "encode_loop bs (digit_vector 58 n v) (length (base_digits 58 v)) =
    Returned (digit_vector 58 n (feed 256 v (map unat bs)), length (base_digits 58 (feed 256 v (map unat bs))))"
  using assms
proof (induction bs arbitrary: v)
  case (Cons b bs)
  have "256 * v + unat b \<le> feed 256 (256 * v + unat b) (map unat bs)" by (rule feed_mono) simp
  then have "256 * v + unat b < 58 ^ n" using Cons.prems by simp
  then show ?case
    using carry_loop_vector [of 58 256 v "unat b" n] Cons by simp
qed simp

lemma last_base_digits: "2 \<le> d \<Longrightarrow> 0 < v \<Longrightarrow> last (base_digits d v) \<noteq> 0"
proof (induction v rule: less_induct)
  case (less v)
  show ?case
  proof (cases "v < d")
    case True
    then show ?thesis using less.prems by (simp add: base_digits_pos)
  next
    case False
    then have "0 < v div d" "v div d < v" using less.prems by (simp_all add: div_greater_zero_iff)
    then show ?thesis using less by (simp add: base_digits_pos)
  qed
qed

lemma unat_byte_digits: "2 \<le> d \<Longrightarrow> d \<le> 256 \<Longrightarrow> map unat (byte_digits d v) = base_digits d v"
proof -
  assume d: "2 \<le> d" "d \<le> 256"
  have "unat (word_of_nat x :: byte) = x" if "x \<in> set (base_digits d v)" for x
    using base_digits_less [OF d(1) that] d(2) by (simp add: unat_of_nat)
  then show ?thesis by (simp add: map_idI)
qed

lemma no_leading_zeros:
  assumes "2 \<le> d" and "d \<le> 256"
  shows "dropWhile (\<lambda>x. x = 0) (rev (byte_digits d v)) = rev (byte_digits d v)"
proof (cases "v = 0")
  case False
  then have ne: "base_digits d v \<noteq> []" using assms(1) by (simp add: base_digits_pos)
  have "last (base_digits d v) \<noteq> 0" "last (base_digits d v) < d"
    using last_base_digits [OF assms(1)] base_digits_less [OF assms(1) last_in_set [OF ne]] False by simp_all
  then have "unat (word_of_nat (last (base_digits d v)) :: byte) \<noteq> 0" using assms(2) by (simp add: unat_of_nat)
  then have "hd (rev (byte_digits d v)) \<noteq> 0" using ne by (auto simp: hd_rev last_map)
  then show ?thesis using ne by (cases "rev (byte_digits d v)") auto
qed simp

lemma base58_chars_run: "\<forall>d \<in> set ds. unat d < 58 \<Longrightarrow> base58_chars ds = Returned (map (\<lambda>d. pszBase58 ! unat d) ds)"
  by (induction ds) auto

lemma big_value_zeros: "big_value d (map unat (dropWhile (\<lambda>b. b = 0) bs)) = big_value d (map unat (bs :: bytes))"
proof -
  have "feed d 0 (map unat bs) = feed d 0 (map unat (dropWhile (\<lambda>b. b = 0) bs))"
    by (induction bs) (auto simp del: feed_simps(3))
  then show ?thesis by simp
qed

lemma to_base58_run:
  assumes "int (length bs) \<le> max_array_size"
  shows "to_base58 bs = Returned (base58_text bs)"
proof -
  define nz where "nz = dropWhile (\<lambda>b. b = 0) bs"
  define n where "n = length nz * 138 div 100 + 1"
  let ?w = "big_value 256 (map unat nz)"
  have "length nz \<le> length bs" by (simp add: nz_def length_dropWhile_le)
  then have "length nz \<le> 10485760" using assms by (simp add: max_array_size_def)
  then have small: "int (length nz) * 138 div 100 + 1 < 2 ^ 31" by simp
  have n: "int (length nz) * 138 div 100 + 1 = int n" by (simp add: n_def zdiv_int)
  then have size: "to_int32 (int (length nz) * 138 div 100 + 1) = int n"
    using small by (simp only: to_int32_def signed_of_int) (simp add: signed_take_bit_int_eq_self)
  have w: "?w < 58 ^ n"
    using big_value_less [OF unat_bytes, of nz] base256_fits [of "length nz"] by (simp add: n_def)
  have loop: "encode_loop nz (replicate n 0) 0 = Returned (digit_vector 58 n ?w, length (base_digits 58 ?w))"
    using encode_loop_run [of 0 nz n] w by simp
  have ds: "drop (n - length (base_digits 58 ?w)) (digit_vector 58 n ?w) = rev (byte_digits 58 ?w)"
    using drop_digit_vector w by simp
  have u: "map unat (byte_digits 58 ?w) = base_digits 58 ?w" by (rule unat_byte_digits) simp_all
  have "\<forall>d \<in> set (rev (byte_digits 58 ?w)). unat d < 58"
  proof
    fix d assume "d \<in> set (rev (byte_digits 58 ?w))"
    then have "unat d \<in> set (map unat (byte_digits 58 ?w))" by auto
    then show "unat d < 58" unfolding u using base_digits_less [of 58] by simp
  qed
  then have chars: "base58_chars (rev (byte_digits 58 ?w)) = Returned (map (\<lambda>d. pszBase58 ! unat d) (rev (byte_digits 58 ?w)))"
    by (rule base58_chars_run)
  have "map (\<lambda>d. pszBase58 ! unat d) (rev (byte_digits 58 ?w)) = map (\<lambda>d. pszBase58 ! d) (map unat (rev (byte_digits 58 ?w)))" by simp
  also have "\<dots> = map (\<lambda>d. pszBase58 ! d) (rev (base_digits 58 ?w))" using u by (metis rev_map)
  finally show ?thesis
    using size loop ds chars big_value_zeros [of 256 bs] no_leading_zeros [of 58 ?w]
    by (simp add: to_base58_def encode_base58_def base58_text_def Let_def flip: nz_def)
qed

section \<open>What the decoder computes\<close>

definition base58_bytes :: "string \<Rightarrow> bytes" where
  "base58_bytes t = replicate (length (takeWhile (\<lambda>c. c = CHR ''1'') t)) 0
     @ rev (byte_digits 256 (big_value 58 (map base58_value t)))"

definition trim :: "string \<Rightarrow> string" where
  "trim s = rev (dropWhile is_space (rev (dropWhile is_space s)))"

lemma drop_ConsD:
  assumes "drop p mem = c # xs"
  shows "p < length mem" and "mem ! p = c" and "drop (Suc p) mem = xs"
proof -
  show p: "p < length mem" using assms by (cases "p < length mem") simp_all
  then show "mem ! p = c" "drop (Suc p) mem = xs" using assms by (simp_all add: Cons_nth_drop_Suc [symmetric])
qed

lemma skip_spaces_run:
  assumes "drop p mem = ss @ post" and "\<forall>c \<in> set ss. is_space c" and "p + length ss \<le> e"
    and "p + length ss = e \<or> post \<noteq> [] \<and> \<not> is_space (hd post)"
  shows "skip_spaces mem e p = Returned (p + length ss)"
  using assms
proof (induction ss arbitrary: p)
  case Nil
  show ?case
  proof (cases "p = e")
    case True
    then show ?thesis by (subst skip_spaces.simps) simp
  next
    case False
    then obtain c post' where "drop p mem = c # post'" "\<not> is_space c" using Nil.prems by (cases post) simp_all
    then show ?thesis using False drop_ConsD(1,2) [of p mem c post'] by (subst skip_spaces.simps) simp
  qed
next
  case (Cons c ss)
  have p: "p < length mem" "mem ! p = c" "drop (Suc p) mem = ss @ post" using Cons.prems(1) by (auto dest: drop_ConsD)
  show ?case
    using Cons.IH [OF p(3)] Cons.prems p by (subst skip_spaces.simps) auto
qed

lemma skip_ones_run:
  assumes "drop p mem = replicate k CHR ''1'' @ post" and "post \<noteq> []" and "hd post \<noteq> CHR ''1''" and "int z \<le> m"
  shows "skip_ones mem m z p =
    Returned (if int (z + k) \<le> m then Inr (z + k, p + k) else Inl (encode_error Encode_invalid_length))"
  using assms(1,4)
proof (induction k arbitrary: z p)
  case 0
  then obtain c post' where "drop p mem = c # post'" "c \<noteq> CHR ''1''" using assms(2,3) by (cases post) simp_all
  then have "p < length mem" "mem ! p \<noteq> CHR ''1''" by (auto dest: drop_ConsD)
  then show ?case using 0 by (subst skip_ones.simps) simp
next
  case (Suc k)
  have p: "p < length mem" "mem ! p = CHR ''1''" "drop (Suc p) mem = replicate k CHR ''1'' @ post"
    using Suc.prems(1) by (auto dest: drop_ConsD)
  show ?case
    using Suc.IH [OF p(3), of "Suc z"] p by (subst skip_ones.simps) auto
qed

lemma decode_loop_run:
  assumes "drop p mem = g @ post" and "\<forall>c \<in> set g. base58_char c" and "p + length g \<le> e"
    and "feed 58 v (map base58_value g) < 256 ^ n" and "int (length (base_digits 256 v) + z) \<le> m"
  shows "decode_loop mem e m z (digit_vector 256 n v) (length (base_digits 256 v)) p =
    (let w = feed 58 v (map base58_value g)
     in if int (length (base_digits 256 w) + z) \<le> m
        then decode_loop mem e m z (digit_vector 256 n w) (length (base_digits 256 w)) (p + length g)
        else Returned (Inl (encode_error Encode_invalid_length)))"
  using assms
proof (induction g arbitrary: p v)
  case (Cons c g)
  have p: "p < length mem" "mem ! p = c" "drop (Suc p) mem = g @ post" using Cons.prems(1) by (auto dest: drop_ConsD)
  have c: "base58_char c" and g: "\<forall>c \<in> set g. base58_char c" using Cons.prems(2) by simp_all
  let ?v = "58 * v + base58_value c"
  have le: "?v \<le> feed 58 ?v (map base58_value g)" by (rule feed_mono) simp
  then have fit: "?v < 256 ^ n" using Cons.prems(4) by simp
  have loop: "carry_loop 58 256 (length (base_digits 256 v)) (mapBase58 ! of_char c) 0 (rev (digit_vector 256 n v)) =
      (0, length (base_digits 256 ?v), rev (digit_vector 256 n ?v))"
    using carry_loop_vector [of 256 58 v "base58_value c" n] fit base58_charD(1) [OF c] by simp
  have ne: "mapBase58 ! of_char c \<noteq> - 1" using c by (simp add: base58_char_def)
  have step: "decode_loop mem e m z (digit_vector 256 n v) (length (base_digits 256 v)) p =
      (if m < int (length (base_digits 256 ?v) + z) then Returned (Inl (encode_error Encode_invalid_length))
       else decode_loop mem e m z (digit_vector 256 n ?v) (length (base_digits 256 ?v)) (Suc p))"
    using p Cons.prems(3) base58_charD(4) [OF c] loop ne by (subst decode_loop.simps) (simp add: Let_def)
  show ?case
  proof (cases "int (length (base_digits 256 ?v) + z) \<le> m")
    case True
    then show ?thesis using Cons.IH [OF p(3) g _ _ True] Cons.prems(3,4) step by (simp add: Let_def)
  next
    case False
    moreover have "length (base_digits 256 ?v) \<le> length (base_digits 256 (feed 58 ?v (map base58_value g)))"
      by (rule length_base_digits_mono [OF _ le]) simp
    ultimately show ?thesis using step by (simp add: Let_def)
  qed
qed simp

lemma trim_split:
  obtains ss1 ss2 where "s = ss1 @ trim s @ ss2" and "\<forall>c \<in> set ss1. is_space c" and "\<forall>c \<in> set ss2. is_space c"
    and "trim s = [] \<longrightarrow> ss2 = []" and "trim s \<noteq> [] \<longrightarrow> \<not> is_space (hd (trim s)) \<and> \<not> is_space (last (trim s))"
proof -
  define s1 where "s1 = dropWhile is_space s"
  define ss2 where "ss2 = rev (takeWhile is_space (rev s1))"
  have t: "trim s = rev (dropWhile is_space (rev s1))" by (simp add: trim_def s1_def)
  have s1: "s1 = trim s @ ss2"
    unfolding t ss2_def by (metis rev_append rev_rev_ident takeWhile_dropWhile_id)
  have "s = takeWhile is_space s @ trim s @ ss2" using s1 takeWhile_dropWhile_id [of is_space s] by (simp add: s1_def)
  moreover have "\<forall>c \<in> set (takeWhile is_space s). is_space c" "\<forall>c \<in> set ss2. is_space c"
    unfolding ss2_def by (auto dest: set_takeWhileD)
  moreover have "ss2 = []" if "trim s = []"
  proof (cases s1)
    case Nil
    then show ?thesis by (simp add: ss2_def)
  next
    case (Cons c cs)
    then have "\<not> is_space c" using hd_dropWhile [of is_space s] by (simp add: s1_def)
    moreover have "\<forall>c \<in> set (rev s1). is_space c" using that t by simp
    ultimately show ?thesis using Cons by simp
  qed
  moreover have "\<not> is_space (hd (trim s)) \<and> \<not> is_space (last (trim s))" if "trim s \<noteq> []"
  proof -
    have ne: "dropWhile is_space (rev s1) \<noteq> []" using that t by simp
    have "\<not> is_space (last (trim s))" using hd_dropWhile [OF ne] by (simp add: t last_rev)
    moreover have "s1 \<noteq> []" using ne by auto
    then have "\<not> is_space (hd s1)" unfolding s1_def by (rule hd_dropWhile)
    ultimately show ?thesis using s1 that by (metis hd_append2)
  qed
  ultimately show ?thesis using that by blast
qed

lemma decode_loop_stops:
  "p = e \<or> p < length mem \<and> is_space (mem ! p) \<Longrightarrow> decode_loop mem e m z b l p = Returned (Inr (b, l, p))"
  by (subst decode_loop.simps) auto

lemma decode_loop_invalid:
  "p \<noteq> e \<Longrightarrow> p < length mem \<Longrightarrow> \<not> is_space (mem ! p) \<Longrightarrow> \<not> base58_char (mem ! p) \<Longrightarrow>
   decode_loop mem e m z b l p = Returned (Inl (encode_error Encode_invalid_character))"
  by (subst decode_loop.simps) (simp add: base58_char_def)

text \<open>What happens behind the digits \<open>g\<close>: \<open>h\<close> is the rest of the text without the trailing spaces \<open>ss\<close>.\<close>

lemma decode_rest:
  assumes "drop p mem = h @ ss @ rest" and "e = p + length h + length ss" and "\<forall>c \<in> set ss. is_space c"
    and "h \<noteq> [] \<Longrightarrow> \<not> base58_char (hd h) \<and> \<not> is_space (last h)"
  shows "bindO (decode_loop mem e m z b l p) (\<lambda>decoded.
           case decoded of
             Inl er \<Rightarrow> Returned (Inl er)
           | Inr (b256, len, p) \<Rightarrow>
               bindO (skip_spaces mem e p) (\<lambda>p.
               if p \<noteq> e then Returned (Inl (encode_error Encode_invalid_length)) else f b256 len)) =
         (if h = [] then f b l
          else Returned (Inl (encode_error (if is_space (hd h) then Encode_invalid_length else Encode_invalid_character))))"
proof (cases h)
  case Nil
  have "p = e \<or> p < length mem \<and> is_space (mem ! p)"
    using assms(1-3) Nil by (cases ss) (auto dest: drop_ConsD)
  then show ?thesis
    using decode_loop_stops [of p e mem m z b l] skip_spaces_run [of p mem ss rest e] assms Nil by simp
next
  case (Cons c h')
  then have c: "drop p mem = c # h' @ ss @ rest" "\<not> base58_char c" "p \<noteq> e" using assms by simp_all
  show ?thesis
  proof (cases "is_space c")
    case True
    define sp where "sp = takeWhile is_space h"
    have h: "h = sp @ dropWhile is_space h" by (simp add: sp_def)
    have sps: "\<forall>c \<in> set sp. is_space c" unfolding sp_def by (auto dest: set_takeWhileD)
    have ne: "dropWhile is_space h \<noteq> []"
      using assms(4) Cons last_in_set [of h] by auto
    have "drop p mem = sp @ (dropWhile is_space h @ ss @ rest)" using assms(1) h by (metis append.assoc)
    moreover have "length h = length sp + length (dropWhile is_space h)" by (subst h) simp
    moreover have "\<not> is_space (hd (dropWhile is_space h))" by (rule hd_dropWhile [OF ne])
    ultimately have "skip_spaces mem e p = Returned (p + length sp)" "p + length sp \<noteq> e"
      using skip_spaces_run [of p mem sp "dropWhile is_space h @ ss @ rest" e] sps ne assms(2) by simp_all
    moreover have "decode_loop mem e m z b l p = Returned (Inr (b, l, p))"
      using True drop_ConsD(1,2) [OF c(1)] by (intro decode_loop_stops) simp
    ultimately show ?thesis using Cons True by simp
  next
    case False
    then show ?thesis
      using decode_loop_invalid [of p e mem m z b l] drop_ConsD(1,2) [OF c(1)] c(2,3) Cons by simp
  qed
qed

lemma big_value_ones:
  "big_value 58 (map base58_value (replicate k CHR ''1'' @ u)) = big_value 58 (map base58_value u)"
proof -
  have "feed 58 0 (map base58_value (replicate k CHR ''1'' @ u)) = feed 58 0 (map base58_value u)"
    by (induction k) (auto simp del: feed_simps(3))
  then show ?thesis by simp
qed

text \<open>The decoder on a text given by its parts: spaces, ones, digits, what is not a digit, spaces.\<close>

lemma from_base58_parts:
  assumes mem: "s @ rest = ss1 @ replicate k CHR ''1'' @ g @ h @ ss2 @ rest" and s: "s \<noteq> []" "length s < 2 ^ 54"
    and skip: "skip_spaces (s @ rest) (length s) 0 = Returned (length ss1)"
    and ss2: "\<forall>c \<in> set ss2. is_space c" and g: "\<forall>c \<in> set g. base58_char c"
    and stop: "h \<noteq> [] \<Longrightarrow> \<not> base58_char (hd h) \<and> \<not> is_space (last h)"
    and first: "g @ h @ ss2 @ rest \<noteq> []" "hd (g @ h @ ss2 @ rest) \<noteq> CHR ''1''"
  shows "from_base58 s rest =
    (let w = big_value 58 (map base58_value g)
     in if int k \<le> max_array_size \<and> int (length (base_digits 256 w) + k) \<le> max_array_size
        then if h = [] then Returned (Inr (replicate k 0 @ rev (byte_digits 256 w)))
             else Returned (Inl (encode_error (if is_space (hd h) then Encode_invalid_length else Encode_invalid_character)))
        else Returned (Inl (encode_error Encode_invalid_length)))"
proof -
  let ?mem = "s @ rest" and ?m = max_array_size and ?p = "length ss1" and ?w = "big_value 58 (map base58_value g)"
  define n where "n = nat (int (length s) * 733 mod 2 ^ 64 div 1000 + 1)"
  have e: "length s = ?p + k + length g + length h + length ss2"
    using arg_cong [OF mem, of length] by simp
  have w: "?w < 256 ^ n"
  proof -
    have "n = length s * 733 div 1000 + 1" using s(2) by (simp add: n_def nat_add_distrib nat_div_distrib nat_mult_distrib)
    moreover have "?w < 58 ^ length (map base58_value g)" using g base58_charD(2) by (intro big_value_less) auto
    moreover have "(58 :: nat) ^ length (map base58_value g) \<le> 58 ^ length s" using e by (intro power_increasing) simp_all
    ultimately show ?thesis using base58_fits [of "length s"] by (metis less_le_trans less_trans)
  qed
  have ones_run: "skip_ones ?mem ?m 0 ?p = Returned (if int k \<le> ?m then Inr (k, ?p + k) else Inl (encode_error Encode_invalid_length))"
    using skip_ones_run [of ?p ?mem k "g @ h @ ss2 @ rest" 0 ?m] first mem by (simp add: max_array_size_def)
  have dg: "drop (?p + k) ?mem = g @ h @ ss2 @ rest" unfolding mem by simp
  have le: "?p + k + length g \<le> length s" using e by simp
  have loop: "decode_loop ?mem (length s) ?m k (replicate n 0) 0 (?p + k) =
      (if int (length (base_digits 256 ?w) + k) \<le> ?m
       then decode_loop ?mem (length s) ?m k (digit_vector 256 n ?w) (length (base_digits 256 ?w)) (?p + k + length g)
       else Returned (Inl (encode_error Encode_invalid_length)))" if "int k \<le> ?m"
    using decode_loop_run [OF dg g le, of 0 n k ?m] w that by (simp add: Let_def)
  have at: "drop (?p + k + length g) ?mem = h @ ss2 @ rest" unfolding mem by simp
  show ?thesis
    using decode_rest [OF at e ss2 stop, of ?m k "digit_vector 256 n ?w" "length (base_digits 256 ?w)"
        "\<lambda>b256 len. Returned (Inr (replicate k 0 @ drop (n - len) b256))"] drop_digit_vector [of 256 ?w n] w
      skip ones_run loop s(1)
    by (simp add: from_base58_def decode_base58_def Let_def n_def [symmetric, simplified])
qed

text \<open>
  The texts that decode: between spaces, characters of the alphabet, as many leading zero bytes as leading ones, and
  the digits to base 256 of the number the text denotes.
\<close>

lemma from_base58_run:
  assumes "s \<noteq> []" and "length s < 2 ^ 54" and "rest \<noteq> []" and "hd rest \<noteq> CHR ''1''"
  shows "\<exists>e. from_base58 s rest =
    Returned (if (\<forall>c \<in> set (trim s). base58_char c) \<and> int (length (base58_bytes (trim s))) \<le> max_array_size
              then Inr (base58_bytes (trim s)) else Inl e)"
proof -
  obtain ss1 ss2 where s: "s = ss1 @ trim s @ ss2" "\<forall>c \<in> set ss1. is_space c" "\<forall>c \<in> set ss2. is_space c"
      "trim s = [] \<longrightarrow> ss2 = []" "trim s \<noteq> [] \<longrightarrow> \<not> is_space (hd (trim s)) \<and> \<not> is_space (last (trim s))"
    by (rule trim_split [of s])
  define k where "k = length (takeWhile (\<lambda>c. c = CHR ''1'') (trim s))"
  define u where "u = dropWhile (\<lambda>c. c = CHR ''1'') (trim s)"
  define g where "g = takeWhile base58_char u"
  define h where "h = dropWhile base58_char u"
  have ones: "takeWhile (\<lambda>c. c = CHR ''1'') (trim s) = replicate k CHR ''1''"
    unfolding k_def by (rule replicate_length_same [symmetric]) (auto dest: set_takeWhileD)
  then have t: "trim s = replicate k CHR ''1'' @ u"
    using takeWhile_dropWhile_id [of "\<lambda>c. c = CHR ''1''" "trim s"] by (simp add: u_def)
  have u: "u = g @ h" "\<forall>c \<in> set g. base58_char c" "u \<noteq> [] \<Longrightarrow> hd u \<noteq> CHR ''1''"
    unfolding g_def h_def u_def using hd_dropWhile [of "\<lambda>c. c = CHR ''1''" "trim s"] by (auto dest: set_takeWhileD)
  have mem: "s @ rest = ss1 @ replicate k CHR ''1'' @ g @ h @ ss2 @ rest"
    using s(1) unfolding t u(1) by simp
  have len: "length s = length ss1 + length (trim s @ ss2)" using arg_cong [OF s(1), of length] by simp
  have "drop 0 (s @ rest) = ss1 @ (trim s @ ss2 @ rest)" by (subst s(1)) simp
  then have skip: "skip_spaces (s @ rest) (length s) 0 = Returned (length ss1)"
    using skip_spaces_run [of 0 "s @ rest" ss1 "trim s @ ss2 @ rest" "length s"] s(2,4,5) len by (cases "trim s = []") auto
  have first: "g @ h @ ss2 @ rest \<noteq> []" "hd (g @ h @ ss2 @ rest) \<noteq> CHR ''1''"
    using u(1,3) s(3) assms(3,4) by (cases "u = []"; cases ss2; auto simp: is_space_def hd_append split: if_splits)+
  have stop: "\<not> base58_char (hd h) \<and> \<not> is_space (last h)" if "h \<noteq> []"
    using that s(5) t u(1) hd_dropWhile [of base58_char u, folded h_def] by simp
  have "(\<forall>c \<in> set (trim s). base58_char c) \<longleftrightarrow> (\<forall>c \<in> set h. base58_char c)"
    using t u(1,2) base58_one by auto
  then have good: "(\<forall>c \<in> set (trim s). base58_char c) \<longleftrightarrow> h = []" using stop by (cases h) simp_all
  have "base58_bytes (trim s) = replicate k 0 @ rev (byte_digits 256 (big_value 58 (map base58_value g)))" if "h = []"
    using big_value_ones [of k u] t ones that u(1) by (simp add: base58_bytes_def)
  then show ?thesis
    using from_base58_parts [OF mem assms(1,2) skip s(3) u(2) stop first] good by (auto simp: ac_simps Let_def)
qed

section \<open>The round trip\<close>

lemma takeWhile_replicate_append:
  "ys = [] \<or> \<not> P (hd ys) \<Longrightarrow> P x \<Longrightarrow> takeWhile P (replicate k x @ ys) = replicate k x"
  by (induction k) (cases ys; simp)+

lemma takeWhile_eq_replicate: "takeWhile (\<lambda>c. c = x) t = replicate (length (takeWhile (\<lambda>c. c = x) t)) x"
  by (rule replicate_length_same [symmetric]) (auto dest: set_takeWhileD)

lemma values_of_digits: "\<forall>d \<in> set ds. d < 58 \<Longrightarrow> map base58_value (map ((!) pszBase58) ds) = ds"
  using psz_char(2) by (induction ds) simp_all

lemma base58_bytes_text: "base58_bytes (base58_text bs) = bs"
proof -
  define nz where "nz = dropWhile (\<lambda>b. b = 0) bs"
  define z where "z = length (takeWhile (\<lambda>b. b = 0) bs)"
  let ?v = "big_value 256 (map unat bs)"
  let ?ds = "rev (base_digits 58 ?v)"
  have ds: "\<forall>d \<in> set ?ds. d < 58" using base_digits_less [of 58 _ ?v] by simp
  have v: "map base58_value (map ((!) pszBase58) ?ds) = ?ds" by (rule values_of_digits [OF ds])
  have "hd (map ((!) pszBase58) ?ds) \<noteq> CHR ''1''" if "?ds \<noteq> []"
  proof -
    have "0 < ?v" using that by (cases "?v = 0") simp_all
    then have "hd ?ds \<noteq> 0" using last_base_digits [of 58 ?v] by (simp add: hd_rev)
    then show ?thesis using that ds psz_one [of "hd ?ds"] by (metis hd_in_set hd_map)
  qed
  then have ones: "takeWhile (\<lambda>c. c = CHR ''1'') (base58_text bs) = replicate z CHR ''1''"
    unfolding base58_text_def z_def by (intro takeWhile_replicate_append) auto
  have "big_value 58 (map base58_value (base58_text bs)) = ?v"
    using big_value_ones [of z "map ((!) pszBase58) ?ds"] v big_value_digits [of 58 ?v] by (simp add: base58_text_def flip: z_def)
  moreover have "?v = big_value 256 (map unat nz)" unfolding nz_def by (simp only: big_value_zeros)
  moreover have "base_digits 256 (big_value 256 (map unat nz)) = rev (map unat nz)"
  proof (rule digits_big_value)
    show "\<forall>x \<in> set (map unat nz). x < 256" by (rule unat_bytes)
    show "map unat nz = [] \<or> hd (map unat nz) \<noteq> 0"
      using hd_dropWhile [of "\<lambda>b. b = 0" bs] by (cases "nz = []") (auto simp: nz_def hd_map unat_eq_zero)
  qed simp
  ultimately have "base58_bytes (base58_text bs) = replicate z 0 @ nz"
    using ones by (simp add: base58_bytes_def rev_map comp_def)
  also have "\<dots> = bs" using takeWhile_eq_replicate [of 0 bs] takeWhile_dropWhile_id by (metis nz_def z_def)
  finally show ?thesis .
qed

lemma base58_text_bytes:
  assumes "\<forall>c \<in> set t. base58_char c"
  shows "base58_text (base58_bytes t) = t"
proof -
  define u where "u = dropWhile (\<lambda>c. c = CHR ''1'') t"
  define k where "k = length (takeWhile (\<lambda>c. c = CHR ''1'') t)"
  have t: "t = replicate k CHR ''1'' @ u"
    using takeWhile_eq_replicate [of "CHR ''1''" t] takeWhile_dropWhile_id by (metis k_def u_def)
  have u: "\<forall>c \<in> set u. base58_char c" using assms unfolding u_def by (auto dest: set_dropWhileD)
  let ?v = "big_value 58 (map base58_value u)"
  let ?bs = "rev (byte_digits 256 ?v)"
  have v: "big_value 58 (map base58_value t) = ?v" using big_value_ones [of k u] t by simp
  have "hd ?bs \<noteq> 0" if "?bs \<noteq> []"
    using no_leading_zeros [of 256 ?v] that hd_dropWhile [of "\<lambda>x. x = 0" ?bs] by simp
  then have zs: "takeWhile (\<lambda>b. b = 0) (replicate k 0 @ ?bs) = replicate k 0"
    by (intro takeWhile_replicate_append) auto
  have "big_value 256 (map unat (replicate k 0 @ ?bs)) = big_value 256 (map unat ?bs)"
  proof -
    have "feed 256 0 (map unat (replicate k 0 @ ?bs)) = feed 256 0 (map unat ?bs)"
      by (induction k) (auto simp del: feed_simps(3))
    then show ?thesis by simp
  qed
  also have "\<dots> = ?v"
  proof -
    have "map unat ?bs = rev (map unat (byte_digits 256 ?v))" by (rule rev_map [symmetric])
    also have "\<dots> = rev (base_digits 256 ?v)" by (simp only: unat_byte_digits [of 256 ?v])
    finally show ?thesis using big_value_digits [of 256 ?v] by simp
  qed
  finally have "base58_text (base58_bytes t) = replicate k CHR ''1'' @ map ((!) pszBase58) (rev (base_digits 58 ?v))"
    using v zs by (simp add: base58_text_def base58_bytes_def flip: k_def)
  moreover have "base_digits 58 ?v = rev (map base58_value u)"
  proof (rule digits_big_value)
    show "\<forall>x \<in> set (map base58_value u). x < 58" using u base58_charD(2) by auto
    have "base58_value (hd u) \<noteq> 0" if "u \<noteq> []"
    proof -
      have "hd u \<noteq> CHR ''1''" using that unfolding u_def by (rule hd_dropWhile)
      then show ?thesis using base58_charD(3) [of "hd u"] u that psz_simps(2) by (metis hd_in_set)
    qed
    then show "map base58_value u = [] \<or> hd (map base58_value u) \<noteq> 0" by (cases u) simp_all
  qed simp
  moreover have "map ((!) pszBase58) (map base58_value u) = u" using u base58_charD(3) by (induction u) simp_all
  ultimately show ?thesis using t by simp
qed

lemma base58_text_chars: "\<forall>c \<in> set (base58_text bs). base58_char c"
proof -
  have "base58_char (pszBase58 ! d)" if "d \<in> set (base_digits 58 v)" for d v
    using base_digits_less [OF _ that] psz_char(1) by simp
  then show ?thesis by (auto simp: base58_text_def set_replicate_conv_if)
qed

lemma trim_text: "trim (base58_text bs) = base58_text bs"
proof -
  have id: "dropWhile is_space t = t" if "\<forall>c \<in> set t. base58_char c" for t
    using that base58_charD(4) by (cases t) auto
  show ?thesis using id [of "base58_text bs"] id [of "rev (base58_text bs)"] base58_text_chars [of bs] by (simp add: trim_def)
qed

lemma length_base58_text: "length (base58_text bs) \<le> 2 * length bs + 1"
proof -
  let ?v = "big_value 256 (map unat bs)"
  let ?z = "length (takeWhile (\<lambda>b. b = 0) bs)" and ?n = "length (dropWhile (\<lambda>b. b = 0) bs)"
  have "?v < 256 ^ ?n"
    using big_value_less [OF unat_bytes, of "dropWhile (\<lambda>b. b = 0) bs"] big_value_zeros [of 256 bs] by simp
  also have "\<dots> < 58 ^ (?n * 138 div 100 + 1)" by (rule base256_fits)
  finally have "length (base_digits 58 ?v) \<le> ?n * 138 div 100 + 1" by (simp only: length_base_digits)
  moreover have "?z + ?n = length bs" by (metis length_append takeWhile_dropWhile_id)
  ultimately show ?thesis by (simp add: base58_text_def)
qed



end
