(* ===== verification/Spec2Isabelle.thy ===== *)
theory Spec2Isabelle
  imports Chain Encode
begin

text \<open>
  A verification development of the Respublica node (\<open>src/src/respublica\<close>, \<open>src/include/respublica\<close>).

  \<^bold>\<open>The program.\<close>  The node keeps a tree of states of an object store.  A block is checked by the controller and
  applied in an execution context on a new state node below the node of its parent; its transactions run operations,
  which upload programs or call them; a program is native (the coin program) or WebAssembly bytecode run by a virtual
  machine, and reaches the objects of its own spaces through a system interface.  Resources are metered.  When a
  block has been applied its node is finalized, and fork resolution chooses the head.

  \<^bold>\<open>Conventions.\<close>  A C++ call is an \<open>('s, 'a) op\<close>: it takes the state it works on and gives an \<open>outcome\<close>,
  \<open>Returned\<close> or \<open>Threw\<close> an exception, an assertion, undefined behaviour or the end of the process, with the new state
  (\<open>Prelude\<close>).  \<open>std::expected\<close> is a sum with the error code on the left (\<open>Errors\<close>).  Integers of fixed width are
  words, byte strings are lists of words of 8 bits, shared pointers to deltas are indices into a heap.  A delta,
  once allocated, stays in the heap: freeing memory is not modelled.

  \<^bold>\<open>Theories.\<close>
  \<^item> \<open>Prelude\<close>: machine types, outcomes, the state-passing combinators, \<open>upholds P Q m\<close> (the operation \<open>m\<close> keeps the
    invariant \<open>P\<close>, relates the states before and after by \<open>Q\<close> and does not diverge), little-endian byte strings.
  \<^item> \<open>Ordered_Map\<close>: \<open>std::map\<close> and \<open>std::set\<close> as sorted lists, with the contract as the locale \<open>ordered_map\<close>.
  \<^item> \<open>Map_Backend\<close> (\<open>state_db/backends\<close>), \<open>State_Delta\<close> (\<open>state_delta.cpp\<close>), \<open>State_Node\<close> (\<open>state_node.cpp\<close>,
    \<open>temporary_state_node.cpp\<close>), \<open>Delta_Index\<close> (\<open>delta_index.cpp\<close>, \<open>permanent_state_node.cpp\<close>, \<open>database.cpp\<close>): the
    state database.  The contract of a delta is \<open>view h p\<close>, the store that a reader of delta \<open>p\<close> sees: every operation
    is shown to implement its counterpart on the view, to keep the heap well-formed and to leave every delta that is not
    below \<open>p\<close> alone.  The multi-index container of Boost is a parameter with its documented laws in the locale
    \<open>delta_container\<close>, which is interpreted on a list.
  \<^item> \<open>Crypto\<close> (\<open>crypto\<close>): hashing, merkle trees and keys.  The digest function \<open>H\<close> and the signature scheme are
    parameters; merkle roots and ids are shown to commit to their content up to a collision that is exhibited.
  \<^item> \<open>Protocol\<close> (\<open>protocol\<close>), \<open>Errors\<close> (all \<open>error.cpp\<close>), \<open>Encode\<close> (\<open>encode\<close>): the data, what its ids
    commit to, the error codes, and the round trips of hexadecimal and base58 text.
  \<^item> \<open>Resource_Meter\<close>, \<open>Program_Stack\<close> (\<open>controller\<close>): exact accounting of resources, the bounded stack of programs.
  \<^item> \<open>Module_Cache\<close>, \<open>Virtual_Machine\<close> (\<open>vm\<close>): the cache of parsed modules, the handlers of the imported functions
    with their accesses to the memory of the guest, and the metered run.  The interpreter fizzy is a parameter: a
    machine that runs until it stops or calls an import, and is resumed with the answer.
  \<^item> \<open>Coin\<close> (\<open>program/coin.cpp\<close>): the native program over an arbitrary system interface; the locale \<open>object_store\<close>
    states what it relies on and \<open>Ledger\<close> provides it.
  \<^item> \<open>Host_Api\<close>, \<open>Execution_Context\<close> (\<open>controller/host_api.cpp\<close>, \<open>execution_context.cpp\<close>): the system calls, the
    runs of programs, and the application of operations, transactions and blocks.
  \<^item> \<open>Execution_Invariants\<close>, \<open>Transactions\<close>, \<open>Ledger\<close>: what every run of a program, transaction and block keeps and
    changes: isolation of programs, termination, signatures, nonces, replay, conservation of coins.
  \<^item> \<open>Controller\<close> (\<open>controller/controller.cpp\<close>) and \<open>Chain\<close>: opening, processing and queries; the inductive relation
    \<open>chain_step\<close> has one rule per public call, and the properties hold of every sequence of them.

  \<^bold>\<open>Bounds and fuel.\<close>  Reading through the parents of a delta uses the length of the heap as fuel, which is enough
  because a parent is always older than its children.  Programs call the context and the context runs programs; the fuel
  of \<open>run_program\<close> is \<open>call_fuel\<close>, the limit of 32 frames of the stack, so that a run is refused by the stack
  before the fuel ends.  A run of the virtual machine has the ticks it is given as fuel.  In each case it is proved
  that the run ends, not only what holds when it does.  Words wrap where the code lets them wrap; where a theorem
  needs that a count stays below \<open>2^64\<close> it says so.

  \<^bold>\<open>Not modelled.\<close>  The libraries under \<open>src/external\<close> (BLAKE3, FourQ with SchnorrQ, fizzy) are parameters.  The RocksDB
  backend and its object cache are commented out of the build and do not compile (they include headers that do
  not exist).  Logging writes output only.  Mutexes are left out, since every operation of the module cache holds its mutex from
  start to end and the controller has no concurrency of its own.  Tests, benchmarks and build scripts are not part of the
  node.
\<close>

end
